(* ===== verification/Float64.thy ===== *)
theory Float64
  imports Complex_Main "HOL-Library.Log_Nat" "HOL-Library.Signed_Division"
begin

text \<open>
  The numbers of Go's \<open>float64\<close>, \<open>int64\<close> and \<open>time.Duration\<close> that the time budget is computed
  with. A \<open>float64\<close> is the rational it stands for; \<open>fl64\<close> is rounding to the nearest number with 53
  significant bits, ties to even. The quantities the source computes with (minutes, the budget,
  nanoseconds) stay far from the ends of the exponent range, so infinities, subnormals and NaN are
  left out. A \<open>Duration\<close> is an \<open>int64\<close> of nanoseconds: \<open>wrap64\<close> is its wrap-around. What the
  conversion of a float out of range to \<open>int64\<close> gives is implementation-dependent, and an argument.
\<close>

type_synonym float64 = rat

section \<open>Rounding\<close>

text \<open>The exponent of a positive number: the \<open>e\<close> with \<open>2\<close> to the \<open>e\<close> at most \<open>x\<close> and \<open>2\<close> to the
  \<open>e + 1\<close> above it.\<close>

definition f64_exponent :: "rat \<Rightarrow> int" where
  "f64_exponent x = (case quotient_of x of (p, q) \<Rightarrow>
     let e = bitlen p - bitlen q in if x < 2 powi e then e - 1 else e)"

definition round_even :: "rat \<Rightarrow> int" where
  "round_even y = (let f = \<lfloor>y\<rfloor>; r = y - of_int f in
     if r < 1 / 2 then f else if 1 / 2 < r then f + 1 else if even f then f else f + 1)"

definition fl64 :: "rat \<Rightarrow> float64" where
  "fl64 x = (if x = 0 then 0 else let u = 2 powi (f64_exponent \<bar>x\<bar> - 52) in of_int (round_even (x / u)) * u)"

definition f64_of_int :: "int \<Rightarrow> float64" where
  "f64_of_int n = fl64 (of_int n)"

definition f64_sub :: "float64 \<Rightarrow> float64 \<Rightarrow> float64" where "f64_sub x y = fl64 (x - y)"
definition f64_add :: "float64 \<Rightarrow> float64 \<Rightarrow> float64" where "f64_add x y = fl64 (x + y)"
definition f64_mul :: "float64 \<Rightarrow> float64 \<Rightarrow> float64" where "f64_mul x y = fl64 (x * y)"
definition f64_div :: "float64 \<Rightarrow> float64 \<Rightarrow> float64" where "f64_div x y = fl64 (x / y)"

text \<open>Conversion to \<open>int64\<close> drops the fraction; \<open>oor\<close> is what the platform gives out of range.\<close>

definition f64_trunc :: "rat \<Rightarrow> int" where
  "f64_trunc x = (if 0 \<le> x then \<lfloor>x\<rfloor> else \<lceil>x\<rceil>)"

definition int64_of :: "(float64 \<Rightarrow> int) \<Rightarrow> float64 \<Rightarrow> int" where
  "int64_of oor x = (let n = f64_trunc x in if - (2 ^ 63) \<le> n \<and> n < 2 ^ 63 then n else oor x)"

section \<open>Durations\<close>

definition minute :: int where "minute = 60 * 10 ^ 9"

definition wrap64 :: "int \<Rightarrow> int" where
  "wrap64 n = signed_take_bit 63 n"

text \<open>\<open>Time.Sub\<close> saturates.\<close>

definition time_Sub :: "int \<Rightarrow> int \<Rightarrow> int" where
  "time_Sub t u = max (- (2 ^ 63)) (min (2 ^ 63 - 1) (t - u))"

text \<open>\<open>Duration.Minutes\<close> and \<open>Duration.Hours\<close> of the standard library.\<close>

definition dur_Minutes :: "int \<Rightarrow> float64" where
  "dur_Minutes d = f64_add (f64_of_int (d sdiv minute)) (f64_div (f64_of_int (d smod minute)) 60000000000)"

definition dur_Hours :: "int \<Rightarrow> float64" where
  "dur_Hours d = f64_add (f64_of_int (d sdiv (60 * minute))) (f64_div (f64_of_int (d smod (60 * minute))) 3600000000000)"

section \<open>Accuracy\<close>

lemma round_even_error: "\<bar>of_int (round_even y) - y\<bar> \<le> 1 / 2"
proof -
  have f: "of_int \<lfloor>y\<rfloor> \<le> y" "y < of_int \<lfloor>y\<rfloor> + 1" by linarith+
  consider "y - of_int \<lfloor>y\<rfloor> < 1 / 2" | "1 / 2 < y - of_int \<lfloor>y\<rfloor>" | "y - of_int \<lfloor>y\<rfloor> = 1 / 2" by linarith
  then show ?thesis using f by cases (auto simp: round_even_def Let_def abs_le_iff)
qed

lemma round_even_int [simp]: "round_even (of_int n) = n"
  by (simp add: round_even_def)

lemma bitlen_bounds_rat:
  assumes "0 < n"
  shows "2 powi (bitlen n - 1) \<le> (of_int n :: rat)" "(of_int n :: rat) < 2 powi bitlen n"
proof -
  have b: "2 ^ nat (bitlen n - 1) \<le> n" "n < 2 ^ nat (bitlen n)" "0 < bitlen n"
    using bitlen_bounds [OF assms] bitlen_eq_zero_iff [of n] bitlen_nonneg [of n] assms by auto
  have "(of_int (2 ^ nat (bitlen n - 1)) :: rat) \<le> of_int n" "(of_int n :: rat) < of_int (2 ^ nat (bitlen n))"
    using b(1,2) of_int_le_iff of_int_less_iff by blast+
  moreover have "(2 :: rat) powi (bitlen n - 1) = 2 ^ nat (bitlen n - 1)" "(2 :: rat) powi bitlen n = 2 ^ nat (bitlen n)"
    using b(3) by (auto simp: power_int_def)
  ultimately show "2 powi (bitlen n - 1) \<le> (of_int n :: rat)" "(of_int n :: rat) < 2 powi bitlen n" by simp_all
qed

lemma f64_exponent_bounds:
  assumes "0 < x"
  shows "2 powi f64_exponent x \<le> x" "x < 2 powi (f64_exponent x + 1)"
proof -
  obtain p q where pq: "quotient_of x = (p, q)" by fastforce
  have q: "0 < q" using quotient_of_denom_pos [OF pq] .
  have x: "x = of_int p / of_int q" using quotient_of_div [OF pq] .
  then have p: "0 < p" using assms q by (simp add: zero_less_divide_iff)
  let ?a = "bitlen p" and ?b = "bitlen q"
  note bp = bitlen_bounds_rat [OF p] and bq = bitlen_bounds_rat [OF q]
  have "2 powi (?a - 1 - ?b) = (2 :: rat) powi (?a - 1) / 2 powi ?b" by (simp add: power_int_diff)
  also have "\<dots> \<le> x" unfolding x using bp(1) bq(2) p q by (intro frac_le) auto
  finally have lo: "2 powi (?a - 1 - ?b) \<le> x" .
  have "x < (2 :: rat) powi ?a / of_int q" unfolding x using bp(2) q by (intro divide_strict_right_mono) auto
  also have "\<dots> \<le> 2 powi ?a / 2 powi (?b - 1)" using bq(1) by (intro divide_left_mono) (auto simp: q)
  also have "\<dots> = 2 powi (?a - ?b + 1)" by (simp add: power_int_diff power_int_add)
  finally have hi: "x < 2 powi (?a - ?b + 1)" .
  have e: "f64_exponent x = (if x < 2 powi (?a - ?b) then ?a - ?b - 1 else ?a - ?b)"
    by (simp add: f64_exponent_def pq Let_def)
  show "2 powi f64_exponent x \<le> x" using lo e by (auto simp: not_less algebra_simps)
  show "x < 2 powi (f64_exponent x + 1)" using hi e by (auto simp: algebra_simps)
qed

lemma fl64_error: "\<bar>fl64 x - x\<bar> \<le> \<bar>x\<bar> / 2 ^ 53"
proof (cases "x = 0")
  case False
  let ?e = "f64_exponent \<bar>x\<bar>"
  let ?u = "(2 :: rat) powi (?e - 52)"
  have u: "0 < ?u" by simp
  have "fl64 x - x = (of_int (round_even (x / ?u)) - x / ?u) * ?u"
    using False u by (simp add: fl64_def Let_def left_diff_distrib)
  then have "\<bar>fl64 x - x\<bar> \<le> 1 / 2 * ?u"
    using round_even_error [of "x / ?u"] u by (simp add: abs_mult mult_right_mono)
  also have "\<dots> = 2 powi ?e / 2 ^ 53" by (simp add: power_int_diff)
  also have "\<dots> \<le> \<bar>x\<bar> / 2 ^ 53" using f64_exponent_bounds(1) [of "\<bar>x\<bar>"] False by (simp add: divide_right_mono)
  finally show ?thesis .
qed (simp add: fl64_def)

lemma fl64_pos: "0 < x \<Longrightarrow> 0 < fl64 x" and fl64_neg: "x \<le> 0 \<Longrightarrow> fl64 x \<le> 0"
  using fl64_error [of x] by (auto simp: abs_if field_simps split: if_splits)

lemma fl64_0 [simp]: "fl64 0 = 0"
  by (simp add: fl64_def)

text \<open>Integers of up to 53 bits are exact.\<close>

lemma fl64_int:
  assumes "\<bar>n\<bar> < 2 ^ 53"
  shows "fl64 (of_int n) = of_int n"
proof (cases "n = 0")
  case False
  let ?e = "f64_exponent \<bar>of_int n\<bar>"
  have "(2 :: rat) powi ?e \<le> of_int \<bar>n\<bar>" using f64_exponent_bounds(1) [of "\<bar>of_int n :: rat\<bar>"] False by simp
  also have "\<dots> < of_int (2 ^ 53)" using assms by (simp only: of_int_less_iff)
  also have "\<dots> = (2 :: rat) powi 53" by (simp add: power_int_def)
  finally have "?e < 53" using power_int_le_imp_less_exp [of "2 :: rat" ?e 53] by simp
  then have "?e - 52 \<le> 0" by simp
  then obtain k where k: "?e - 52 = - int k" by (metis nonpos_int_cases)
  have "of_int n / (2 :: rat) powi (- int k) = of_int (n * 2 ^ k)"
    by (simp add: power_int_minus divide_inverse)
  then have "fl64 (of_int n) = of_int (n * 2 ^ k) * 2 powi (- int k)" using False by (simp add: fl64_def Let_def k del: of_int_mult)
  then show ?thesis by (simp add: power_int_minus)
qed simp

lemma f64_trunc_error: "\<bar>of_int (f64_trunc x) - x\<bar> < 1"
  by (auto simp: f64_trunc_def abs_if) linarith+

text \<open>A number of minutes turned into a duration, \<open>time.Duration(x * float64(time.Minute))\<close>: up to a
  hundred million minutes the error is below two microseconds.\<close>

definition dur_of_minutes :: "(float64 \<Rightarrow> int) \<Rightarrow> float64 \<Rightarrow> int" where
  "dur_of_minutes oor x = int64_of oor (f64_mul x (of_int minute))"

lemma dur_of_minutes_error:
  assumes "0 < x" "x \<le> 100000000"
  shows "\<bar>of_int (dur_of_minutes oor (fl64 x)) - x * 60000000000\<bar> \<le> (2000 :: rat)"
proof -
  let ?r = "fl64 x" and ?p = "f64_mul (fl64 x) 60000000000"
  have r: "\<bar>?r - x\<bar> \<le> x / 9007199254740992" using fl64_error [of x] assms(1) by simp
  have r0: "0 < ?r" by (rule fl64_pos) (rule assms(1))
  have p: "\<bar>?p - ?r * 60000000000\<bar> \<le> ?r * 60000000000 / 9007199254740992"
    using fl64_error [of "?r * 60000000000"] r0 by (simp add: f64_mul_def)
  have r1: "?r \<le> 2 * x" using r assms(1) by linarith
  have near: "\<bar>?p - x * 60000000000\<bar> \<le> 1999"
    using p r r1 assms by linarith
  have t: "\<bar>of_int (f64_trunc ?p) - ?p\<bar> < 1" by (rule f64_trunc_error)
  have "\<bar>of_int (f64_trunc ?p)\<bar> < (of_int (2 ^ 63) :: rat)" using near t assms by simp
  then have "\<bar>f64_trunc ?p\<bar> < 2 ^ 63" by (simp only: of_int_abs [symmetric] of_int_less_iff)
  then have "int64_of oor ?p = f64_trunc ?p" by (simp add: int64_of_def Let_def abs_less_iff)
  moreover have "dur_of_minutes oor (fl64 x) = int64_of oor ?p" by (simp add: dur_of_minutes_def minute_def)
  ultimately show ?thesis using near t by simp
qed

end
