(* ===== verification/Prelude.thy ===== *)
theory Prelude
  imports Main "HOL-Library.Word" "HOL-Library.Sublist"
begin

text \<open>
  Shared material of the AdmiralBBS development: the byte and string types every
  component uses, the Go error values, Go's \<open>(T, error)\<close> results as programs over an
  explicit state, the two preservation calculi the components' invariants are proved
  with, and the generic list and word lemmas.

  A Go \<open>string\<close> and a Go \<open>[]byte\<close> are both lists of bytes here: Go strings are byte
  sequences, and the code converts freely between the two.
\<close>

named_theorems frame_intros \<open>introduction rules of the step calculus\<close>
named_theorems byte_simps \<open>arithmetic facts on bytes\<close>

type_synonym byte = "8 word"
type_synonym bytes = "byte list"

definition str :: "string \<Rightarrow> bytes" where
  "str s = map of_char s"

lemma length_str [simp]: "length (str s) = length s"
  by (simp add: str_def)

lemma str_Nil [simp]: "str [] = []"
  by (simp add: str_def)

lemma str_Cons: "str (c # s) = of_char c # str s"
  by (simp add: str_def)

lemma str_append: "str (s @ t) = str s @ str t"
  by (simp add: str_def)

section \<open>Errors\<close>

text \<open>
  The error values of the Go packages, and the errors the standard library, the SQL
  engine and the AEAD return to them. \<open>ErrDB\<close> is a failed statement (I/O, lock,
  scan), \<open>ErrUnique\<close> and \<open>ErrForeignKey\<close> are constraint violations.
\<close>

datatype gerr =
    ErrNotFound | ErrNoRows | ErrKeyTaken | ErrNotOwner
  | ErrTooLarge | ErrQuotaExceeded | ErrDuplicateName
  | ErrTokenInvalid | ErrBadHash | ErrNoSecret | ErrSaltLen | ErrVault
  | ErrUnique | ErrForeignKey | ErrDB | ErrRand | ErrIO | ErrNotExist
  | ErrBase64 | ErrShort | ErrOpen | ErrInvalidKey | ErrBanPattern
  | ErrEOF | ErrCanceled | ErrNoStart | ErrNoAck | ErrTooBig
  | ErrChainBroken | ErrMalformed | ErrJson | ErrMigration | ErrNoAsset
  | ErrDisconnected | ErrEmptyCommand | ErrStatus | ErrNoTag | ErrStuck

section \<open>Programs over a state\<close>

text \<open>
  A Go function with result \<open>(T, error)\<close> that reads and writes state \<open>'s\<close>.
  \<open>chk m k\<close> is \<open>x, err := m; if err != nil { return err }; k x\<close>;
  \<open>att m k\<close> hands the result of \<open>m\<close>, error included, to \<open>k\<close>.
\<close>

type_synonym ('s, 'a) prog = "'s \<Rightarrow> (gerr + 'a) \<times> 's"

definition ret :: "'a \<Rightarrow> ('s, 'a) prog" where
  "ret x = (\<lambda>s. (Inr x, s))"

definition fail :: "gerr \<Rightarrow> ('s, 'a) prog" where
  "fail e = (\<lambda>s. (Inl e, s))"

definition chk :: "('s, 'a) prog \<Rightarrow> ('a \<Rightarrow> ('s, 'b) prog) \<Rightarrow> ('s, 'b) prog" where
  "chk m k = (\<lambda>s. case m s of (Inl e, s') \<Rightarrow> (Inl e, s') | (Inr x, s') \<Rightarrow> k x s')"

definition att :: "('s, 'a) prog \<Rightarrow> (gerr + 'a \<Rightarrow> ('s, 'b) prog) \<Rightarrow> ('s, 'b) prog" where
  "att m k = (\<lambda>s. case m s of (r, s') \<Rightarrow> k r s')"

definition lift_err :: "gerr + 'a \<Rightarrow> ('s, 'a) prog" where
  "lift_err r = (\<lambda>s. (r, s))"

lemma ret_run [simp]: "ret x s = (Inr x, s)"
  by (simp add: ret_def)

lemma fail_run [simp]: "fail e s = (Inl e, s)"
  by (simp add: fail_def)

lemma lift_err_run [simp]: "lift_err r s = (r, s)"
  by (simp add: lift_err_def)

lemma chk_run: "chk m k s = (case m s of (Inl e, s') \<Rightarrow> (Inl e, s') | (Inr x, s') \<Rightarrow> k x s')"
  by (simp add: chk_def)

lemma att_run: "att m k s = (case m s of (r, s') \<Rightarrow> k r s')"
  by (simp add: att_def)

lemma chk_ok [simp]: "m s = (Inr x, s') \<Longrightarrow> chk m k s = k x s'"
  by (simp add: chk_def)

lemma chk_err [simp]: "m s = (Inl e, s') \<Longrightarrow> chk m k s = (Inl e, s')"
  by (simp add: chk_def)

lemma chk_InrE:
  assumes "chk m k s = (Inr y, s'')"
  obtains x s' where "m s = (Inr x, s')" "k x s' = (Inr y, s'')"
  using assms by (auto simp: chk_def split: prod.splits sum.splits)

subsection \<open>What every run of a program keeps\<close>

text \<open>
  \<open>steps R m\<close>: each run of \<open>m\<close> relates the state before to the state after by \<open>R\<close>.
  For a reflexive and transitive \<open>R\<close> it is compositional; the locale collects the
  rules. Invariants are the instance \<open>\<lambda>s s'. I s \<longrightarrow> I s'\<close>.
\<close>

definition steps :: "('s \<Rightarrow> 's \<Rightarrow> bool) \<Rightarrow> ('s, 'a) prog \<Rightarrow> bool" where
  "steps R m \<longleftrightarrow> (\<forall>s. R s (snd (m s)))"

definition keeps :: "('s \<Rightarrow> bool) \<Rightarrow> ('s, 'a) prog \<Rightarrow> bool" where
  "keeps I = steps (\<lambda>s s'. I s \<longrightarrow> I s')"

lemma keepsI: "(\<And>s r s'. I s \<Longrightarrow> m s = (r, s') \<Longrightarrow> I s') \<Longrightarrow> keeps I m"
  by (simp add: keeps_def steps_def) (metis surjective_pairing)

lemma keepsD: "keeps I m \<Longrightarrow> I s \<Longrightarrow> m s = (r, s') \<Longrightarrow> I s'"
  unfolding keeps_def steps_def by (metis snd_conv)

locale frame_rel =
  fixes R :: "'s \<Rightarrow> 's \<Rightarrow> bool"
  assumes frame_refl: "R s s"
    and frame_trans: "R s t \<Longrightarrow> R t u \<Longrightarrow> R s u"
begin

lemma steps_ret: "steps R (ret x)"
  by (simp add: steps_def frame_refl)

lemma steps_fail: "steps R (fail e)"
  by (simp add: steps_def frame_refl)

lemma steps_lift_err: "steps R (lift_err r)"
  by (simp add: steps_def frame_refl)

lemma steps_att: "steps R m \<Longrightarrow> (\<And>r. steps R (k r)) \<Longrightarrow> steps R (att m k)"
  unfolding steps_def att_def by (metis (no_types, lifting) frame_trans prod.case_eq_if)

lemma steps_chk:
  assumes "steps R m" "\<And>x. steps R (k x)"
  shows "steps R (chk m k)"
proof -
  have "R s (snd (chk m k s))" for s
  proof (cases "m s")
    case (Pair r s')
    then have "R s s'" using assms(1) unfolding steps_def by (metis snd_conv)
    moreover have "R s' (snd (k x s'))" for x
      using assms(2) by (simp add: steps_def)
    ultimately show ?thesis
      using Pair by (cases r) (auto simp: chk_def intro: frame_trans)
  qed
  then show ?thesis by (simp add: steps_def)
qed

lemma steps_if: "steps R m \<Longrightarrow> steps R n \<Longrightarrow> steps R (if b then m else n)"
  by simp

lemma steps_option:
  "steps R n \<Longrightarrow> (\<And>x. steps R (f x)) \<Longrightarrow> steps R (case r of None \<Rightarrow> n | Some x \<Rightarrow> f x)"
  by (cases r) auto

lemma steps_sum:
  "(\<And>e. steps R (f e)) \<Longrightarrow> (\<And>x. steps R (g x)) \<Longrightarrow> steps R (case r of Inl e \<Rightarrow> f e | Inr x \<Rightarrow> g x)"
  by (cases r) auto

lemma steps_prod: "(\<And>x y. steps R (f x y)) \<Longrightarrow> steps R (case p of (x, y) \<Rightarrow> f x y)"
  by (cases p) auto

lemma steps_Let: "(\<And>x. steps R (f x)) \<Longrightarrow> steps R (let x = v in f x)"
  by simp

lemma steps_list:
  "steps R n \<Longrightarrow> (\<And>x xs. steps R (f x xs)) \<Longrightarrow> steps R (case l of [] \<Rightarrow> n | x # xs \<Rightarrow> f x xs)"
  by (cases l) auto

lemmas steps_rules = steps_ret steps_fail steps_lift_err steps_att steps_chk steps_if
  steps_option steps_sum steps_prod steps_Let steps_list

end

end
