(* ===== verification/GoStd.thy ===== *)
theory GoStd
  imports Prelude
begin

text \<open>
  The parts of Go's standard library the sources call on strings, numbers and base64,
  written out as executable functions on byte lists: \<open>strings.TrimSpace\<close>,
  \<open>strings.EqualFold\<close> against a letter, \<open>strings.ToLower\<close> (the ASCII case; a string
  with bytes above 127 goes through a parameter that stands for the Unicode tables),
  \<open>strings.Contains\<close>, \<open>strings.Split\<close>, \<open>strings.Join\<close>, \<open>strconv.Itoa\<close>,
  \<open>strconv.Atoi\<close> with its 64-bit range check, and the raw standard and URL base64
  codecs of \<open>encoding/base64\<close>.
\<close>

section \<open>Strings\<close>

text \<open>
  The UTF-8 encodings of the code points \<open>unicode.IsSpace\<close> accepts, which
  \<open>strings.TrimSpace\<close> removes at both ends.
\<close>

definition space_runes :: "bytes list" where
  "space_runes =
     [[9], [10], [11], [12], [13], [32], [0xC2, 0x85], [0xC2, 0xA0], [0xE1, 0x9A, 0x80],
      [0xE2, 0x80, 0x80], [0xE2, 0x80, 0x81], [0xE2, 0x80, 0x82], [0xE2, 0x80, 0x83],
      [0xE2, 0x80, 0x84], [0xE2, 0x80, 0x85], [0xE2, 0x80, 0x86], [0xE2, 0x80, 0x87],
      [0xE2, 0x80, 0x88], [0xE2, 0x80, 0x89], [0xE2, 0x80, 0x8A], [0xE2, 0x80, 0xA8],
      [0xE2, 0x80, 0xA9], [0xE2, 0x80, 0xAF], [0xE2, 0x81, 0x9F], [0xE3, 0x80, 0x80]]"

fun strip_prefix :: "bytes \<Rightarrow> bytes \<Rightarrow> bytes option" where
  "strip_prefix [] s = Some s"
| "strip_prefix (p # ps) [] = None"
| "strip_prefix (p # ps) (c # s) = (if p = c then strip_prefix ps s else None)"

fun first_strip :: "bytes list \<Rightarrow> bytes \<Rightarrow> bytes option" where
  "first_strip [] s = None"
| "first_strip (r # rs) s =
     (case strip_prefix r s of Some t \<Rightarrow> Some t | None \<Rightarrow> first_strip rs s)"

lemma strip_prefix_length: "strip_prefix p s = Some t \<Longrightarrow> length s = length p + length t"
  by (induction p s rule: strip_prefix.induct) (auto split: if_splits)

lemma strip_prefix_eq: "strip_prefix p s = Some t \<longleftrightarrow> s = p @ t"
  by (induction p s rule: strip_prefix.induct) auto

lemma first_strip_length:
  "first_strip rs s = Some t \<Longrightarrow> \<forall>r\<in>set rs. r \<noteq> [] \<Longrightarrow> length t < length s"
  by (induction rs s rule: first_strip.induct)
     (auto dest: strip_prefix_length split: option.splits)

lemma space_runes_nonempty: "\<forall>r\<in>set space_runes. r \<noteq> []"
  by (simp add: space_runes_def)

lemma rev_space_runes_nonempty: "\<forall>r\<in>set (map rev space_runes). r \<noteq> []"
  by (simp add: space_runes_def)

function trim_front :: "bytes list \<Rightarrow> bytes \<Rightarrow> bytes" where
  "trim_front rs s = (if \<forall>r\<in>set rs. r \<noteq> [] then
     (case first_strip rs s of None \<Rightarrow> s | Some t \<Rightarrow> trim_front rs t) else s)"
  by pat_completeness auto
termination
  by (relation "measure (\<lambda>(rs, s). length s)") (auto dest: first_strip_length)

declare trim_front.simps [simp del]

definition TrimSpace :: "bytes \<Rightarrow> bytes" where
  "TrimSpace s = rev (trim_front (map rev space_runes) (rev (trim_front space_runes s)))"

definition lower_byte :: "byte \<Rightarrow> byte" where
  "lower_byte b = (if 65 \<le> b \<and> b \<le> 90 then b + 32 else b)"

definition upper_byte :: "byte \<Rightarrow> byte" where
  "upper_byte b = (if 97 \<le> b \<and> b \<le> 122 then b - 32 else b)"

text \<open>\<open>ulow\<close> is the Unicode path of \<open>strings.ToLower\<close>, for a string with a byte above 127.\<close>

definition ToLower :: "(bytes \<Rightarrow> bytes) \<Rightarrow> bytes \<Rightarrow> bytes" where
  "ToLower ulow s = (if \<forall>b\<in>set s. b < 128 then map lower_byte s else ulow s)"

text \<open>
  \<open>strings.EqualFold(s, c)\<close> for a lower-case ASCII letter \<open>c\<close>: either case of the letter,
  and the two non-ASCII code points that simple folding maps to a letter, the Kelvin
  sign (k) and the long s (s).
\<close>

definition EqualFold1 :: "bytes \<Rightarrow> byte \<Rightarrow> bool" where
  "EqualFold1 s c \<longleftrightarrow> s = [c] \<or> s = [upper_byte c]
     \<or> (c = 107 \<and> s = [0xE2, 0x84, 0xAA]) \<or> (c = 115 \<and> s = [0xC5, 0xBF])"

text \<open>SQLite's \<open>COLLATE NOCASE\<close>: ASCII letters compare without case, all other bytes as they are.\<close>

definition nocase :: "bytes \<Rightarrow> bytes" where
  "nocase s = map lower_byte s"

fun contains :: "bytes \<Rightarrow> bytes \<Rightarrow> bool" where
  "contains [] sub = (sub = [])"
| "contains (c # s) sub = (strip_prefix sub (c # s) \<noteq> None \<or> contains s sub)"

definition containsAny :: "bytes \<Rightarrow> bytes list \<Rightarrow> bool" where
  "containsAny s subs \<longleftrightarrow> (\<exists>x\<in>set subs. contains s x)"

lemma contains_iff: "contains s sub \<longleftrightarrow> (\<exists>p q. s = p @ sub @ q)"
proof (induction s)
  case Nil
  then show ?case by auto
next
  case (Cons c s)
  have "(\<exists>p q. c # s = p @ sub @ q) \<longleftrightarrow> (\<exists>q. c # s = sub @ q) \<or> (\<exists>p q. s = p @ sub @ q)"
    by (metis append_Cons append_Nil list.sel(3) neq_Nil_conv tl_append2)
  with Cons show ?case by (auto simp: strip_prefix_eq)
qed

fun index_byte :: "bytes \<Rightarrow> byte \<Rightarrow> nat option" where
  "index_byte [] b = None"
| "index_byte (c # s) b = (if c = b then Some 0 else map_option Suc (index_byte s b))"

lemma index_byte_Some:
  "index_byte s b = Some i \<Longrightarrow> i < length s \<and> s ! i = b \<and> b \<notin> set (take i s)"
  by (induction s b arbitrary: i rule: index_byte.induct) (auto split: if_splits)

lemma index_byte_None: "index_byte s b = None \<longleftrightarrow> b \<notin> set s"
  by (induction s b rule: index_byte.induct) auto

lemma index_byte_append: "b \<notin> set s \<Longrightarrow> index_byte (s @ b # t) b = Some (length s)"
  by (induction s) auto

fun split_on :: "byte \<Rightarrow> bytes \<Rightarrow> bytes list" where
  "split_on b [] = [[]]"
| "split_on b (c # s) = (if c = b then [] # split_on b s
     else (case split_on b s of [] \<Rightarrow> [[c]] | l # ls \<Rightarrow> (c # l) # ls))"

fun join :: "bytes \<Rightarrow> bytes list \<Rightarrow> bytes" where
  "join sep [] = []"
| "join sep [x] = x"
| "join sep (x # y # ys) = x @ sep @ join sep (y # ys)"

lemma split_on_nonempty [simp]: "split_on b s \<noteq> []"
  by (induction b s rule: split_on.induct) (auto split: list.splits)

lemma split_on_no_sep: "b \<notin> set s \<Longrightarrow> split_on b s = [s]"
  by (induction s) auto

lemma split_on_append: "b \<notin> set s \<Longrightarrow> split_on b (s @ b # t) = s # split_on b t"
  by (induction s) auto

lemma split_on_pieces: "l \<in> set (split_on b s) \<Longrightarrow> b \<notin> set l"
  by (induction b s arbitrary: l rule: split_on.induct) (auto split: list.splits if_splits)

lemma join_split: "join [b] (split_on b s) = s"
proof (induction b s rule: split_on.induct)
  case (2 b c s)
  obtain l ls where ls: "split_on b s = l # ls"
    using split_on_nonempty by (cases "split_on b s") auto
  with 2 show ?case by (cases ls) auto
qed simp

lemma split_join:
  "xs \<noteq> [] \<Longrightarrow> \<forall>x\<in>set xs. b \<notin> set x \<Longrightarrow> split_on b (join [b] xs) = xs"
  by (induction "[b]" xs rule: join.induct) (auto simp: split_on_no_sep split_on_append)

section \<open>Decimal numbers\<close>

fun nat_digits :: "nat \<Rightarrow> bytes" where
  "nat_digits n = (if n < 10 then [48 + of_nat n] else nat_digits (n div 10) @ [48 + of_nat (n mod 10)])"

declare nat_digits.simps [simp del]

definition itoa :: "int \<Rightarrow> bytes" where
  "itoa i = (if i < 0 then 45 # nat_digits (nat (- i)) else nat_digits (nat i))"

definition is_digit :: "byte \<Rightarrow> bool" where
  "is_digit b \<longleftrightarrow> 48 \<le> b \<and> b \<le> 57"

definition digits_val :: "bytes \<Rightarrow> nat" where
  "digits_val s = foldl (\<lambda>n b. n * 10 + unat (b - 48)) 0 s"

definition atoi :: "bytes \<Rightarrow> int option" where
  "atoi s =
     (let (neg, ds) = (case s of [] \<Rightarrow> (False, []) | c # t \<Rightarrow>
            if c = 45 then (True, t) else if c = 43 then (False, t) else (False, s));
          v = (if neg then - int (digits_val ds) else int (digits_val ds))
      in if ds = [] \<or> \<not> (\<forall>b\<in>set ds. is_digit b) then None
         else if - (2 ^ 63) \<le> v \<and> v < 2 ^ 63 then Some v else None)"

lemma unat_of_nat_digit: "n < 10 \<Longrightarrow> unat (of_nat n :: byte) = n"
  by (simp add: unat_of_nat)

lemma digit_byte: "n < 10 \<Longrightarrow> is_digit (48 + of_nat n)"
proof -
  assume n: "n < 10"
  have "unat (48 + of_nat n :: byte) = 48 + n"
    using n by (simp add: unat_word_ariths unat_of_nat)
  with n show ?thesis by (simp add: is_digit_def word_le_nat_alt)
qed

lemma nat_digits_are_digits: "\<forall>b\<in>set (nat_digits n). is_digit b"
proof (induction n rule: nat_digits.induct)
  case (1 n)
  then show ?case by (subst nat_digits.simps) (auto simp: digit_byte)
qed

lemma nat_digits_not_Nil [simp]: "nat_digits n \<noteq> []"
  by (subst nat_digits.simps) simp

lemma digits_val_snoc: "digits_val (s @ [b]) = digits_val s * 10 + unat (b - 48)"
  by (simp add: digits_val_def)

lemma digits_val_nat_digits: "digits_val (nat_digits n) = n"
proof (induction n rule: nat_digits.induct)
  case (1 n)
  show ?case
  proof (cases "n < 10")
    case True
    then show ?thesis by (subst nat_digits.simps) (simp add: digits_val_def unat_of_nat)
  next
    case False
    then have "nat_digits n = nat_digits (n div 10) @ [48 + of_nat (n mod 10)]"
      by (subst nat_digits.simps) simp
    then show ?thesis using 1 False by (simp add: digits_val_snoc unat_of_nat)
  qed
qed

lemma nat_digits_hd: "hd (nat_digits n) \<noteq> 45 \<and> hd (nat_digits n) \<noteq> 43"
proof -
  have "is_digit (hd (nat_digits n))"
    using nat_digits_are_digits by (meson hd_in_set nat_digits_not_Nil)
  then show ?thesis by (auto simp: is_digit_def)
qed

theorem atoi_itoa: "- (2 ^ 63) \<le> i \<Longrightarrow> i < 2 ^ 63 \<Longrightarrow> atoi (itoa i) = Some i"
proof (cases "i < 0")
  case True
  assume "- (2 ^ 63) \<le> i"
  with True show ?thesis
    using nat_digits_are_digits by (auto simp: atoi_def itoa_def digits_val_nat_digits)
next
  case False
  assume "i < 2 ^ 63"
  moreover obtain c t where ct: "nat_digits (nat i) = c # t"
    using nat_digits_not_Nil by (cases "nat_digits (nat i)") auto
  moreover have "c \<noteq> 45" "c \<noteq> 43" using nat_digits_hd [of "nat i"] ct by auto
  ultimately show ?thesis
    using False nat_digits_are_digits [of "nat i"] digits_val_nat_digits [of "nat i"]
    by (auto simp: atoi_def itoa_def Let_def)
qed

section \<open>Base64\<close>

text \<open>
  An alphabet is given by its characters for 62 and 63: \<open>+/\<close> for the standard encoding,
  \<open>-_\<close> for the URL encoding. Both raw encodings drop the padding.
\<close>

definition b64_sym :: "byte \<times> byte \<Rightarrow> nat \<Rightarrow> byte" where
  "b64_sym al n = (if n < 26 then 65 + of_nat n else if n < 52 then 71 + of_nat n
     else if n < 62 then of_nat n - 4 else if n = 62 then fst al else snd al)"

definition b64_val :: "byte \<times> byte \<Rightarrow> byte \<Rightarrow> nat option" where
  "b64_val al c = (if 65 \<le> c \<and> c \<le> 90 then Some (unat c - 65)
     else if 97 \<le> c \<and> c \<le> 122 then Some (unat c - 71)
     else if 48 \<le> c \<and> c \<le> 57 then Some (unat c + 4)
     else if c = fst al then Some 62 else if c = snd al then Some 63 else None)"

definition std_alphabet :: "byte \<times> byte" where "std_alphabet = (43, 47)"
definition url_alphabet :: "byte \<times> byte" where "url_alphabet = (45, 95)"

fun sextets :: "bytes \<Rightarrow> nat list" where
  "sextets [] = []"
| "sextets [a] = [unat a div 4, unat a mod 4 * 16]"
| "sextets [a, b] = [unat a div 4, unat a mod 4 * 16 + unat b div 16, unat b mod 16 * 4]"
| "sextets (a # b # c # rest) =
     [unat a div 4, unat a mod 4 * 16 + unat b div 16, unat b mod 16 * 4 + unat c div 64, unat c mod 64]
     @ sextets rest"

fun unsextets :: "nat list \<Rightarrow> bytes option" where
  "unsextets [] = Some []"
| "unsextets [p] = None"
| "unsextets [p, q] = Some [of_nat (p * 4 + q div 16)]"
| "unsextets [p, q, r] = Some [of_nat (p * 4 + q div 16), of_nat (q mod 16 * 16 + r div 4)]"
| "unsextets (p # q # r # s # rest) =
     map_option (\<lambda>t. [of_nat (p * 4 + q div 16), of_nat (q mod 16 * 16 + r div 4),
       of_nat (r mod 4 * 64 + s)] @ t) (unsextets rest)"

definition b64_encode :: "byte \<times> byte \<Rightarrow> bytes \<Rightarrow> bytes" where
  "b64_encode al s = map (b64_sym al) (sextets s)"

fun vals :: "byte \<times> byte \<Rightarrow> bytes \<Rightarrow> nat list option" where
  "vals al [] = Some []"
| "vals al (c # s) = (case b64_val al c of None \<Rightarrow> None
     | Some v \<Rightarrow> map_option ((#) v) (vals al s))"

text \<open>The decoder skips CR and LF and rejects a final group of one symbol.\<close>

definition b64_decode :: "byte \<times> byte \<Rightarrow> bytes \<Rightarrow> bytes option" where
  "b64_decode al s =
     (case vals al (filter (\<lambda>c. c \<noteq> 13 \<and> c \<noteq> 10) s) of None \<Rightarrow> None | Some vs \<Rightarrow> unsextets vs)"

lemma byte_bound: "unat (a :: byte) < 256"
  by (rule order_less_le_trans [OF unsigned_less]) simp

lemma sextets_bound: "v \<in> set (sextets s) \<Longrightarrow> v < 64"
proof (induction s rule: sextets.induct)
  case (2 a)
  then show ?case using byte_bound [of a] by auto
next
  case (3 a b)
  then show ?case using byte_bound [of a] byte_bound [of b] by auto
next
  case (4 a b c rest)
  then show ?case using byte_bound [of a] byte_bound [of b] byte_bound [of c] by auto
qed simp

lemma of_nat_byte [simp]: "of_nat (unat a) = (a :: byte)"
  by simp

lemma unsextets_sextets: "unsextets (sextets s) = Some s"
proof (induction s rule: sextets.induct)
  case (2 a)
  then show ?case by simp
next
  case (3 a b)
  have "unat a div 4 * 4 + (unat a mod 4 * 16 + unat b div 16) div 16 = unat a"
    "(unat a mod 4 * 16 + unat b div 16) mod 16 * 16 + unat b mod 16 * 4 div 4 = unat b"
    using byte_bound [of b] by auto
  then show ?case by simp
next
  case (4 a b c rest)
  have "unat a div 4 * 4 + (unat a mod 4 * 16 + unat b div 16) div 16 = unat a"
    "(unat a mod 4 * 16 + unat b div 16) mod 16 * 16 + (unat b mod 16 * 4 + unat c div 64) div 4 = unat b"
    "(unat b mod 16 * 4 + unat c div 64) mod 4 * 64 + unat c mod 64 = unat c"
    using byte_bound [of b] byte_bound [of c] by auto
  then show ?case using 4 by simp
qed simp

text \<open>
  The laws of an alphabet: two distinct symbols that are neither letters nor digits,
  CR nor LF. Both encodings of the sources are instances.
\<close>

definition alnum :: "byte \<Rightarrow> bool" where
  "alnum c \<longleftrightarrow> (65 \<le> c \<and> c \<le> 90) \<or> (97 \<le> c \<and> c \<le> 122) \<or> (48 \<le> c \<and> c \<le> 57)"

locale b64_alphabet =
  fixes al :: "byte \<times> byte"
  assumes distinct_syms: "fst al \<noteq> snd al"
    and not_alnum: "\<not> alnum (fst al)" "\<not> alnum (snd al)"
    and not_newline: "fst al \<noteq> 10" "fst al \<noteq> 13" "snd al \<noteq> 10" "snd al \<noteq> 13"
begin

lemma sym_cases:
  assumes "n < 64"
  shows "alnum (b64_sym al n) \<or> b64_sym al n = fst al \<or> b64_sym al n = snd al"
    and "b64_val al (b64_sym al n) = Some n"
proof -
  consider (A) "n < 26" | (B) "26 \<le> n" "n < 52" | (C) "52 \<le> n" "n < 62" | (D) "n = 62" | (E) "n = 63"
    using assms by linarith
  then have "(alnum (b64_sym al n) \<or> b64_sym al n = fst al \<or> b64_sym al n = snd al)
      \<and> b64_val al (b64_sym al n) = Some n"
  proof cases
    case A
    then have "unat (65 + of_nat n :: byte) = 65 + n"
      by (simp add: unat_word_ariths unat_of_nat)
    with A show ?thesis
      by (simp add: b64_sym_def b64_val_def alnum_def word_le_nat_alt)
  next
    case B
    then have "unat (71 + of_nat n :: byte) = 71 + n"
      by (simp add: unat_word_ariths unat_of_nat)
    with B show ?thesis
      by (simp add: b64_sym_def b64_val_def alnum_def word_le_nat_alt)
  next
    case C
    then have "unat (of_nat n :: byte) = n"
      by (simp add: unat_of_nat)
    moreover from this have "unat (of_nat n - 4 :: byte) = n - 4"
      using C by (subst unat_sub) (simp_all add: word_le_nat_alt)
    ultimately show ?thesis
      using C by (simp add: b64_sym_def b64_val_def alnum_def word_le_nat_alt) linarith
  next
    case D
    then show ?thesis using not_alnum by (auto simp: b64_sym_def b64_val_def alnum_def)
  next
    case E
    then show ?thesis
      using not_alnum distinct_syms by (auto simp: b64_sym_def b64_val_def alnum_def)
  qed
  then show "alnum (b64_sym al n) \<or> b64_sym al n = fst al \<or> b64_sym al n = snd al"
    and "b64_val al (b64_sym al n) = Some n" by auto
qed

lemma encode_syms: "c \<in> set (b64_encode al s) \<Longrightarrow> alnum c \<or> c = fst al \<or> c = snd al"
  using sym_cases(1) sextets_bound by (auto simp: b64_encode_def)

lemma encode_no_newline: "c \<in> set (b64_encode al s) \<Longrightarrow> c \<noteq> 10 \<and> c \<noteq> 13"
  using encode_syms [of c s] not_newline by (auto simp: alnum_def)

lemma vals_map_sym: "\<forall>v\<in>set vs. v < 64 \<Longrightarrow> vals al (map (b64_sym al) vs) = Some vs"
  by (induction vs) (auto simp: sym_cases(2))

lemma decode_encode: "b64_decode al (b64_encode al s) = Some s"
proof -
  have "filter (\<lambda>c. c \<noteq> 13 \<and> c \<noteq> 10) (b64_encode al s) = b64_encode al s"
    using encode_no_newline by (auto simp: filter_id_conv)
  moreover have "vals al (b64_encode al s) = Some (sextets s)"
    using vals_map_sym sextets_bound by (simp add: b64_encode_def)
  ultimately show ?thesis by (simp add: b64_decode_def unsextets_sextets)
qed

lemma encode_inj: "b64_encode al s = b64_encode al t \<Longrightarrow> s = t"
  by (metis decode_encode option.inject)

end

interpretation std_enc: b64_alphabet std_alphabet
  by unfold_locales (simp_all add: std_alphabet_def alnum_def)

interpretation url_enc: b64_alphabet url_alphabet
  by unfold_locales (simp_all add: url_alphabet_def alnum_def)

lemma b64_encode_Nil [simp]: "b64_encode al s = [] \<longleftrightarrow> s = []"
proof -
  have "sextets s = [] \<longleftrightarrow> s = []"
    by (induction s rule: sextets.induct) auto
  then show ?thesis by (simp add: b64_encode_def)
qed

end
