(* ===== verification/Sanitize.thy ===== *)
theory Sanitize
  imports GoStd
begin

text \<open>
  The byte filters that stand between callers and terminals: \<open>SanitizeInput\<close> and
  \<open>allowedControl\<close> of \<open>session/input.go\<close>, \<open>SanitizeForDisplay\<close> of
  \<open>screen/writer.go\<close>, \<open>stripANSI\<close>, \<open>degradeCP437\<close> and \<open>foldHigh\<close> of
  \<open>screen/ansiart.go\<close>, and the capability-aware \<open>Writer\<close>. The index loops of the
  sources are recursions on the rest of the buffer.

  The locale \<open>escape_filter\<close> states what the three escape strippers have in common:
  they read escape sequences the same way and differ only in the bytes they keep. Its
  lemmas (safety of the output, idempotence, subsequence, equality with a filter after
  \<open>stripANSI\<close>) are proved once and interpreted for each of them.
\<close>

section \<open>The filters\<close>

definition allowedControl :: "byte \<Rightarrow> bool" where
  "allowedControl b \<longleftrightarrow> b = 9 \<or> b = 10 \<or> b = 13"

text \<open>The inner loop of every CSI branch: skip up to and including a final byte 0x40..0x7E.\<close>

fun skip_csi :: "bytes \<Rightarrow> bytes" where
  "skip_csi [] = []"
| "skip_csi (b # bs) = (if b < 0x40 \<or> b > 0x7E then skip_csi bs else bs)"

lemma skip_csi_length: "length (skip_csi bs) \<le> length bs"
  by (induction bs) auto

lemma skip_csi_suffix: "suffix (skip_csi bs) bs"
  by (induction bs) (auto simp: suffix_ConsI)

text \<open>What follows an ESC: a CSI sequence, or one function byte.\<close>

definition skip_esc :: "bytes \<Rightarrow> bytes" where
  "skip_esc bs = (case bs of [] \<Rightarrow> [] | c # cs \<Rightarrow> if c = 0x5B then skip_csi cs else cs)"

lemma skip_esc_length: "length (skip_esc bs) \<le> length bs"
  by (auto simp: skip_esc_def skip_csi_length le_SucI split: list.splits)

lemma skip_esc_length_Cons: "length (skip_esc bs) < length (b # bs)"
  using skip_esc_length [of bs] by simp

function SanitizeInput :: "bytes \<Rightarrow> bytes" where
  "SanitizeInput [] = []"
| "SanitizeInput (b # bs) =
     (if b = 0x1B then SanitizeInput (skip_esc bs)
      else if b < 0x20 \<or> b = 0x7F then
        (if allowedControl b then b # SanitizeInput bs else SanitizeInput bs)
      else b # SanitizeInput bs)"
  by pat_completeness auto
termination
  by (relation "measure length") (use skip_esc_length_Cons in auto)

function SanitizeForDisplay :: "bytes \<Rightarrow> bytes" where
  "SanitizeForDisplay [] = []"
| "SanitizeForDisplay (b # bs) =
     (if b = 0x1B then SanitizeForDisplay (skip_esc bs)
      else if b = 9 \<or> b = 13 \<or> b = 10 \<or> b = 32 then b # SanitizeForDisplay bs
      else if b < 0x20 \<or> b = 0x7F then SanitizeForDisplay bs
      else b # SanitizeForDisplay bs)"
  by pat_completeness auto
termination
  by (relation "measure length") (use skip_esc_length_Cons in auto)

function stripANSI :: "bytes \<Rightarrow> bytes" where
  "stripANSI [] = []"
| "stripANSI (b # bs) = (if b = 0x1B then stripANSI (skip_esc bs) else b # stripANSI bs)"
  by pat_completeness auto
termination
  by (relation "measure length") (use skip_esc_length_Cons in auto)

definition foldHigh :: "byte \<Rightarrow> byte" where
  "foldHigh b =
     (if b \<in> {0xB3, 0xBA, 0xB4, 0xB5, 0xB6, 0xB9, 0xC3, 0xC6, 0xC7, 0xCC, 0xD0, 0xD2, 0xD5, 0xD8} then 124
      else if b \<in> {0xC4, 0xCD, 0xC1, 0xC2, 0xCA, 0xCB, 0xD1, 0xCF} then 45
      else if b \<in> {0xDA, 0xBF, 0xC0, 0xD9, 0xC9, 0xBB, 0xC8, 0xBC, 0xC5, 0xCE, 0xD6, 0xB7, 0xD3, 0xBD} then 43
      else if b \<in> {0xB0, 0xB1, 0xB2, 0xDB, 0xDC, 0xDD, 0xDE, 0xDF} then 35
      else 63)"

fun degradeCP437 :: "bytes \<Rightarrow> bytes" where
  "degradeCP437 [] = []"
| "degradeCP437 (b # bs) =
     (if b = 13 \<or> b = 10 \<or> b = 9 then b # degradeCP437 bs
      else if b = 0x1A then []
      else if b < 0x20 \<or> b = 0x7F then degradeCP437 bs
      else if b < 0x80 then b # degradeCP437 bs
      else foldHigh b # degradeCP437 bs)"

section \<open>The common law of the escape strippers\<close>

definition displayable :: "byte \<Rightarrow> bool" where
  "displayable b \<longleftrightarrow> (b \<ge> 0x20 \<and> b \<noteq> 0x7F) \<or> allowedControl b"

lemma displayable_not_esc [simp]: "\<not> displayable 0x1B"
  by (simp add: displayable_def allowedControl_def)

locale escape_filter =
  fixes keep :: "byte \<Rightarrow> bool" and strip :: "bytes \<Rightarrow> bytes"
  assumes strip_Nil: "strip [] = []"
    and strip_esc: "strip (0x1B # bs) = strip (skip_esc bs)"
    and strip_keep: "b \<noteq> 0x1B \<Longrightarrow> keep b \<Longrightarrow> strip (b # bs) = b # strip bs"
    and strip_drop: "b \<noteq> 0x1B \<Longrightarrow> \<not> keep b \<Longrightarrow> strip (b # bs) = strip bs"
begin

lemma strip_filter: "strip bs = filter keep (stripANSI bs)"
  by (induction bs rule: stripANSI.induct)
     (auto simp: strip_Nil strip_esc strip_keep strip_drop)

lemma strip_no_esc: "0x1B \<notin> set (strip bs)"
proof -
  have "0x1B \<notin> set (stripANSI bs)"
    by (induction bs rule: stripANSI.induct) auto
  then show ?thesis by (simp add: strip_filter)
qed

lemma strip_kept: "b \<in> set (strip bs) \<Longrightarrow> keep b \<and> b \<noteq> 0x1B"
  using strip_no_esc [of bs] by (auto simp: strip_filter)

lemma strip_ident: "\<forall>b\<in>set bs. keep b \<and> b \<noteq> 0x1B \<Longrightarrow> strip bs = bs"
  by (induction bs) (auto simp: strip_Nil strip_keep)

lemma strip_idem: "strip (strip bs) = strip bs"
  by (rule strip_ident) (simp add: strip_kept)

lemma strip_subseq: "subseq (strip bs) bs"
proof (induction "length bs" arbitrary: bs rule: less_induct)
  case less
  show ?case
  proof (cases bs)
    case Nil
    then show ?thesis by (simp add: strip_Nil)
  next
    case (Cons b cs)
    have skip: "subseq (skip_esc cs) cs"
      using suffix_imp_subseq skip_csi_suffix
      by (auto simp: skip_esc_def split: list.splits)
    have "subseq (strip (skip_esc cs)) (skip_esc cs)"
      using less skip_esc_length_Cons [of cs b] Cons by blast
    then have "subseq (strip (skip_esc cs)) cs" using skip by (rule subseq_order.trans)
    moreover have "subseq (strip cs) cs" using less Cons by simp
    ultimately show ?thesis
      using Cons by (cases "b = 0x1B"; cases "keep b") (auto simp: strip_esc strip_keep strip_drop)
  qed
qed

lemma strip_length: "length (strip bs) \<le> length bs"
  using strip_subseq by (rule list_emb_length)

end

lemma displayable_alt: "displayable b \<longleftrightarrow> \<not> (b < 0x20 \<or> b = 0x7F) \<or> allowedControl b"
  unfolding displayable_def by (simp add: not_less)

lemma allowedControl_low: "allowedControl b \<Longrightarrow> b < 0x20"
  by (auto simp: allowedControl_def)

interpretation inp: escape_filter displayable SanitizeInput
proof
  show "SanitizeInput [] = []" by simp
  show "SanitizeInput (0x1B # bs) = SanitizeInput (skip_esc bs)" for bs by simp
  show "SanitizeInput (b # bs) = b # SanitizeInput bs" if "b \<noteq> 0x1B" "displayable b" for b bs
    using that unfolding displayable_alt
    by (elim disjE conjE) (simp_all add: allowedControl_def)
  show "SanitizeInput (b # bs) = SanitizeInput bs" if "b \<noteq> 0x1B" "\<not> displayable b" for b bs
    using that unfolding displayable_alt by simp
qed

interpretation disp: escape_filter displayable SanitizeForDisplay
proof
  show "SanitizeForDisplay [] = []" by simp
  show "SanitizeForDisplay (0x1B # bs) = SanitizeForDisplay (skip_esc bs)" for bs by simp
  show "SanitizeForDisplay (b # bs) = b # SanitizeForDisplay bs" if "b \<noteq> 0x1B" "displayable b" for b bs
    using that unfolding displayable_alt allowedControl_def by (elim disjE conjE) simp_all
  show "SanitizeForDisplay (b # bs) = SanitizeForDisplay bs" if "b \<noteq> 0x1B" "\<not> displayable b" for b bs
  proof -
    have "b \<noteq> 32" using that(2) by (auto simp: displayable_def)
    with that show ?thesis unfolding displayable_alt allowedControl_def by simp
  qed
qed

interpretation ansi: escape_filter "\<lambda>_. True" stripANSI
  by unfold_locales auto

section \<open>The capability-aware writer\<close>

text \<open>
  \<open>wr_out\<close> is what the underlying stream has received. Colours are the SGR foreground
  codes 30 (\<open>Black\<close>) to 37 (\<open>White\<close>).
\<close>

record writer =
  wr_out :: bytes
  wr_ansi :: bool
  wr_cols :: int
  wr_colorblind :: bool

definition scr_Green :: int where "scr_Green = 32"
definition scr_Blue :: int where "scr_Blue = 34"

definition NewWriter :: "bytes \<Rightarrow> bool \<Rightarrow> int \<Rightarrow> bool \<Rightarrow> writer" where
  "NewWriter out ansi cols cb =
     \<lparr>wr_out = out, wr_ansi = ansi, wr_cols = (if cols \<le> 0 then 80 else cols), wr_colorblind = cb\<rparr>"

definition cbColor :: "int \<Rightarrow> int" where
  "cbColor fg = (if fg = scr_Green then scr_Blue else fg)"

definition Print :: "bytes \<Rightarrow> writer \<Rightarrow> writer" where
  "Print text w = w\<lparr>wr_out := wr_out w @ text\<rparr>"

definition wr_Line :: "bytes \<Rightarrow> writer \<Rightarrow> writer" where
  "wr_Line text w = Print (text @ [13, 10]) w"

definition sgr :: "int \<Rightarrow> bytes" where
  "sgr n = [0x1B, 0x5B] @ itoa n @ [0x6D]"

definition Color :: "int \<Rightarrow> writer \<Rightarrow> writer" where
  "Color fg w = (if wr_ansi w then Print (sgr (if wr_colorblind w then cbColor fg else fg)) w else w)"

definition Bold :: "writer \<Rightarrow> writer" where
  "Bold w = (if wr_ansi w then Print [0x1B, 0x5B, 0x31, 0x6D] w else w)"

definition wr_Reset :: "writer \<Rightarrow> writer" where
  "wr_Reset w = (if wr_ansi w then Print [0x1B, 0x5B, 0x30, 0x6D] w else w)"

definition Clear :: "writer \<Rightarrow> writer" where
  "Clear w = (if wr_ansi w then Print [0x1B, 0x5B, 0x32, 0x4A, 0x1B, 0x5B, 0x48] w
     else Print [13, 10, 13, 10] w)"

definition ColorLine :: "int \<Rightarrow> bytes \<Rightarrow> writer \<Rightarrow> writer" where
  "ColorLine fg text w = Print [13, 10] (wr_Reset (Print text (Color fg w)))"

definition SafePrint :: "bytes \<Rightarrow> writer \<Rightarrow> writer" where
  "SafePrint text w = Print (SanitizeForDisplay text) w"

definition RenderArt :: "bytes \<Rightarrow> writer \<Rightarrow> writer" where
  "RenderArt art w = (if wr_ansi w then Print art w else Print (degradeCP437 (stripANSI art)) w)"

text \<open>The calls a screen makes, and a screen as a list of them.\<close>

datatype wcall =
    CPrint bytes | CLine bytes | CColor int | CBold | CReset | CClear
  | CColorLine int bytes | CSafe bytes | CArt bytes

fun wr_call :: "wcall \<Rightarrow> writer \<Rightarrow> writer" where
  "wr_call (CPrint t) = Print t"
| "wr_call (CLine t) = wr_Line t"
| "wr_call (CColor c) = Color c"
| "wr_call CBold = Bold"
| "wr_call CReset = wr_Reset"
| "wr_call CClear = Clear"
| "wr_call (CColorLine c t) = ColorLine c t"
| "wr_call (CSafe t) = SafePrint t"
| "wr_call (CArt a) = RenderArt a"

definition wr_calls :: "wcall list \<Rightarrow> writer \<Rightarrow> writer" where
  "wr_calls cs w = foldl (\<lambda>w c. wr_call c w) w cs"

lemmas writer_defs = Print_def wr_Line_def Color_def Bold_def wr_Reset_def Clear_def
  ColorLine_def SafePrint_def RenderArt_def

text \<open>The text of a call that the code itself chose: it is printed as it is.\<close>

fun own_text :: "wcall \<Rightarrow> bytes" where
  "own_text (CPrint t) = t"
| "own_text (CLine t) = t"
| "own_text (CColorLine c t) = t"
| "own_text _ = []"

lemma wr_call_fixed [simp]:
  "wr_ansi (wr_call c w) = wr_ansi w" "wr_colorblind (wr_call c w) = wr_colorblind w"
  "wr_cols (wr_call c w) = wr_cols w"
  by (cases c; simp add: writer_defs)+

lemma foldHigh_ascii: "foldHigh b \<ge> 0x20 \<and> foldHigh b < 0x7F"
  by (simp add: foldHigh_def)

lemma degradeCP437_ascii:
  "b \<in> set (degradeCP437 bs) \<Longrightarrow> (0x20 \<le> b \<and> b < 0x7F) \<or> allowedControl b"
proof (induction bs)
  case (Cons c bs)
  let ?ok = "\<lambda>b. (0x20 \<le> b \<and> b < 0x7F) \<or> allowedControl b"
  consider (own) d where "degradeCP437 (c # bs) = d # degradeCP437 bs" "?ok d"
    | (less) "degradeCP437 (c # bs) = degradeCP437 bs \<or> degradeCP437 (c # bs) = []"
  proof (cases "allowedControl c")
    case True
    then show ?thesis using that(1) [of c] unfolding allowedControl_def by (elim disjE) simp_all
  next
    case ctl: False
    show ?thesis
  proof (cases "c = 0x1A \<or> c < 0x20 \<or> c = 0x7F")
    case True
    then have "degradeCP437 (c # bs) = degradeCP437 bs \<or> degradeCP437 (c # bs) = []"
      using ctl unfolding allowedControl_def by (elim disjE) simp_all
    then show ?thesis by (rule that(2))
  next
    case False
    then have "?ok c" if "c < 0x80"
      using that by (simp add: not_less) unat_arith
    with False ctl show ?thesis
      using that(1) [of c] that(1) [of "foldHigh c"] foldHigh_ascii [of c]
      unfolding allowedControl_def by (cases "c < 0x80") simp_all
  qed
  qed
  then show ?case
  proof cases
    case own
    then show ?thesis using Cons by auto
  next
    case less
    then show ?thesis using Cons by auto
  qed
qed simp

section \<open>What a screen puts on the wire\<close>

text \<open>The bytes one call appends, read off an empty writer.\<close>

definition call_out :: "bool \<Rightarrow> bool \<Rightarrow> wcall \<Rightarrow> bytes" where
  "call_out ansi cb c = wr_out (wr_call c \<lparr>wr_out = [], wr_ansi = ansi, wr_cols = 80, wr_colorblind = cb\<rparr>)"

lemma wr_call_out: "wr_out (wr_call c w) = wr_out w @ call_out (wr_ansi w) (wr_colorblind w) c"
  by (cases c) (simp_all add: call_out_def writer_defs)

lemma wr_calls_out:
  "wr_out (wr_calls cs w) = wr_out w @ concat (map (call_out (wr_ansi w) (wr_colorblind w)) cs)"
  unfolding wr_calls_def
  by (induction cs arbitrary: w) (simp_all add: wr_call_out)

lemma skip_csi_params: "\<forall>b\<in>set ps. b < 0x40 \<Longrightarrow> 0x40 \<le> f \<Longrightarrow> f \<le> 0x7E \<Longrightarrow> skip_csi (ps @ f # r) = r"
  by (induction ps) (auto simp: not_less)

lemma digit_param: "is_digit b \<Longrightarrow> b < 0x40"
  unfolding is_digit_def by unat_arith

lemma itoa_params: "\<forall>b\<in>set (itoa n). b < 0x40"
  using nat_digits_are_digits digit_param by (auto simp: itoa_def)

lemma stripANSI_sgr: "stripANSI (sgr n @ r) = stripANSI r"
  using skip_csi_params [OF itoa_params, of "0x6D" n r]
  by (simp add: sgr_def skip_esc_def)

lemma stripANSI_bold: "stripANSI (0x1B # 0x5B # d # 0x6D # r) = stripANSI r" if "d < 0x40"
  using skip_csi_params [of "[d]" "0x6D" r] that by (simp add: skip_esc_def)

lemma skip_esc_attr [simp]:
  "skip_esc (0x5B # 0x30 # 0x6D # r) = r" "skip_esc (0x5B # 0x31 # 0x6D # r) = r"
  by (simp_all add: skip_esc_def)

lemma stripANSI_text: "0x1B \<notin> set t \<Longrightarrow> stripANSI (t @ r) = t @ stripANSI r"
  by (induction t) auto

fun plain_call :: "wcall \<Rightarrow> bool" where
  "plain_call CClear = False"
| "plain_call (CArt a) = False"
| "plain_call c = (0x1B \<notin> set (own_text c))"

lemma stripANSI_call:
  assumes "plain_call c"
  shows "stripANSI (call_out True cb c @ r) = call_out False cb c @ stripANSI r"
proof (cases c)
  case (CColorLine fg t)
  then have "0x1B \<notin> set t" using assms by simp
  then show ?thesis
    using CColorLine
    by (simp add: call_out_def writer_defs stripANSI_sgr stripANSI_text stripANSI_bold
        stripANSI_text [of "[13, 10]", simplified])
next
  case (CSafe t)
  then show ?thesis
    using disp.strip_no_esc [of t] by (simp add: call_out_def writer_defs stripANSI_text)
qed (use assms in \<open>simp_all add: call_out_def writer_defs stripANSI_sgr stripANSI_text stripANSI_bold
       stripANSI_text [of "t @ [13, 10]" for t, simplified]\<close>)

lemma stripANSI_calls:
  "\<forall>c\<in>set cs. plain_call c \<Longrightarrow>
     stripANSI (concat (map (call_out True cb) cs)) = concat (map (call_out False cb) cs)"
proof (induction cs)
  case (Cons c cs)
  then show ?case using stripANSI_call [of c cb "concat (map (call_out True cb) cs)"] by simp
qed simp

lemma bw_call_no_esc: "0x1B \<notin> set (own_text c) \<Longrightarrow> 0x1B \<notin> set (call_out False cb c)"
proof (cases c)
  case (CArt a)
  then show ?thesis
    using degradeCP437_ascii [of "0x1B" "stripANSI a"]
    by (auto simp: call_out_def writer_defs allowedControl_def)
qed (use disp.strip_no_esc in \<open>simp_all add: call_out_def writer_defs\<close>)

section \<open>Properties\<close>

text \<open>C25: whatever bytes a caller sends, \<open>SanitizeInput\<close> lets through only printable
  bytes and TAB, CR and LF (in particular no ESC), it never reorders or invents bytes,
  and applying it again changes nothing.\<close>

theorem sanitize_input_safe:
  "set (SanitizeInput bs) \<subseteq> {b. displayable b} \<and> 0x1B \<notin> set (SanitizeInput bs)
   \<and> subseq (SanitizeInput bs) bs \<and> SanitizeInput (SanitizeInput bs) = SanitizeInput bs"
  using inp.strip_kept inp.strip_no_esc inp.strip_subseq inp.strip_idem by auto

text \<open>The output filter \<open>SanitizeForDisplay\<close> and the input filter \<open>SanitizeInput\<close>
  are the same function, and both are \<open>stripANSI\<close> followed by dropping the control
  bytes.\<close>

theorem display_filter_equivalence:
  "SanitizeForDisplay bs = SanitizeInput bs \<and> SanitizeInput bs = filter displayable (stripANSI bs)"
  by (simp add: inp.strip_filter disp.strip_filter)

text \<open>On a black-and-white terminal no screen can put an ESC on the wire, whatever
  user content it shows with \<open>SafePrint\<close> or art it renders, as long as the literal texts
  it prints itself hold none.\<close>

theorem bw_screen_no_escape:
  assumes "\<not> wr_ansi w" "\<forall>c\<in>set cs. 0x1B \<notin> set (own_text c)" "0x1B \<notin> set (wr_out w)"
  shows "0x1B \<notin> set (wr_out (wr_calls cs w))"
  using assms bw_call_no_esc by (auto simp: wr_calls_out)

theorem bw_screen_no_escape_witness:
  "0x1B \<notin> set (wr_out (wr_calls [CColorLine 36 (str ''Hi''), CSafe [0x1B, 0x5B, 0x32, 0x4A, 65]]
     (NewWriter [] False 80 False)))"
  by (rule bw_screen_no_escape) (simp_all add: NewWriter_def str_def)

text \<open>The single render path: for every screen that neither clears nor shows art,
  removing the escape sequences from the ANSI rendering gives exactly the
  black-and-white rendering.\<close>

theorem ansi_degrades_to_bw:
  assumes "\<forall>c\<in>set cs. plain_call c"
  shows "stripANSI (wr_out (wr_calls cs (NewWriter [] True cols cb)))
       = wr_out (wr_calls cs (NewWriter [] False cols cb))"
  using stripANSI_calls [OF assms] by (simp add: wr_calls_out NewWriter_def)

theorem ansi_degrades_to_bw_witness:
  "stripANSI (wr_out (wr_calls [CColor 32, CPrint [65], CReset] (NewWriter [] True 80 True)))
     = wr_out (wr_calls [CColor 32, CPrint [65], CReset] (NewWriter [] False 80 True))"
  by (rule ansi_degrades_to_bw) simp

end
