(* ===== verification/SessionInput.thy ===== *)
theory SessionInput
  imports Sanitize
begin

text \<open>
  The session layer: \<open>session/session.go\<close> (the input chokepoint \<open>nextByte\<close>, the line,
  password and key readers, the idle and budget watchdogs) and \<open>session/terminal.go\<close>
  (capability detection).

  A caller's input is a list of bytes, each with the time in nanoseconds the reader waits
  for it. Time passes only while the session waits for input; a \<open>time.AfterFunc\<close> watchdog
  is the instant at which it closes the wire. A read that would be served at or after
  that instant finds the connection closed, which the readers report as an error. The end
  of the list is the caller hanging up.
\<close>

section \<open>Terminal capability\<close>

record capability =
  cap_ansi :: bool
  cap_cp437 :: bool
  cap_cols :: int
  cap_rows :: int

definition ansiTermHints :: "bytes list" where
  "ansiTermHints = [str ''ansi'', str ''xterm'', str ''vt100'', str ''vt102'', str ''screen'',
     str ''tmux'', str ''syncterm'', str ''netrunner'', str ''cygwin'', str ''linux'',
     str ''putty'', str ''rxvt'']"

definition plainTermHints :: "bytes list" where
  "plainTermHints = [str ''dumb'', str ''vt52'', str ''mono'', str ''net'', str ''unknown'']"

definition DetectCapability :: "(bytes \<Rightarrow> bytes) \<Rightarrow> bytes \<Rightarrow> int \<Rightarrow> int \<Rightarrow> capability" where
  "DetectCapability ulow termType wcols wrows =
     (let cols = (if wcols \<le> 0 then 80 else wcols);
          t = ToLower ulow (TrimSpace termType);
          colour = (if t = [] then True
                    else if containsAny t plainTermHints then False
                    else containsAny t ansiTermHints)
      in \<lparr>cap_ansi = colour, cap_cp437 = colour, cap_cols = cols, cap_rows = wrows\<rparr>)"

section \<open>The session\<close>

record session =
  s_id :: bytes
  s_transport :: bytes
  s_username :: bytes
  s_ip :: bytes
  s_clock :: int
  s_start :: int
  s_in :: "(nat \<times> byte) list"
  s_out :: bytes
  s_closed :: bool
  s_cap :: capability
  s_idle :: int
  s_idle_at :: "int option"
  s_budget_at :: "int option"
  s_colorblind :: bool

definition MaxLineLen :: nat where "MaxLineLen = 4096"

definition SetColorblind :: "bool \<Rightarrow> session \<Rightarrow> session" where
  "SetColorblind on s = s\<lparr>s_colorblind := on\<rparr>"

definition trackResize :: "int \<Rightarrow> int \<Rightarrow> session \<Rightarrow> session" where
  "trackResize cols rows s =
     (let c = s_cap s; c = (if cols > 0 then c\<lparr>cap_cols := cols\<rparr> else c)
      in s\<lparr>s_cap := c\<lparr>cap_rows := rows\<rparr>\<rparr>)"

definition WatchIdle :: "int \<Rightarrow> session \<Rightarrow> session" where
  "WatchIdle d s = (if d \<le> 0 then s else s\<lparr>s_idle := d, s_idle_at := Some (s_clock s + d)\<rparr>)"

definition resetIdle :: "session \<Rightarrow> session" where
  "resetIdle s = (case s_idle_at s of None \<Rightarrow> s | Some _ \<Rightarrow> s\<lparr>s_idle_at := Some (s_clock s + s_idle s)\<rparr>)"

definition WatchBudget :: "int \<Rightarrow> session \<Rightarrow> session" where
  "WatchBudget d s = (if d \<le> 0 then s else s\<lparr>s_budget_at := Some (s_clock s + d)\<rparr>)"

text \<open>The instant at which the first armed watchdog closes the wire.\<close>

definition deadline :: "session \<Rightarrow> int option" where
  "deadline s = (case (s_idle_at s, s_budget_at s) of
     (None, b) \<Rightarrow> b | (Some i, None) \<Rightarrow> Some i | (Some i, Some b) \<Rightarrow> Some (min i b))"

definition ReadByte :: "(session, byte) prog" where
  "ReadByte s = (if s_closed s then (Inl ErrEOF, s) else
     (case s_in s of
        [] \<Rightarrow> (Inl ErrEOF, s)
      | (dt, b) # rest \<Rightarrow>
          let t = s_clock s + int dt in
          (case deadline s of
             Some d \<Rightarrow> if d \<le> t then (Inl ErrEOF, s\<lparr>s_closed := True, s_clock := max (s_clock s) d\<rparr>)
                       else (Inr b, s\<lparr>s_in := rest, s_clock := t\<rparr>)
           | None \<Rightarrow> (Inr b, s\<lparr>s_in := rest, s_clock := t\<rparr>))))"

definition sess_write :: "bytes \<Rightarrow> session \<Rightarrow> session" where
  "sess_write p s = (if s_closed s then s else s\<lparr>s_out := s_out s @ p\<rparr>)"

lemma resetIdle_in [simp]: "s_in (resetIdle s) = s_in s" "s_out (resetIdle s) = s_out s"
  "s_closed (resetIdle s) = s_closed s" "s_budget_at (resetIdle s) = s_budget_at s"
  "s_clock (resetIdle s) = s_clock s"
  by (auto simp: resetIdle_def split: option.splits)

lemma sess_write_in [simp]: "s_in (sess_write p s) = s_in s" "s_closed (sess_write p s) = s_closed s"
  "s_budget_at (sess_write p s) = s_budget_at s" "s_idle_at (sess_write p s) = s_idle_at s"
  "s_clock (sess_write p s) = s_clock s"
  by (auto simp: sess_write_def)

lemma ReadByte_Inr:
  assumes "ReadByte s = (Inr b, s')"
  obtains dt where "s_in s = (dt, b) # s_in s'" "s_out s' = s_out s" "\<not> s_closed s" "\<not> s_closed s'"
    "s_idle_at s' = s_idle_at s" "s_budget_at s' = s_budget_at s" "s_clock s' = s_clock s + int dt"
    "\<And>d. deadline s = Some d \<Longrightarrow> s_clock s' < d"
  using assms by (auto simp: ReadByte_def Let_def split: if_splits list.splits option.splits prod.splits)

lemma ReadByte_length: "ReadByte s = (Inr b, s') \<Longrightarrow> length (s_in s') < length (s_in s)"
  by (auto elim: ReadByte_Inr)

lemma ReadByte_length': "(Inr b, s') = ReadByte s \<Longrightarrow> length (s_in s') < length (s_in s)"
  using ReadByte_length by metis

lemma ReadByte_Inl:
  assumes "ReadByte s = (Inl e, s')"
  shows "s_in s' = s_in s" "s_out s' = s_out s" "e = ErrEOF" "s_budget_at s' = s_budget_at s"
    "s_idle_at s' = s_idle_at s"
  using assms by (auto simp: ReadByte_def Let_def split: if_splits list.splits option.splits prod.splits)

section \<open>The input chokepoint\<close>

function csi_tail :: "(session, unit) prog" where
  "csi_tail s = (case ReadByte s of (Inl e, s1) \<Rightarrow> (Inl e, s1)
     | (Inr fb, s1) \<Rightarrow> if fb \<ge> 0x40 \<and> fb \<le> 0x7E then (Inr (), s1) else csi_tail s1)"
  by pat_completeness auto
termination
  by (relation "measure (\<lambda>s. length (s_in s))") (auto dest: ReadByte_length')

declare csi_tail.simps [simp del]

lemma csi_tail_length: "csi_tail s = (Inr u, s') \<Longrightarrow> length (s_in s') < length (s_in s)"
proof (induction s rule: csi_tail.induct)
  case (1 s)
  show ?case
  proof (cases "ReadByte s")
    case (Pair r s1)
    show ?thesis
    proof (cases r)
      case (Inl e)
      then show ?thesis using 1(2) Pair by (simp add: csi_tail.simps [of s])
    next
      case (Inr fb)
      then have "length (s_in s1) < length (s_in s)" using Pair ReadByte_length by simp
      moreover have "length (s_in s') \<le> length (s_in s1)"
        using 1 Pair Inr by (auto simp: csi_tail.simps [of s] less_imp_le split: if_splits)
      ultimately show ?thesis by simp
    qed
  qed
qed

lemma csi_tail_length': "(Inr u, s') = csi_tail s \<Longrightarrow> length (s_in s') < length (s_in s)"
  using csi_tail_length by metis

function nextByte :: "(session, byte) prog" where
  "nextByte s = (case ReadByte s of (Inl e, s1) \<Rightarrow> (Inl e, s1)
     | (Inr b, s1) \<Rightarrow>
         (if b \<noteq> 0x1B then (Inr b, resetIdle s1)
          else (case ReadByte (resetIdle s1) of (Inl e, s2) \<Rightarrow> (Inl e, s2)
                | (Inr nb, s2) \<Rightarrow>
                    (if nb = 0x5B then
                       (case csi_tail s2 of (Inl e, s3) \<Rightarrow> (Inl e, s3) | (Inr u, s3) \<Rightarrow> nextByte s3)
                     else nextByte s2))))"
  by pat_completeness auto
termination
  by (relation "measure (\<lambda>s. length (s_in s))")
     (force dest: ReadByte_length' csi_tail_length')+

declare nextByte.simps [simp del]


text \<open>
  What one \<open>nextByte\<close> does to the session: it takes a non-empty prefix of the input,
  never writes, and never returns an ESC.
\<close>

definition reads :: "session \<Rightarrow> session \<Rightarrow> bool" where
  "reads s s' \<longleftrightarrow> suffix (s_in s') (s_in s) \<and> s_out s' = s_out s \<and> s_budget_at s' = s_budget_at s
     \<and> (s_closed s \<longrightarrow> s' = s)"

lemma reads_refl: "reads s s"
  by (simp add: reads_def)

lemma reads_trans: "reads s t \<Longrightarrow> reads t u \<Longrightarrow> reads s u"
  by (auto simp: reads_def suffix_order.trans)

lemma reads_ReadByte: "ReadByte s = (r, s') \<Longrightarrow> reads s s'"
  unfolding reads_def ReadByte_def
  by (auto simp: Let_def suffix_ConsI split: if_splits list.splits option.splits prod.splits)

lemma reads_resetIdle: "\<not> s_closed s \<Longrightarrow> reads s (resetIdle s)"
  by (simp add: reads_def)

lemma reads_ReadByte_resetIdle: "ReadByte s = (Inr b, s') \<Longrightarrow> reads s (resetIdle s')"
  by (meson ReadByte_Inr reads_ReadByte reads_resetIdle reads_trans)

lemma reads_csi_tail: "csi_tail s = (r, s') \<Longrightarrow> reads s s'"
proof (induction s rule: csi_tail.induct)
  case (1 s)
  obtain q s1 where q: "ReadByte s = (q, s1)" by fastforce
  then have "reads s s1" by (rule reads_ReadByte)
  with 1 q show ?case
    by (auto simp: csi_tail.simps [of s] split: sum.splits if_splits intro: reads_trans)
qed

lemma nextByte_Inr:
  "nextByte s = (Inr b, s') \<Longrightarrow>
     reads s s' \<and> length (s_in s') < length (s_in s) \<and> b \<noteq> 0x1B \<and> \<not> s_closed s'"
proof (induction s rule: nextByte.induct)
  case (1 s)
  from 1(3) obtain b1 s1 where r1: "ReadByte s = (Inr b1, s1)"
    by (auto simp: nextByte.simps [of s] split: prod.splits sum.splits)
  then have s1: "reads s (resetIdle s1)" "length (s_in s1) < length (s_in s)" "\<not> s_closed s1"
    by (auto intro: reads_ReadByte_resetIdle dest: ReadByte_length elim: ReadByte_Inr)
  show ?case
  proof (cases "b1 = 0x1B")
    case False
    then show ?thesis using 1(3) r1 s1 by (simp add: nextByte.simps [of s]) auto
  next
    case esc: True
    with 1(3) r1 obtain nb s2 where r2: "ReadByte (resetIdle s1) = (Inr nb, s2)"
      by (auto simp: nextByte.simps [of s] split: prod.splits sum.splits)
    then have s2: "reads s s2" "length (s_in s2) < length (s_in s)"
      using s1 ReadByte_length [OF r2] by (auto intro: reads_trans reads_ReadByte)
    show ?thesis
    proof (cases "nb = 0x5B")
      case True
      with 1(3) r1 r2 esc obtain u s3 where r3: "csi_tail s2 = (Inr u, s3)" "nextByte s3 = (Inr b, s')"
        by (auto simp: nextByte.simps [of s] split: prod.splits sum.splits)
      moreover have "reads s s3" "length (s_in s3) < length (s_in s)"
        using s2 r3(1) csi_tail_length [OF r3(1)] by (auto intro: reads_trans reads_csi_tail)
      ultimately show ?thesis
        using 1(1) [OF r1 [symmetric]] r2 esc True by (fastforce intro: reads_trans)
    next
      case False
      with 1(3) r1 r2 esc have "nextByte s2 = (Inr b, s')"
        by (simp add: nextByte.simps [of s])
      then show ?thesis
        using 1(2) [OF r1 [symmetric]] r2 esc False s2 by (fastforce intro: reads_trans)
    qed
  qed
qed

lemma reads_nextByte: "nextByte s = (r, s') \<Longrightarrow> reads s s'"
proof (induction s rule: nextByte.induct)
  case (1 s)
  obtain q1 s1 where r1: "ReadByte s = (q1, s1)" by fastforce
  then have s1: "reads s s1" by (rule reads_ReadByte)
  show ?case
  proof (cases q1)
    case (Inl e)
    then show ?thesis using 1(3) r1 s1 by (simp add: nextByte.simps [of s])
  next
    case (Inr b1)
    then have s1': "reads s (resetIdle s1)"
      using r1 reads_ReadByte_resetIdle by simp
    obtain q2 s2 where r2: "ReadByte (resetIdle s1) = (q2, s2)" by fastforce
    then have s2: "reads s s2" using s1' by (auto intro: reads_trans reads_ReadByte)
    obtain q3 s3 where r3: "csi_tail s2 = (q3, s3)" by fastforce
    then have s3: "reads s s3" using s2 by (auto intro: reads_trans reads_csi_tail)
    show ?thesis
      using 1 r1 Inr r2 r3 s1' s2 s3
      by (auto simp: nextByte.simps [of s] split: sum.splits if_splits intro: reads_trans)
  qed
qed

lemma nextByte_length': "(Inr b, s') = nextByte s \<Longrightarrow> length (s_in s') < length (s_in s)"
  using nextByte_Inr by metis

section \<open>The readers\<close>

function ReadKey :: "(session, byte) prog" where
  "ReadKey s = (case nextByte s of (Inl e, s1) \<Rightarrow> (Inl e, s1)
     | (Inr b, s1) \<Rightarrow>
         (if b < 0x20 \<or> b = 0x7F then
            (if b = 13 \<or> b = 10 then (Inr b, s1) else ReadKey s1)
          else (Inr b, s1)))"
  by pat_completeness auto
termination
  by (relation "measure (\<lambda>s. length (s_in s))") (auto dest: nextByte_length')

declare ReadKey.simps [simp del]

function line_loop :: "bytes \<Rightarrow> (session, bytes) prog" where
  "line_loop buf s = (case nextByte s of (Inl e, s1) \<Rightarrow> (Inl e, s1)
     | (Inr b, s1) \<Rightarrow>
         (if b = 13 \<or> b = 10 then (Inr buf, sess_write [13, 10] s1)
          else if b = 0x08 \<or> b = 0x7F then
            (if length buf > 0 then line_loop (butlast buf) (sess_write [8, 32, 8] s1)
             else line_loop buf s1)
          else if b < 0x20 then line_loop buf s1
          else if length buf < MaxLineLen then line_loop (buf @ [b]) (sess_write [b] s1)
          else line_loop buf s1))"
  by pat_completeness auto
termination
  by (relation "measure (\<lambda>(buf, s). length (s_in s))") (auto dest: nextByte_length')

declare line_loop.simps [simp del]

definition ReadLine :: "(session, bytes) prog" where
  "ReadLine = line_loop []"

function password_loop :: "bytes \<Rightarrow> (session, bytes) prog" where
  "password_loop buf s = (case nextByte s of (Inl e, s1) \<Rightarrow> (Inl e, s1)
     | (Inr b, s1) \<Rightarrow>
         (if b = 13 \<or> b = 10 then (Inr buf, sess_write [13, 10] s1)
          else if b = 0x08 \<or> b = 0x7F then
            (if length buf > 0 then password_loop (butlast buf) s1 else password_loop buf s1)
          else if b < 0x20 then password_loop buf s1
          else if length buf < MaxLineLen then password_loop (buf @ [b]) s1
          else password_loop buf s1))"
  by pat_completeness auto
termination
  by (relation "measure (\<lambda>(buf, s). length (s_in s))") (auto dest: nextByte_length')

declare password_loop.simps [simp del]

definition ReadPassword :: "(session, bytes) prog" where
  "ReadPassword = password_loop []"

section \<open>The byte stream behind the chokepoint\<close>

text \<open>
  When the caller is in time. \<open>next_mode\<close> follows the escape sequences of the input;
  \<open>in_time\<close> walks over timed bytes with the idle period, the instants at which the two
  watchdogs fire and the clock: every byte arrives before both instants, and a byte outside
  an escape sequence, or the ESC that opens one, postpones the idle watchdog.
\<close>

datatype esc_mode = Ground | Escaped | InCSI

fun next_mode :: "esc_mode \<Rightarrow> byte \<Rightarrow> esc_mode" where
  "next_mode Ground b = (if b = 0x1B then Escaped else Ground)"
| "next_mode Escaped b = (if b = 0x5B then InCSI else Ground)"
| "next_mode InCSI b = (if b \<ge> 0x40 \<and> b \<le> 0x7E then Ground else InCSI)"

definition before :: "int option \<Rightarrow> int \<Rightarrow> bool" where
  "before w t = (case w of None \<Rightarrow> True | Some d \<Rightarrow> t < d)"

fun in_time :: "esc_mode \<Rightarrow> int \<Rightarrow> int option \<Rightarrow> int option \<Rightarrow> int \<Rightarrow> (nat \<times> byte) list \<Rightarrow> bool" where
  "in_time m i idle budget t [] = True"
| "in_time m i idle budget t ((dt, b) # r) =
     (before idle (t + int dt) \<and> before budget (t + int dt) \<and>
      in_time (next_mode m b) i (if m = Ground then map_option (\<lambda>_. t + int dt + i) idle else idle) budget (t + int dt) r)"

text \<open>The session is open and the next bytes of its input, \<open>pre\<close>, arrive in time.\<close>

definition ready :: "esc_mode \<Rightarrow> (nat \<times> byte) list \<Rightarrow> (nat \<times> byte) list \<Rightarrow> session \<Rightarrow> bool" where
  "ready m pre post s \<longleftrightarrow> \<not> s_closed s \<and> s_in s = pre @ post \<and>
     in_time m (s_idle s) (s_idle_at s) (s_budget_at s) (s_clock s) pre"

lemma deadline_before: "deadline s = Some d \<Longrightarrow> before (s_idle_at s) t \<Longrightarrow> before (s_budget_at s) t \<Longrightarrow> t < d"
  by (auto simp: deadline_def before_def split: option.splits)

lemma ready_write [simp]: "ready m pre post (sess_write p s) = ready m pre post s"
  by (simp add: ready_def sess_write_def)

lemma ready_ReadByte:
  assumes "ready m ((dt, b) # r) post s"
  shows "ReadByte s = (Inr b, s\<lparr>s_in := r @ post, s_clock := s_clock s + int dt\<rparr>)"
  using assms deadline_before [of s _ "s_clock s + int dt"] by (fastforce simp: ready_def ReadByte_def Let_def split: option.splits)

lemma ready_in:
  assumes "ready m ((dt, b) # r) post s" "m \<noteq> Ground"
  shows "\<exists>s'. ReadByte s = (Inr b, s') \<and> ready (next_mode m b) r post s' \<and> s_out s' = s_out s"
  using assms ready_ReadByte [OF assms(1)] by (simp add: ready_def)

lemma ready_ground:
  assumes "ready Ground ((dt, b) # r) post s"
  shows "\<exists>s'. ReadByte s = (Inr b, s') \<and> ready (next_mode Ground b) r post (resetIdle s') \<and> s_out s' = s_out s"
  using assms ready_ReadByte [OF assms]
  by (auto simp: ready_def resetIdle_def split: option.splits)

lemma ready_csi_tail:
  "ready InCSI pre post s \<Longrightarrow> skip_csi (map snd pre) \<noteq> [] \<Longrightarrow>
     \<exists>pre' s'. csi_tail s = (Inr (), s') \<and> ready Ground pre' post s' \<and> map snd pre' = skip_csi (map snd pre)
        \<and> s_out s' = s_out s \<and> length pre' < length pre"
proof (induction pre arbitrary: s)
  case (Cons p r)
  obtain dt b where p: "p = (dt, b)" by fastforce
  obtain s1 where s1: "ReadByte s = (Inr b, s1)" "ready (next_mode InCSI b) r post s1" "s_out s1 = s_out s"
    using ready_in [of InCSI dt b r post s] Cons.prems(1) p by auto
  show ?case
  proof (cases "b \<ge> 0x40 \<and> b \<le> 0x7E")
    case True
    then have "skip_csi (map snd (p # r)) = map snd r" using p by auto
    then show ?thesis using True s1 by (intro exI [of _ r] exI [of _ s1]) (simp add: csi_tail.simps [of s])
  next
    case False
    then have "skip_csi (map snd (p # r)) = skip_csi (map snd r)" "csi_tail s = csi_tail s1"
      using p s1 by (auto simp: csi_tail.simps [of s] not_less)
    then show ?thesis using Cons.IH [of s1] Cons.prems(2) s1 False by fastforce
  qed
qed simp

text \<open>After an ESC reading goes on behind the sequence.\<close>

lemma ready_escape:
  assumes "ready Ground ((dt, 0x1B) # r) post s" "skip_esc (map snd r) \<noteq> []"
  shows "\<exists>pre' s'. nextByte s = nextByte s' \<and> ready Ground pre' post s' \<and> map snd pre' = skip_esc (map snd r)
    \<and> s_out s' = s_out s \<and> length pre' < Suc (length r)"
proof -
  obtain s1 where s1: "ReadByte s = (Inr 0x1B, s1)" "ready Escaped r post (resetIdle s1)" "s_out s1 = s_out s"
    using ready_ground [OF assms(1)] by auto
  obtain e c r2 where r: "r = (e, c) # r2" using assms(2) by (cases r) (auto simp: skip_esc_def)
  obtain s2 where s2: "ReadByte (resetIdle s1) = (Inr c, s2)" "ready (next_mode Escaped c) r2 post s2" "s_out s2 = s_out s"
    using ready_in [of Escaped e c r2 post "resetIdle s1"] s1 r by auto
  show ?thesis
  proof (cases "c = 0x5B")
    case False
    then have "nextByte s = nextByte s2" "skip_esc (map snd r) = map snd r2"
      using s1 s2 r by (simp_all add: nextByte.simps [of s] skip_esc_def)
    then show ?thesis using s2 False r by (intro exI [of _ r2] exI [of _ s2]) simp
  next
    case True
    then have skip: "skip_esc (map snd r) = skip_csi (map snd r2)" using r by (simp add: skip_esc_def)
    with True s2 assms(2) obtain pre' s3 where s3: "csi_tail s2 = (Inr (), s3)" "ready Ground pre' post s3"
        "map snd pre' = skip_csi (map snd r2)" "s_out s3 = s_out s2" "length pre' < length r2"
      using ready_csi_tail [of r2 post s2] by auto
    moreover have "nextByte s = nextByte s3" using s1 s2 s3 True by (simp add: nextByte.simps [of s])
    ultimately show ?thesis using skip s2 r by (intro exI [of _ pre'] exI [of _ s3]) simp
  qed
qed

lemma ready_nextByte:
  "ready Ground pre post s \<Longrightarrow> stripANSI (map snd pre) = b # bs \<Longrightarrow>
     \<exists>pre' s'. nextByte s = (Inr b, s') \<and> ready Ground pre' post s' \<and> stripANSI (map snd pre') = bs \<and> s_out s' = s_out s"
proof (induction "length pre" arbitrary: pre s rule: less_induct)
  case less
  then obtain dt c r where pre: "pre = (dt, c) # r" by (cases pre) auto
  show ?case
  proof (cases "c = 0x1B")
    case False
    obtain s1 where "ReadByte s = (Inr c, s1)" "ready Ground r post (resetIdle s1)" "s_out s1 = s_out s"
      using ready_ground [of dt c r post s] less.prems(1) pre False by auto
    then show ?thesis using False less.prems(2) pre
      by (intro exI [of _ r] exI [of _ "resetIdle s1"]) (simp add: nextByte.simps [of s])
  next
    case True
    then have st: "stripANSI (skip_esc (map snd r)) = b # bs" using less.prems(2) pre by simp
    then have "skip_esc (map snd r) \<noteq> []" by auto
    with less.prems(1) True pre obtain pre' s' where "nextByte s = nextByte s'" "ready Ground pre' post s'"
        "map snd pre' = skip_esc (map snd r)" "s_out s' = s_out s" "length pre' < length pre"
      using ready_escape [of dt r post s] by auto
    then show ?thesis using less.hyps [of pre' s'] st by auto
  qed
qed

subsection \<open>Line editing as a fold\<close>

text \<open>The reference definition of the readers: one keystroke applied to the edit buffer.\<close>

definition edit_key :: "bytes \<Rightarrow> byte \<Rightarrow> bytes" where
  "edit_key buf b =
     (if b = 0x08 \<or> b = 0x7F then butlast buf else if b < 0x20 then buf
      else if length buf < MaxLineLen then buf @ [b] else buf)"

definition is_eol :: "byte \<Rightarrow> bool" where
  "is_eol b \<longleftrightarrow> b = 13 \<or> b = 10"

lemma line_loop_step:
  assumes "nextByte s = (Inr b, s1)" "\<not> is_eol b"
  shows "\<exists>p. line_loop buf s = line_loop (edit_key buf b) (sess_write p s1)"
proof -
  have w: "sess_write [] s1 = s1" by (simp add: sess_write_def)
  have neq: "b \<noteq> 13" "b \<noteq> 10" using assms(2) by (auto simp: is_eol_def)
  consider (erase) "b = 8 \<or> b = 0x7F" "buf \<noteq> []"
    | (add) "\<not> (b = 8 \<or> b = 0x7F)" "\<not> b < 0x20" "length buf < MaxLineLen"
    | (same) "(b = 8 \<or> b = 0x7F) \<and> buf = [] \<or> \<not> (b = 8 \<or> b = 0x7F) \<and> (b < 0x20 \<or> \<not> length buf < MaxLineLen)"
    by blast
  then show ?thesis
  proof cases
    case erase
    then show ?thesis using assms neq by (intro exI [of _ "[8, 32, 8]"])
      (simp add: line_loop.simps [of buf s] edit_key_def)
  next
    case add
    then show ?thesis using assms neq by (intro exI [of _ "[b]"])
      (simp add: line_loop.simps [of buf s] edit_key_def)
  next
    case same
    then have "line_loop buf s = line_loop (edit_key buf b) s1"
      using assms neq by (auto simp: line_loop.simps [of buf s] edit_key_def)
    then show ?thesis by (metis w)
  qed
qed

lemma password_loop_step:
  assumes "nextByte s = (Inr b, s1)" "\<not> is_eol b"
  shows "password_loop buf s = password_loop (edit_key buf b) s1"
  using assms by (auto simp: password_loop.simps [of buf s] edit_key_def is_eol_def)

lemma line_loop_ready:
  assumes "ready Ground pre post s" "stripANSI (map snd pre) = ks @ c # rest" "is_eol c" "\<forall>k\<in>set ks. \<not> is_eol k"
  shows "\<exists>pre' s'. line_loop buf s = (Inr (foldl edit_key buf ks), s') \<and> ready Ground pre' post s'
     \<and> stripANSI (map snd pre') = rest"
  using assms
proof (induction ks arbitrary: pre s buf)
  case Nil
  then obtain pre' s1 where "nextByte s = (Inr c, s1)" "ready Ground pre' post s1" "stripANSI (map snd pre') = rest"
    using ready_nextByte [of pre post s c rest] by auto
  then show ?case using Nil by (auto simp: line_loop.simps [of buf s] is_eol_def)
next
  case (Cons k ks)
  then obtain pre' s1 where s1: "nextByte s = (Inr k, s1)" "ready Ground pre' post s1" "stripANSI (map snd pre') = ks @ c # rest"
    using ready_nextByte [of pre post s k "ks @ c # rest"] by auto
  then obtain p where "line_loop buf s = line_loop (edit_key buf k) (sess_write p s1)"
    using line_loop_step [of s k s1 buf] Cons.prems(4) by auto
  then show ?case using Cons.IH [of pre' "sess_write p s1"] Cons.prems s1 by simp
qed

lemma password_loop_ready:
  assumes "ready Ground pre post s" "stripANSI (map snd pre) = ks @ c # rest" "is_eol c" "\<forall>k\<in>set ks. \<not> is_eol k"
  shows "\<exists>pre' s'. password_loop buf s = (Inr (foldl edit_key buf ks), s') \<and> ready Ground pre' post s'
     \<and> stripANSI (map snd pre') = rest \<and> s_out s' = s_out s @ [13, 10]"
  using assms
proof (induction ks arbitrary: pre s buf)
  case Nil
  then obtain pre' s1 where "nextByte s = (Inr c, s1)" "ready Ground pre' post s1" "stripANSI (map snd pre') = rest" "s_out s1 = s_out s"
    using ready_nextByte [of pre post s c rest] by auto
  moreover from this(2) have "\<not> s_closed s1" by (simp add: ready_def)
  ultimately show ?case
    using Nil by (intro exI [of _ pre'] exI [of _ "sess_write [13, 10] s1"])
      (auto simp: password_loop.simps [of buf s] is_eol_def sess_write_def ready_def)
next
  case (Cons k ks)
  then obtain pre' s1 where s1: "nextByte s = (Inr k, s1)" "ready Ground pre' post s1" "stripANSI (map snd pre') = ks @ c # rest"
      "s_out s1 = s_out s"
    using ready_nextByte [of pre post s k "ks @ c # rest"] by auto
  then show ?case
    using Cons.IH [of pre' s1] Cons.prems password_loop_step [of s k s1 buf] by simp
qed

lemma foldl_edit_bound:
  "length buf \<le> MaxLineLen \<Longrightarrow> length (foldl edit_key buf ks) \<le> MaxLineLen"
proof (induction ks arbitrary: buf)
  case (Cons k ks)
  have "length (edit_key buf k) \<le> MaxLineLen" using Cons.prems by (auto simp: edit_key_def)
  then show ?case using Cons.IH by simp
qed simp

subsection \<open>What the readers guarantee on every session\<close>

definition textual :: "byte \<Rightarrow> bool" where
  "textual b \<longleftrightarrow> 0x20 \<le> b \<and> b \<noteq> 0x7F"

lemma edit_key_textual:
  "length buf \<le> MaxLineLen \<and> (\<forall>b\<in>set buf. textual b) \<Longrightarrow>
   length (edit_key buf k) \<le> MaxLineLen \<and> (\<forall>b\<in>set (edit_key buf k). textual b)"
  by (auto simp: edit_key_def textual_def not_less dest: in_set_butlastD)

text \<open>Time never runs past the budget deadline while bytes are still delivered.\<close>

definition in_budget :: "session \<Rightarrow> bool" where
  "in_budget s \<longleftrightarrow> (\<forall>d. s_budget_at s = Some d \<longrightarrow> s_clock s < d)"

lemma deadline_le_budget: "s_budget_at s = Some d \<Longrightarrow> \<exists>d'. deadline s = Some d' \<and> d' \<le> d"
  by (auto simp: deadline_def split: option.splits)

lemma ReadByte_in_budget: "ReadByte s = (Inr b, s') \<Longrightarrow> in_budget s'"
  by (erule ReadByte_Inr) (metis deadline_le_budget in_budget_def order_less_le_trans)

lemma resetIdle_in_budget: "in_budget (resetIdle s) = in_budget s"
  by (simp add: in_budget_def)

lemma write_in_budget: "in_budget (sess_write p s) = in_budget s"
  by (simp add: in_budget_def)

lemma nextByte_in_budget: "nextByte s = (Inr b, s') \<Longrightarrow> in_budget s'"
proof (induction s rule: nextByte.induct)
  case (1 s)
  show ?case
    using 1(3)
    by (auto simp: nextByte.simps [of s] resetIdle_in_budget
        split: prod.splits sum.splits if_splits dest: ReadByte_in_budget intro: 1)
qed

lemma line_loop_ok:
  assumes "line_loop buf s = (Inr l, s')" "length buf \<le> MaxLineLen" "\<forall>b\<in>set buf. textual b"
  shows "length l \<le> MaxLineLen \<and> (\<forall>b\<in>set l. textual b) \<and> in_budget s'
     \<and> suffix (s_in s') (s_in s) \<and> length (s_in s') < length (s_in s)"
  using assms
proof (induction "length (s_in s)" arbitrary: buf s rule: less_induct)
  case less
  obtain b s1 where b: "nextByte s = (Inr b, s1)"
    using less.prems(1) by (auto simp: line_loop.simps [of buf s] split: prod.splits sum.splits)
  then have s1: "suffix (s_in s1) (s_in s)" "length (s_in s1) < length (s_in s)" "in_budget s1"
    using nextByte_Inr [OF b] nextByte_in_budget [OF b] by (auto simp: reads_def)
  show ?case
  proof (cases "is_eol b")
    case True
    then have "l = buf" "s' = sess_write [13, 10] s1"
      using less.prems(1) b by (auto simp: line_loop.simps [of buf s] is_eol_def)
    then show ?thesis using less.prems s1 by (simp add: write_in_budget)
  next
    case False
    then obtain p where "line_loop (edit_key buf b) (sess_write p s1) = (Inr l, s')"
      using line_loop_step [OF b False, of buf] less.prems(1) by auto
    then show ?thesis
      using less.hyps [of "sess_write p s1" "edit_key buf b"] edit_key_textual [of buf b]
        less.prems(2,3) s1 by (auto intro: suffix_order.trans)
  qed
qed

lemma password_loop_ok:
  assumes "password_loop buf s = (Inr l, s')" "length buf \<le> MaxLineLen" "\<forall>b\<in>set buf. textual b"
  shows "length l \<le> MaxLineLen \<and> (\<forall>b\<in>set l. textual b) \<and> in_budget s'
     \<and> suffix (s_in s') (s_in s) \<and> length (s_in s') < length (s_in s)"
  using assms
proof (induction "length (s_in s)" arbitrary: buf s rule: less_induct)
  case less
  obtain b s1 where b: "nextByte s = (Inr b, s1)"
    using less.prems(1) by (auto simp: password_loop.simps [of buf s] split: prod.splits sum.splits)
  then have s1: "suffix (s_in s1) (s_in s)" "length (s_in s1) < length (s_in s)" "in_budget s1"
    using nextByte_Inr [OF b] nextByte_in_budget [OF b] by (auto simp: reads_def)
  show ?case
  proof (cases "is_eol b")
    case True
    then have "l = buf" "s' = sess_write [13, 10] s1"
      using less.prems(1) b by (auto simp: password_loop.simps [of buf s] is_eol_def)
    then show ?thesis using less.prems s1 by (simp add: write_in_budget)
  next
    case False
    then show ?thesis
      using less.hyps [of s1 "edit_key buf b"] edit_key_textual [of buf b]
        password_loop_step [OF b False, of buf] less.prems s1
      by (auto intro: suffix_order.trans)
  qed
qed

section \<open>Reading does not depend on what was written\<close>

definition same_input :: "session \<Rightarrow> session \<Rightarrow> bool" where
  "same_input s t \<longleftrightarrow> (\<exists>p. t = s\<lparr>s_out := p\<rparr>)"

lemma same_input_refl [simp]: "same_input s s"
  by (auto simp: same_input_def intro: exI [of _ "s_out s"])

lemma same_input_trans: "same_input s t \<Longrightarrow> same_input t u \<Longrightarrow> same_input s u"
  by (auto simp: same_input_def)

lemma same_input_write: "same_input s (sess_write p s)"
  by (auto simp: same_input_def sess_write_def intro: exI [of _ "s_out s"])

lemma same_input_write2: "same_input s t \<Longrightarrow> same_input (sess_write p s) (sess_write q t)"
  by (auto simp: same_input_def sess_write_def)

lemma ReadByte_out: "ReadByte (s\<lparr>s_out := p\<rparr>) = (fst (ReadByte s), (snd (ReadByte s))\<lparr>s_out := p\<rparr>)"
  by (auto simp: ReadByte_def deadline_def Let_def split: list.splits option.splits)

lemma resetIdle_out: "resetIdle (s\<lparr>s_out := p\<rparr>) = (resetIdle s)\<lparr>s_out := p\<rparr>"
  by (auto simp: resetIdle_def split: option.splits)

lemma csi_tail_out: "csi_tail (s\<lparr>s_out := p\<rparr>) = (fst (csi_tail s), (snd (csi_tail s))\<lparr>s_out := p\<rparr>)"
proof (induction s rule: csi_tail.induct)
  case (1 s)
  obtain r t where r: "ReadByte s = (r, t)" by fastforce
  then show ?case
    using 1 [OF r [symmetric]] by (cases r) (auto simp: csi_tail.simps [of s] csi_tail.simps [of "s\<lparr>s_out := p\<rparr>"] ReadByte_out)
qed

lemma nextByte_out: "nextByte (s\<lparr>s_out := p\<rparr>) = (fst (nextByte s), (snd (nextByte s))\<lparr>s_out := p\<rparr>)"
proof (induction s rule: nextByte.induct)
  case (1 s)
  let ?s = "s\<lparr>s_out := p\<rparr>"
  obtain r t where r: "ReadByte s = (r, t)" by fastforce
  show ?case
  proof (cases r)
    case (Inr b)
    obtain q t2 where q: "ReadByte (resetIdle t) = (q, t2)" by fastforce
    obtain z t3 where z: "csi_tail t2 = (z, t3)" by fastforce
    show ?thesis
      using 1(1) [OF r [symmetric] Inr _ q [symmetric] _ _ z [symmetric]] 1(2) [OF r [symmetric] Inr _ q [symmetric]] r Inr q z
      by (auto simp: nextByte.simps [of s] nextByte.simps [of ?s] ReadByte_out resetIdle_out csi_tail_out split: sum.splits)
  qed (simp add: nextByte.simps [of s] nextByte.simps [of ?s] ReadByte_out r)
qed

lemma line_loop_out:
  "same_input s t \<Longrightarrow> fst (line_loop buf t) = fst (line_loop buf s) \<and> same_input (snd (line_loop buf s)) (snd (line_loop buf t))"
proof (induction "length (s_in s)" arbitrary: buf s t rule: less_induct)
  case less
  then obtain p where t: "t = s\<lparr>s_out := p\<rparr>" by (auto simp: same_input_def)
  obtain r s1 where r: "nextByte s = (r, s1)" by fastforce
  then have rt: "nextByte t = (r, s1\<lparr>s_out := p\<rparr>)" by (simp add: t nextByte_out)
  have si: "same_input s1 (s1\<lparr>s_out := p\<rparr>)" by (auto simp: same_input_def)
  show ?case
  proof (cases r)
    case (Inl e)
    then show ?thesis using r rt si by (simp add: line_loop.simps [of buf s] line_loop.simps [of buf t])
  next
    case (Inr b)
    show ?thesis
    proof (cases "is_eol b")
      case True
      then show ?thesis using r rt Inr same_input_write2 [OF si] by (auto simp: line_loop.simps [of buf s] line_loop.simps [of buf t] is_eol_def)
    next
      case False
      obtain x y where "line_loop buf s = line_loop (edit_key buf b) (sess_write x s1)"
        "line_loop buf t = line_loop (edit_key buf b) (sess_write y (s1\<lparr>s_out := p\<rparr>))"
        using line_loop_step [OF r [unfolded Inr] False, of buf] line_loop_step [OF rt [unfolded Inr] False, of buf] by auto
      then show ?thesis using less.hyps [OF _ same_input_write2 [OF si]] nextByte_length' [of b s1 s] r Inr by simp
    qed
  qed
qed

lemma password_loop_out:
  "same_input s t \<Longrightarrow> fst (password_loop buf t) = fst (password_loop buf s) \<and> same_input (snd (password_loop buf s)) (snd (password_loop buf t))"
proof (induction "length (s_in s)" arbitrary: buf s t rule: less_induct)
  case less
  then obtain p where t: "t = s\<lparr>s_out := p\<rparr>" by (auto simp: same_input_def)
  obtain r s1 where r: "nextByte s = (r, s1)" by fastforce
  then have rt: "nextByte t = (r, s1\<lparr>s_out := p\<rparr>)" by (simp add: t nextByte_out)
  have si: "same_input s1 (s1\<lparr>s_out := p\<rparr>)" by (auto simp: same_input_def)
  show ?case
  proof (cases r)
    case (Inl e)
    then show ?thesis using r rt si by (simp add: password_loop.simps [of buf s] password_loop.simps [of buf t])
  next
    case (Inr b)
    show ?thesis
    proof (cases "is_eol b")
      case True
      then show ?thesis using r rt Inr same_input_write2 [OF si] by (auto simp: password_loop.simps [of buf s] password_loop.simps [of buf t] is_eol_def)
    next
      case False
      then show ?thesis using less.hyps [OF _ si] nextByte_length' [of b s1 s] r rt Inr
          password_loop_step [OF _ False, of s s1 buf] password_loop_step [OF _ False, of t "s1\<lparr>s_out := p\<rparr>" buf] by simp
    qed
  qed
qed

lemma readers_out:
  assumes "same_input s t"
  shows "fst (ReadLine t) = fst (ReadLine s)" "same_input (snd (ReadLine s)) (snd (ReadLine t))"
    "fst (ReadPassword t) = fst (ReadPassword s)" "same_input (snd (ReadPassword s)) (snd (ReadPassword t))"
  using line_loop_out [OF assms] password_loop_out [OF assms] by (simp_all add: ReadLine_def ReadPassword_def)

text \<open>The first passwords the caller enters, until a read fails: a function of the input alone.\<close>

fun pw_entries :: "nat \<Rightarrow> session \<Rightarrow> bytes list" where
  "pw_entries 0 s = []"
| "pw_entries (Suc n) s = (case ReadPassword s of (Inl e, s') \<Rightarrow> [] | (Inr pw, s') \<Rightarrow> pw # pw_entries n s')"

section \<open>The watchdogs\<close>

text \<open>What a menu does with its session between two moments: it reads, it writes, the
  window changes.\<close>

datatype sess_op = OpKey | OpLine | OpPassword | OpWrite bytes | OpColorblind bool | OpResize int int

fun sess_do :: "sess_op \<Rightarrow> session \<Rightarrow> session" where
  "sess_do OpKey s = snd (ReadKey s)"
| "sess_do OpLine s = snd (ReadLine s)"
| "sess_do OpPassword s = snd (ReadPassword s)"
| "sess_do (OpWrite p) s = sess_write p s"
| "sess_do (OpColorblind on) s = SetColorblind on s"
| "sess_do (OpResize cols rows) s = trackResize cols rows s"

definition sess_run :: "sess_op list \<Rightarrow> session \<Rightarrow> session" where
  "sess_run ops s = fold sess_do ops s"

text \<open>Both watchdogs are armed: the idle one \<open>d\<close> behind the clock, which stands at the
  arrival of the last byte, the other at a fixed instant.\<close>

definition armed :: "int \<Rightarrow> int \<Rightarrow> session \<Rightarrow> bool" where
  "armed d e s \<longleftrightarrow> s_closed s \<or> s_idle s = d \<and> s_budget_at s = Some e \<and> (s_in s = [] \<or> s_idle_at s = Some (s_clock s + d))"

lemma ReadByte_keeps: "s_idle (snd (ReadByte s)) = s_idle s" "s_budget_at (snd (ReadByte s)) = s_budget_at s"
  by (auto simp: ReadByte_def Let_def split: list.splits option.splits)

lemma ReadByte_fails: "ReadByte s = (Inl e, s') \<Longrightarrow> s_closed s' \<or> s_in s' = []"
  by (auto simp: ReadByte_def Let_def split: if_splits list.splits option.splits)

text \<open>In the middle of an escape sequence only the budget and the idle period are known.\<close>

definition half_armed :: "int \<Rightarrow> int \<Rightarrow> session \<Rightarrow> bool" where
  "half_armed d e s \<longleftrightarrow> s_idle s = d \<and> s_budget_at s = Some e \<and> s_idle_at s \<noteq> None"

lemma half_armed_ReadByte: "half_armed d e s \<Longrightarrow> ReadByte s = (r, s') \<Longrightarrow> half_armed d e s'"
  by (auto simp: half_armed_def ReadByte_def Let_def split: if_splits list.splits option.splits)

lemma half_armed_csi: "csi_tail s = (r, s') \<Longrightarrow> half_armed d e s \<Longrightarrow> half_armed d e s' \<and> (isl r \<longrightarrow> s_closed s' \<or> s_in s' = [])"
proof (induction s rule: csi_tail.induct)
  case (1 s)
  obtain q s1 where q: "ReadByte s = (q, s1)" by fastforce
  show ?case
    using 1 q half_armed_ReadByte [OF _ q] by (auto simp: csi_tail.simps [of s] dest: ReadByte_fails split: sum.splits if_splits)
qed

lemma half_armed_nextByte:
  "nextByte s = (r, s') \<Longrightarrow> half_armed d e s \<Longrightarrow> half_armed d e s' \<and> armed d e s'"
proof (induction s rule: nextByte.induct)
  case (1 s)
  obtain q s1 where q: "ReadByte s = (q, s1)" by fastforce
  have h1: "half_armed d e s1" by (rule half_armed_ReadByte [OF 1(4) q])
  have hr: "half_armed d e (resetIdle s1)" "armed d e (resetIdle s1)"
    using h1 by (auto simp: half_armed_def armed_def resetIdle_def)
  show ?case
  proof (cases q)
    case (Inl x)
    then show ?thesis using 1(3) q h1 ReadByte_fails by (fastforce simp: nextByte.simps [of s] armed_def half_armed_def)
  next
    case (Inr b)
    obtain q2 s2 where q2: "ReadByte (resetIdle s1) = (q2, s2)" by fastforce
    have h2: "half_armed d e s2" by (rule half_armed_ReadByte [OF hr(1) q2])
    obtain q3 s3 where q3: "csi_tail s2 = (q3, s3)" by fastforce
    have h3: "half_armed d e s3" "isl q3 \<longrightarrow> s_closed s3 \<or> s_in s3 = []" using half_armed_csi [OF q3 h2] by auto
    show ?thesis
      using 1(1,2,3) q Inr q2 q3 h2 h3 hr ReadByte_fails [of "resetIdle s1" _ s2]
      by (auto simp: nextByte.simps [of s] armed_def half_armed_def split: sum.splits if_splits)
  qed
qed

lemma half_armed_write: "half_armed d e (sess_write p s) = half_armed d e s" "armed d e (sess_write p s) = armed d e s"
  by (simp_all add: half_armed_def armed_def sess_write_def)

lemma half_armed_line_loop: "line_loop buf s = (r, s') \<Longrightarrow> half_armed d e s \<Longrightarrow> half_armed d e s' \<and> armed d e s'"
proof (induction "length (s_in s)" arbitrary: buf s rule: less_induct)
  case less
  obtain q s1 where q: "nextByte s = (q, s1)" by fastforce
  have h1: "half_armed d e s1" "armed d e s1" using half_armed_nextByte [OF q less.prems(2)] by auto
  show ?case
  proof (cases q)
    case (Inl x)
    then show ?thesis using less.prems q h1 by (simp add: line_loop.simps [of buf s])
  next
    case (Inr b)
    show ?thesis
    proof (cases "is_eol b")
      case True
      then show ?thesis using less.prems(1) q Inr h1 by (auto simp: line_loop.simps [of buf s] is_eol_def half_armed_write)
    next
      case False
      obtain p where "line_loop (edit_key buf b) (sess_write p s1) = (r, s')"
        using line_loop_step [OF _ False, of s s1 buf] q Inr less.prems(1) by auto
      then show ?thesis using less.hyps [of "sess_write p s1"] h1 nextByte_length' [of b s1 s] q Inr by (simp add: half_armed_write)
    qed
  qed
qed

lemma half_armed_password_loop: "password_loop buf s = (r, s') \<Longrightarrow> half_armed d e s \<Longrightarrow> half_armed d e s' \<and> armed d e s'"
proof (induction "length (s_in s)" arbitrary: buf s rule: less_induct)
  case less
  obtain q s1 where q: "nextByte s = (q, s1)" by fastforce
  have h1: "half_armed d e s1" "armed d e s1" using half_armed_nextByte [OF q less.prems(2)] by auto
  show ?case
  proof (cases q)
    case (Inl x)
    then show ?thesis using less.prems q h1 by (simp add: password_loop.simps [of buf s])
  next
    case (Inr b)
    show ?thesis
    proof (cases "is_eol b")
      case True
      then show ?thesis using less.prems(1) q Inr h1 by (auto simp: password_loop.simps [of buf s] is_eol_def half_armed_write)
    next
      case False
      then show ?thesis using less.hyps [of s1] less.prems(1) h1 nextByte_length' [of b s1 s] q Inr
          password_loop_step [OF _ False, of s s1 buf] by simp
    qed
  qed
qed

lemma half_armed_ReadKey: "ReadKey s = (r, s') \<Longrightarrow> half_armed d e s \<Longrightarrow> half_armed d e s' \<and> armed d e s'"
proof (induction s rule: ReadKey.induct)
  case (1 s)
  obtain q s1 where q: "nextByte s = (q, s1)" by fastforce
  have "half_armed d e s1 \<and> armed d e s1" by (rule half_armed_nextByte [OF q 1(3)])
  then show ?case using 1 q by (auto simp: ReadKey.simps [of s] split: sum.splits if_splits)
qed

lemma half_armed_do:
  assumes "half_armed d e s" "armed d e s"
  shows "half_armed d e (sess_do a s) \<and> armed d e (sess_do a s)"
proof (cases a)
  case OpKey
  then show ?thesis using half_armed_ReadKey [of s _ _ d e] assms by (metis prod.collapse sess_do.simps(1))
next
  case OpLine
  then show ?thesis using half_armed_line_loop [of "[]" s _ _ d e] assms by (metis ReadLine_def prod.collapse sess_do.simps(2))
next
  case OpPassword
  then show ?thesis using half_armed_password_loop [of "[]" s _ _ d e] assms by (metis ReadPassword_def prod.collapse sess_do.simps(3))
qed (use assms in \<open>auto simp: half_armed_def armed_def sess_write_def SetColorblind_def trackResize_def Let_def\<close>)

lemma half_armed_run: "half_armed d e s \<Longrightarrow> armed d e s \<Longrightarrow> half_armed d e (sess_run ops s) \<and> armed d e (sess_run ops s)"
  unfolding sess_run_def by (induction ops arbitrary: s) (use half_armed_do in \<open>simp_all\<close>)

lemma expired_nextByte:
  assumes "s_in s = (dt, b) # rest" "\<not> s_closed s" "deadline s = Some d" "d \<le> s_clock s + int dt"
  shows "nextByte s = (Inl ErrEOF, s\<lparr>s_closed := True, s_clock := max (s_clock s) d\<rparr>)"
  using assms by (simp add: nextByte.simps [of s] ReadByte_def)

section \<open>Properties\<close>

definition demo_session :: "(nat \<times> byte) list \<Rightarrow> session" where
  "demo_session bs = \<lparr>s_id = [], s_transport = [], s_username = [], s_ip = [], s_clock = 0, s_start = 0,
     s_in = bs, s_out = [], s_closed = False,
     s_cap = \<lparr>cap_ansi = True, cap_cp437 = True, cap_cols = 80, cap_rows = 0\<rparr>,
     s_idle = 0, s_idle_at = None, s_budget_at = None, s_colorblind = False\<rparr>"

text \<open>On every session, with or without watchdogs, a line or password that is
  returned has at most 4096 bytes, holds no control byte, DEL or ESC, was read strictly
  before the time-budget deadline, and consumed a non-empty prefix of the input.\<close>

theorem readers_bounded:
  assumes "ReadLine s = (Inr l, s') \<or> ReadPassword s = (Inr l, s')"
  shows "length l \<le> 4096 \<and> (\<forall>b\<in>set l. textual b) \<and> in_budget s' \<and> length (s_in s') < length (s_in s)"
  using assms line_loop_ok [of "[]" s l s'] password_loop_ok [of "[]" s l s']
  by (auto simp: ReadLine_def ReadPassword_def MaxLineLen_def)

theorem readers_bounded_witness:
  "\<exists>s'. ReadLine (demo_session [(1, 65), (1, 7), (1, 13)]) = (Inr [65], s')
     \<and> length [65 :: byte] \<le> 4096 \<and> length (s_in s') < 3"
proof -
  let ?s = "demo_session [(1, 65), (1, 7), (1, 13)]"
  obtain s' where s': "ReadLine ?s = (Inr [65], s')"
    using line_loop_ready [of "s_in ?s" "[]" ?s "[65, 7]" 13 "[]" "[]"]
    by (auto simp: ready_def before_def demo_session_def is_eol_def edit_key_def MaxLineLen_def ReadLine_def)
  then show ?thesis using readers_bounded [of ?s "[65]" s'] by (simp add: demo_session_def)
qed

text \<open>C26: functional behaviour of the two line readers, on a session with or without
  watchdogs: if the next bytes \<open>pre\<close> of an open session arrive before the watchdogs fire,
  and are, escape sequences removed, \<open>ks\<close> followed by CR or LF, then both readers return the
  result of applying the keystrokes \<open>ks\<close> in turn to an empty buffer, which has at most 4096
  bytes, and leave exactly what follows the line end; the password reader writes nothing but
  the final line break.\<close>

theorem readers_functional:
  assumes "\<not> s_closed s" "s_in s = pre @ post"
    "in_time Ground (s_idle s) (s_idle_at s) (s_budget_at s) (s_clock s) pre"
    "stripANSI (map snd pre) = ks @ c # rest" "c = 13 \<or> c = 10" "13 \<notin> set ks" "10 \<notin> set ks"
  shows "(\<exists>s' pre'. ReadLine s = (Inr (foldl edit_key [] ks), s') \<and> s_in s' = pre' @ post \<and> stripANSI (map snd pre') = rest)
     \<and> (\<exists>s' pre'. ReadPassword s = (Inr (foldl edit_key [] ks), s') \<and> s_in s' = pre' @ post \<and> stripANSI (map snd pre') = rest
            \<and> s_out s' = s_out s @ [13, 10])
     \<and> length (foldl edit_key [] ks) \<le> 4096"
proof -
  have "\<forall>k\<in>set ks. \<not> is_eol k" "is_eol c" using assms(5,6,7) by (auto simp: is_eol_def)
  moreover have "ready Ground pre post s" using assms(1,2,3) by (simp add: ready_def)
  ultimately have "\<exists>pre' s'. ReadLine s = (Inr (foldl edit_key [] ks), s') \<and> ready Ground pre' post s' \<and> stripANSI (map snd pre') = rest"
    "\<exists>pre' s'. ReadPassword s = (Inr (foldl edit_key [] ks), s') \<and> ready Ground pre' post s'
       \<and> stripANSI (map snd pre') = rest \<and> s_out s' = s_out s @ [13, 10]"
    using line_loop_ready [of pre post s ks c rest "[]"] password_loop_ready [of pre post s ks c rest "[]"] assms(4)
    by (simp_all add: ReadLine_def ReadPassword_def)
  moreover have "length (foldl edit_key [] ks) \<le> 4096" using foldl_edit_bound [of "[]" ks] by (simp add: MaxLineLen_def)
  ultimately show ?thesis by (auto simp: ready_def)
qed

theorem readers_functional_witness:
  "\<exists>s'. ReadPassword (WatchBudget 50 (WatchIdle 10 (demo_session [(9, 97), (9, 98), (9, 0x7F), (9, 99), (9, 13), (70, 1)]))) =
       (Inr [97, 99], s') \<and> s_out s' = [13, 10]"
proof -
  let ?p = "[(9, 97), (9, 98), (9, 0x7F), (9, 99), (9, 13)] :: (nat \<times> byte) list"
  let ?s = "WatchBudget 50 (WatchIdle 10 (demo_session (?p @ [(70, 1)])))"
  have "\<not> s_closed ?s" "s_in ?s = ?p @ [(70, 1)]"
    "in_time Ground (s_idle ?s) (s_idle_at ?s) (s_budget_at ?s) (s_clock ?s) ?p"
    "stripANSI (map snd ?p) = [97, 98, 0x7F, 99] @ 13 # []"
    by (simp_all add: demo_session_def WatchIdle_def WatchBudget_def before_def)
  from readers_functional [OF this] show ?thesis
    by (auto simp: demo_session_def WatchIdle_def WatchBudget_def edit_key_def MaxLineLen_def)
qed



end
