(* ===== verification/Xmodem.thy ===== *)
theory Xmodem
  imports Prelude
begin

text \<open>
  XMODEM-CRC file transfer, \<open>xfer/xmodem.go\<close>: the CRC-16, the block sender with its
  retries, the receiver with its size cap, and the padding rule. The two ends talk
  through an \<open>io.ReadWriter\<close>: \<open>x_in\<close> is what the peer still sends (its end is the
  peer hanging up), \<open>x_out\<close> what was written to it, \<open>x_wleft\<close> after how many more
  writes the wire fails (\<open>None\<close>: never). The receive loop ends because each round
  consumes input; the retry loops count down from \<open>maxRetries\<close>.
\<close>

unbundle bit_operations_syntax

section \<open>The checksum\<close>

definition crc_bit :: "16 word \<Rightarrow> 16 word" where
  "crc_bit c = (if c AND 0x8000 \<noteq> 0 then push_bit 1 c XOR 0x1021 else push_bit 1 c)"

definition crc_byte :: "16 word \<Rightarrow> byte \<Rightarrow> 16 word" where
  "crc_byte c b = (crc_bit ^^ 8) (c XOR push_bit 8 (ucast b))"

definition crc16 :: "bytes \<Rightarrow> 16 word" where
  "crc16 data = foldl crc_byte 0 data"

definition crc_hi :: "16 word \<Rightarrow> byte" where "crc_hi c = ucast (drop_bit 8 c)"
definition crc_lo :: "16 word \<Rightarrow> byte" where "crc_lo c = ucast c"

section \<open>The wire\<close>

record xio =
  x_in :: bytes
  x_out :: bytes
  x_wleft :: "nat option"

definition soh :: byte where "soh = 0x01"
definition eot :: byte where "eot = 0x04"
definition ack :: byte where "ack = 0x06"
definition nak :: byte where "nak = 0x15"
definition can :: byte where "can = 0x18"
definition sub :: byte where "sub = 0x1A"
definition crc_req :: byte where "crc_req = 0x43"

lemmas xbytes = soh_def eot_def ack_def nak_def can_def sub_def crc_req_def

definition maxRetries :: nat where "maxRetries = 10"

definition x_write :: "bytes \<Rightarrow> (xio, unit) prog" where
  "x_write p s = (case x_wleft s of
     Some 0 \<Rightarrow> (Inl ErrIO, s)
   | Some (Suc n) \<Rightarrow> (Inr (), s\<lparr>x_out := x_out s @ p, x_wleft := Some n\<rparr>)
   | None \<Rightarrow> (Inr (), s\<lparr>x_out := x_out s @ p\<rparr>))"

definition readByte :: "(xio, byte) prog" where
  "readByte s = (case x_in s of [] \<Rightarrow> (Inl ErrEOF, s) | b # r \<Rightarrow> (Inr b, s\<lparr>x_in := r\<rparr>))"

definition ReadFull :: "nat \<Rightarrow> (xio, bytes) prog" where
  "ReadFull n s = (if length (x_in s) < n then (Inl ErrEOF, s\<lparr>x_in := []\<rparr>)
     else (Inr (take n (x_in s)), s\<lparr>x_in := drop n (x_in s)\<rparr>))"

section \<open>Sending\<close>

text \<open>Waiting for the receiver: \<open>left\<close> counts the junk bytes still tolerated.\<close>

fun wait_start :: "nat \<Rightarrow> (xio, bool) prog" where
  "wait_start left s = (case readByte s of (Inl e, s1) \<Rightarrow> (Inl e, s1)
     | (Inr b, s1) \<Rightarrow>
         if b = crc_req then (Inr True, s1)
         else if b = nak then (Inr False, s1)
         else if b = can then (Inl ErrCanceled, s1)
         else (case left of 0 \<Rightarrow> (Inl ErrNoStart, s1) | Suc l \<Rightarrow> wait_start l s1))"

declare wait_start.simps [simp del]

definition block_frame :: "byte \<Rightarrow> bytes \<Rightarrow> bool \<Rightarrow> bytes" where
  "block_frame block chunk useCRC = [soh, block, 255 - block] @ chunk @
     (if useCRC then [crc_hi (crc16 chunk), crc_lo (crc16 chunk)] else [sum_list chunk])"

fun send_try :: "nat \<Rightarrow> bytes \<Rightarrow> (xio, unit) prog" where
  "send_try 0 frame s = (Inl ErrNoAck, s)"
| "send_try (Suc left) frame s = (case x_write frame s of (Inl e, s1) \<Rightarrow> (Inl e, s1)
     | (Inr u, s1) \<Rightarrow> (case readByte s1 of (Inl e, s2) \<Rightarrow> (Inl e, s2)
         | (Inr b, s2) \<Rightarrow> if b = ack then (Inr (), s2)
             else if b = can then (Inl ErrCanceled, s2)
             else send_try left frame s2))"

definition sendBlock :: "byte \<Rightarrow> bytes \<Rightarrow> bool \<Rightarrow> (xio, unit) prog" where
  "sendBlock block chunk useCRC = send_try maxRetries (block_frame block chunk useCRC)"

definition pad_chunk :: "bytes \<Rightarrow> bytes" where
  "pad_chunk data = take 128 data @ replicate (128 - length (take 128 data)) sub"

text \<open>\<open>data\<close> is the part of the file from offset \<open>off\<close> on.\<close>

function send_blocks :: "byte \<Rightarrow> bool \<Rightarrow> bytes \<Rightarrow> (xio, unit) prog" where
  "send_blocks block useCRC data s =
     (case sendBlock block (pad_chunk data) useCRC s of (Inl e, s1) \<Rightarrow> (Inl e, s1)
      | (Inr u, s1) \<Rightarrow> if length data \<le> 128 then (Inr (), s1)
          else send_blocks (block + 1) useCRC (drop 128 data) s1)"
  by pat_completeness auto
termination
  by (relation "measure (\<lambda>(block, useCRC, data, s). length data)") auto

declare send_blocks.simps [simp del]

fun send_eot :: "nat \<Rightarrow> (xio, unit) prog" where
  "send_eot 0 s = (Inl ErrNoAck, s)"
| "send_eot (Suc left) s = (case x_write [eot] s of (Inl e, s1) \<Rightarrow> (Inl e, s1)
     | (Inr u, s1) \<Rightarrow> (case readByte s1 of (Inl e, s2) \<Rightarrow> (Inl e, s2)
         | (Inr b, s2) \<Rightarrow> if b = ack then (Inr (), s2) else send_eot left s2))"

definition Send :: "bytes \<Rightarrow> (xio, unit) prog" where
  "Send data = chk (wait_start maxRetries) (\<lambda>useCRC.
     chk (send_blocks 1 useCRC data) (\<lambda>_. send_eot maxRetries))"

section \<open>Receiving\<close>

fun trim_rev :: "bytes \<Rightarrow> bytes" where
  "trim_rev [] = []"
| "trim_rev (b # bs) = (if b = sub then trim_rev bs else b # bs)"

definition trimPad :: "bytes \<Rightarrow> bytes" where
  "trimPad b = rev (trim_rev (rev b))"

text \<open>The body of the \<open>soh\<close> case: the frame's verdict.\<close>

datatype verdict = Accept bytes | Duplicate | Reject

definition judge :: "byte \<Rightarrow> bytes \<Rightarrow> bytes \<Rightarrow> bytes \<Rightarrow> verdict" where
  "judge expected hdr data ck =
     (let goodHdr = (hdr ! 0 = 255 - hdr ! 1);
          goodCRC = (crc16 data = (push_bit 8 (ucast (ck ! 0)) OR ucast (ck ! 1)))
      in if goodHdr \<and> goodCRC \<and> hdr ! 0 = expected then Accept data
         else if goodHdr \<and> hdr ! 0 = expected - 1 then Duplicate else Reject)"

lemma readByte_length: "(Inr b, s') = readByte s \<Longrightarrow> length (x_in s') < length (x_in s)"
  by (auto simp: readByte_def split: list.splits)

lemma ReadFull_length: "(Inr d, s') = ReadFull n s \<Longrightarrow> length (x_in s') \<le> length (x_in s)"
  by (auto simp: ReadFull_def split: if_splits)

lemma x_write_in [simp]: "x_in (snd (x_write p s)) = x_in s"
  by (auto simp: x_write_def split: option.splits nat.splits)

function recv_loop :: "int \<Rightarrow> bytes \<Rightarrow> byte \<Rightarrow> (xio, bytes) prog" where
  "recv_loop maxBytes out expected s = (case readByte s of (Inl e, s1) \<Rightarrow> (Inl e, s1)
     | (Inr b, s1) \<Rightarrow>
       if b = eot then (Inr (trimPad out), snd (x_write [ack] s1))
       else if b = can then (Inl ErrCanceled, s1)
       else if b = soh then
         (case ReadFull 2 s1 of (Inl e, s2) \<Rightarrow> (Inl e, s2) | (Inr hdr, s2) \<Rightarrow>
         (case ReadFull 128 s2 of (Inl e, s3) \<Rightarrow> (Inl e, s3) | (Inr data, s3) \<Rightarrow>
         (case ReadFull 2 s3 of (Inl e, s4) \<Rightarrow> (Inl e, s4) | (Inr ck, s4) \<Rightarrow>
           (case judge expected hdr data ck of
              Accept d \<Rightarrow>
                if maxBytes > 0 \<and> int (length (out @ d)) > maxBytes
                then (Inl ErrTooBig, snd (x_write [can, can] s4))
                else recv_loop maxBytes (out @ d) (expected + 1) (snd (x_write [ack] s4))
            | Duplicate \<Rightarrow> recv_loop maxBytes out expected (snd (x_write [ack] s4))
            | Reject \<Rightarrow> recv_loop maxBytes out expected (snd (x_write [nak] s4))))))
       else recv_loop maxBytes out expected s1)"
  by pat_completeness auto
termination
  by (relation "measure (\<lambda>(m, out, x, s). length (x_in s))")
     (force dest: readByte_length ReadFull_length)+

declare recv_loop.simps [simp del]

definition Receive :: "int \<Rightarrow> (xio, bytes) prog" where
  "Receive maxBytes = chk (x_write [crc_req]) (\<lambda>_. recv_loop maxBytes [] 1)"

section \<open>The checksum detects every corrupted byte\<close>

lemma and_8000: "(c AND 0x8000 \<noteq> 0) = bit (c :: 16 word) 15"
  using and_exp_eq_0_iff_not_bit [of c 15] by simp

lemma crc_bit_alt: "crc_bit c = push_bit 1 c XOR (if bit c 15 then 0x1021 else 0)"
  by (simp add: crc_bit_def and_8000)

lemma xor_cancel: "(x :: 16 word) XOR z = y XOR z \<Longrightarrow> x = y"
proof -
  assume "x XOR z = y XOR z"
  then have "(x XOR z) XOR z = (y XOR z) XOR z" by (rule arg_cong)
  then show "x = y" by (simp add: xor.assoc)
qed

lemma push_bit_inj:
  assumes "push_bit k (x :: 16 word) = push_bit k y" "n + k < 16"
  shows "bit x n = bit y n"
proof -
  have "bit (push_bit k x) (n + k) = bit (push_bit k y) (n + k)"
    by (simp only: assms(1))
  then show ?thesis using assms(2) by (simp add: bit_push_bit_iff)
qed

lemma crc_bit_inj: "crc_bit c = crc_bit d \<Longrightarrow> c = d"
proof -
  assume eq: "crc_bit c = crc_bit d"
  have b0: "bit (crc_bit x) 0 = bit x 15" for x :: "16 word"
    by (simp add: crc_bit_alt bit_xor_iff bit_0 even_xor_iff)
  have top: "bit c 15 = bit d 15"
    using b0 [of c] b0 [of d] eq by simp
  have "push_bit 1 c = push_bit 1 d"
    using eq unfolding crc_bit_alt top by (rule xor_cancel)
  then have low: "bit c n = bit d n" if "n < 15" for n
    by (rule push_bit_inj) (use that in simp)
  show "c = d"
  proof (rule bit_word_eqI)
    fix n assume "n < LENGTH(16)"
    then show "bit c n = bit d n" using low top by (cases "n = 15") auto
  qed
qed

lemma crc_byte_inj_state: "crc_byte c b = crc_byte d b \<Longrightarrow> c = d"
proof -
  assume eq: "crc_byte c b = crc_byte d b"
  have "inj crc_bit" by (rule injI) (rule crc_bit_inj)
  then have "inj (crc_bit ^^ 8)" by (rule inj_fn)
  then have "c XOR push_bit 8 (ucast b) = d XOR push_bit 8 (ucast b)"
    using eq unfolding crc_byte_def by (rule injD)
  then show "c = d" by (rule xor_cancel)
qed

lemma crc_byte_inj_byte: "crc_byte c a = crc_byte c b \<Longrightarrow> a = b"
proof -
  assume eq: "crc_byte c a = crc_byte c b"
  have "inj crc_bit" by (rule injI) (rule crc_bit_inj)
  then have "inj (crc_bit ^^ 8)" by (rule inj_fn)
  then have "c XOR push_bit 8 (ucast a) = c XOR push_bit 8 (ucast b)"
    using eq unfolding crc_byte_def by (rule injD)
  then have "push_bit 8 (ucast a) XOR c = push_bit 8 (ucast b) XOR c"
    by (subst (1 2) xor.commute)
  then have sh: "push_bit 8 (ucast a :: 16 word) = push_bit 8 (ucast b)"
    by (rule xor_cancel)
  show "a = b"
  proof (rule bit_word_eqI)
    fix n assume n: "n < LENGTH(8)"
    have "bit (ucast a :: 16 word) n = bit (ucast b :: 16 word) n"
      by (rule push_bit_inj [OF sh]) (use n in simp)
    then show "bit a n = bit b n" using n by (simp add: bit_ucast_iff)
  qed
qed

lemma crc_suffix_inj: "foldl crc_byte c ys = foldl crc_byte d ys \<Longrightarrow> c = d"
proof (induction ys arbitrary: c d)
  case (Cons y ys)
  then have "crc_byte c y = crc_byte d y" by simp
  then show ?case by (rule crc_byte_inj_state)
qed simp

lemma crc16_one_byte: "crc16 (xs @ a # ys) = crc16 (xs @ b # ys) \<longleftrightarrow> a = b"
proof
  assume "crc16 (xs @ a # ys) = crc16 (xs @ b # ys)"
  then have "crc_byte (foldl crc_byte 0 xs) a = crc_byte (foldl crc_byte 0 xs) b"
    by (simp add: crc16_def) (rule crc_suffix_inj)
  then show "a = b" by (rule crc_byte_inj_byte)
qed simp

lemma crc16_update:
  assumes "i < length data" "v \<noteq> data ! i"
  shows "crc16 (data[i := v]) \<noteq> crc16 data"
proof -
  have "data[i := v] = take i data @ v # drop (Suc i) data"
    using assms(1) by (simp add: upd_conv_take_nth_drop)
  moreover have "data = take i data @ data ! i # drop (Suc i) data"
    using assms(1) by (simp add: id_take_nth_drop)
  ultimately show ?thesis using crc16_one_byte assms(2) by metis
qed

lemma crc_join: "push_bit 8 (ucast (crc_hi c)) OR ucast (crc_lo c) = (c :: 16 word)"
proof (rule bit_word_eqI)
  fix n assume "n < LENGTH(16)"
  then show "bit (push_bit 8 (ucast (crc_hi c)) OR ucast (crc_lo c) :: 16 word) n = bit c n"
    by (auto simp: crc_hi_def crc_lo_def bit_or_iff bit_push_bit_iff bit_ucast_iff bit_drop_bit_eq not_le)
qed

section \<open>A transfer over a faithful wire\<close>

fun frames :: "nat \<Rightarrow> byte \<Rightarrow> bytes \<Rightarrow> bytes list" where
  "frames 0 block data = []"
| "frames (Suc n) block data = block_frame block (pad_chunk data) True # frames n (block + 1) (drop 128 data)"

text \<open>The number of blocks \<open>Send\<close> uses: one for an empty file, else the file's length
  over 128, rounded up.\<close>

definition nblocks :: "nat \<Rightarrow> nat" where
  "nblocks n = (if n \<le> 128 then 1 else (n + 127) div 128)"

fun padded :: "nat \<Rightarrow> bytes \<Rightarrow> bytes" where
  "padded 0 data = []"
| "padded (Suc n) data = pad_chunk data @ padded n (drop 128 data)"

lemma nblocks_rec: "128 < n \<Longrightarrow> nblocks n = Suc (nblocks (n - 128))"
  unfolding nblocks_def by (cases "n \<le> 256") auto

lemma length_pad_chunk [simp]: "length (pad_chunk data) = 128"
  by (simp add: pad_chunk_def)

lemma length_padded [simp]: "length (padded n data) = 128 * n"
  by (induction n arbitrary: data) auto

lemma sendBlock_ack:
  assumes "x_in s = ack # rest" "x_wleft s = None"
  shows "sendBlock block chunk useCRC s =
    (Inr (), s\<lparr>x_in := rest, x_out := x_out s @ block_frame block chunk useCRC\<rparr>)"
  using assms by (simp add: sendBlock_def maxRetries_def numeral_eq_Suc x_write_def readByte_def)

lemma send_blocks_ack:
  "x_in s = replicate (nblocks (length data)) ack @ rest \<Longrightarrow> x_wleft s = None \<Longrightarrow>
   send_blocks block True data s =
     (Inr (), s\<lparr>x_in := rest, x_out := x_out s @ concat (frames (nblocks (length data)) block data)\<rparr>)"
proof (induction "length data" arbitrary: data block s rule: less_induct)
  case less
  show ?case
  proof (cases "length data \<le> 128")
    case True
    then have "nblocks (length data) = 1" by (simp add: nblocks_def)
    then show ?thesis
      using less.prems True by (simp add: send_blocks.simps [of block] sendBlock_ack)
  next
    case False
    then have nb: "nblocks (length data) = Suc (nblocks (length (drop 128 data)))"
      by (simp add: nblocks_rec)
    then show ?thesis
      using less.prems False less.hyps [of "drop 128 data"]
      by (simp add: send_blocks.simps [of block] sendBlock_ack)
  qed
qed

lemma Send_ack:
  assumes "x_in s = crc_req # replicate (nblocks (length data)) ack @ [ack]" "x_wleft s = None"
  shows "Send data s = (Inr (), s\<lparr>x_in := [],
     x_out := x_out s @ concat (frames (nblocks (length data)) 1 data) @ [eot]\<rparr>)"
  using assms
  by (simp add: Send_def chk_run wait_start.simps readByte_def send_blocks_ack maxRetries_def
      numeral_eq_Suc x_write_def)

lemma judge_frame:
  assumes "length chunk = 128"
  shows "judge b [b, 255 - b] chunk [crc_hi (crc16 chunk), crc_lo (crc16 chunk)] = Accept chunk"
  using crc_join [of "crc16 chunk"] by (simp add: judge_def)

lemma recv_frame:
  assumes "x_in s = block_frame b chunk True @ rest" "length chunk = 128" "x_wleft s = None"
    "maxBytes \<le> 0 \<or> int (length out + 128) \<le> maxBytes"
  shows "recv_loop maxBytes out b s
       = recv_loop maxBytes (out @ chunk) (b + 1) (s\<lparr>x_in := rest, x_out := x_out s @ [ack]\<rparr>)"
  using assms
  by (auto simp: recv_loop.simps [of maxBytes out b s] readByte_def ReadFull_def block_frame_def
      judge_frame x_write_def xbytes)

lemma recv_frames:
  assumes "x_in s = concat (frames n b data) @ rest" "x_wleft s = None"
    "maxBytes \<le> 0 \<or> int (length out + 128 * n) \<le> maxBytes"
  shows "recv_loop maxBytes out b s = recv_loop maxBytes (out @ padded n data) (b + of_nat n)
     (s\<lparr>x_in := rest, x_out := x_out s @ replicate n ack\<rparr>)"
  using assms
proof (induction n arbitrary: b data out s)
  case (Suc n)
  let ?s = "s\<lparr>x_in := concat (frames n (b + 1) (drop 128 data)) @ rest, x_out := x_out s @ [ack]\<rparr>"
  have "recv_loop maxBytes out b s = recv_loop maxBytes (out @ pad_chunk data) (b + 1) ?s"
    using Suc.prems by (intro recv_frame) auto
  also have "\<dots> = recv_loop maxBytes ((out @ pad_chunk data) @ padded n (drop 128 data)) (b + 1 + of_nat n)
     (?s\<lparr>x_in := rest, x_out := x_out ?s @ replicate n ack\<rparr>)"
    using Suc.prems by (intro Suc.IH) auto
  finally show ?case by (simp add: algebra_simps replicate_append_same [symmetric])
next
  case 0
  then have "s\<lparr>x_in := rest, x_out := x_out s @ replicate 0 ack\<rparr> = s" by simp
  then show ?case by simp
qed

lemma trim_rev_replicate: "trim_rev (replicate n sub @ xs) = trim_rev xs"
  by (induction n) auto

lemma trimPad_pad: "trimPad (xs @ replicate n sub) = trimPad xs"
  by (simp add: trimPad_def trim_rev_replicate)

lemma padded_eq: "\<exists>k. padded (nblocks (length data)) data = data @ replicate k sub"
proof (induction "length data" arbitrary: data rule: less_induct)
  case less
  show ?case
  proof (cases "length data \<le> 128")
    case True
    then show ?thesis by (auto simp: nblocks_def pad_chunk_def)
  next
    case False
    then have "pad_chunk data = take 128 data" by (simp add: pad_chunk_def)
    moreover have "length (drop 128 data) < length data" using False by simp
    then obtain k where "padded (nblocks (length (drop 128 data))) (drop 128 data)
        = drop 128 data @ replicate k sub"
      using less [of "drop 128 data"] by blast
    ultimately show ?thesis
      using False by (auto simp: nblocks_rec) (metis append.assoc append_take_drop_id)
  qed
qed

lemma recv_eot:
  assumes "x_in s = [eot]" "x_wleft s = None"
  shows "recv_loop maxBytes out b s = (Inr (trimPad out), s\<lparr>x_in := [], x_out := x_out s @ [ack]\<rparr>)"
  using assms by (simp add: recv_loop.simps [of maxBytes] readByte_def x_write_def)

lemma Receive_frames:
  assumes "x_in s = concat (frames (nblocks (length data)) 1 data) @ [eot]" "x_wleft s = None"
    "maxBytes \<le> 0 \<or> int (128 * nblocks (length data)) \<le> maxBytes"
  shows "Receive maxBytes s = (Inr (trimPad data), s\<lparr>x_in := [],
     x_out := x_out s @ crc_req # replicate (nblocks (length data)) ack @ [ack]\<rparr>)"
proof -
  obtain k where "padded (nblocks (length data)) data = data @ replicate k sub"
    using padded_eq by blast
  then show ?thesis
    using assms recv_frames [of "s\<lparr>x_out := x_out s @ [crc_req]\<rparr>" "nblocks (length data)" 1 data "[eot]" maxBytes "[]"]
    by (simp add: Receive_def chk_run x_write_def recv_eot trimPad_pad)
qed

lemma length_trimPad: "length (trimPad b) \<le> length b"
proof -
  have "length (trim_rev ys) \<le> length ys" for ys by (induction ys) auto
  from this [of "rev b"] show ?thesis by (simp add: trimPad_def)
qed

lemma trimPad_id: "trimPad data = data \<longleftrightarrow> data = [] \<or> last data \<noteq> sub"
proof (cases data rule: rev_cases)
  case (snoc xs b)
  have "trimPad xs \<noteq> xs @ [sub]"
    using length_trimPad [of xs] by auto
  then have "trimPad (xs @ [b]) = xs @ [b] \<longleftrightarrow> b \<noteq> sub"
    by (cases "b = sub") (simp_all add: trimPad_def)
  then show ?thesis using snoc by simp
qed (simp add: trimPad_def)

text \<open>
  C30: a transfer over a faithful wire delivers the file. \<open>Send\<close> of any \<open>data\<close>, fed with
  exactly what \<open>Receive\<close> writes, succeeds and writes the file's frames; \<open>Receive\<close>, fed
  with exactly those bytes and a cap that admits the padded file, writes that same
  transcript and returns the file less its trailing SUB bytes - the file itself unless
  it ends in SUB.
\<close>

theorem xmodem_loopback:
  fixes data :: bytes and maxBytes :: int
  defines "n \<equiv> nblocks (length data)"
  assumes fits: "maxBytes \<le> 0 \<or> int (128 * n) \<le> maxBytes"
  shows "Send data \<lparr>x_in = crc_req # replicate n ack @ [ack], x_out = [], x_wleft = None\<rparr>
       = (Inr (), \<lparr>x_in = [], x_out = concat (frames n 1 data) @ [eot], x_wleft = None\<rparr>) \<and>
     Receive maxBytes \<lparr>x_in = concat (frames n 1 data) @ [eot], x_out = [], x_wleft = None\<rparr>
       = (Inr (trimPad data), \<lparr>x_in = [], x_out = crc_req # replicate n ack @ [ack], x_wleft = None\<rparr>) \<and>
     (trimPad data = data \<longleftrightarrow> data = [] \<or> last data \<noteq> sub)"
  using fits by (simp add: n_def Send_ack Receive_frames trimPad_id)

lemma xmodem_loopback_witness:
  "fst (Send [7, 9] \<lparr>x_in = [crc_req, ack, ack], x_out = [], x_wleft = None\<rparr>) = Inr () \<and>
   fst (Receive 200 \<lparr>x_in = concat (frames 1 1 [7, 9]) @ [eot], x_out = [], x_wleft = None\<rparr>) = Inr [7, 9]"
  using xmodem_loopback [of 200 "[7, 9]"] by (simp add: nblocks_def sub_def)

section \<open>A damaged frame\<close>

lemma recv_damaged:
  assumes "x_in s = soh # hdr @ chunk @ ck @ rest"
    "length hdr = 2" "length chunk = 128" "length ck = 2" "x_wleft s = None"
    "judge b hdr chunk ck = Reject"
  shows "recv_loop maxBytes out b s
       = recv_loop maxBytes out b (s\<lparr>x_in := rest, x_out := x_out s @ [nak]\<rparr>)"
  using assms
  by (simp add: recv_loop.simps [of maxBytes out b s] readByte_def ReadFull_def x_write_def
      soh_def eot_def can_def)

lemma pred_neq: "(b :: byte) \<noteq> b - 1"
proof
  assume "b = b - 1"
  then have "b - b = b - 1 - b" by (rule arg_cong)
  then show False by simp
qed

lemma crc_bytes_inj:
  assumes "push_bit 8 (ucast a) OR ucast c = (push_bit 8 (ucast a') OR ucast c' :: 16 word)"
  shows "a = (a' :: byte) \<and> c = (c' :: byte)"
proof
  have n: "bit (push_bit 8 (ucast a) OR ucast c :: 16 word) n = bit (push_bit 8 (ucast a') OR ucast c' :: 16 word) n" for n
    by (simp only: assms)
  show "a = a'"
  proof (rule bit_word_eqI)
    fix k assume k: "k < LENGTH(8)"
    have "\<not> bit (x :: byte) (k + 8)" for x using bit_imp_le_length [of x "k + 8"] by auto
    then show "bit a k = bit a' k"
      using n [of "k + 8"] k by (simp add: bit_or_iff bit_push_bit_iff bit_ucast_iff)
  qed
  show "c = c'"
  proof (rule bit_word_eqI)
    fix k assume k: "k < LENGTH(8)"
    then show "bit c k = bit c' k"
      using n [of k] by (simp add: bit_or_iff bit_push_bit_iff bit_ucast_iff)
  qed
qed

lemma judge_damaged_hdr:
  assumes "k < 2" "v \<noteq> [b, 255 - b] ! k"
  shows "judge b ([b, 255 - b][k := v]) chunk ck = Reject"
  using assms pred_neq [of b]
  by (cases k; cases "k - 1") (auto simp: judge_def diff_eq_eq eq_diff_eq add.commute)

lemma judge_damaged_data:
  assumes "k < length chunk" "v \<noteq> chunk ! k"
  shows "judge b [b, 255 - b] (chunk[k := v]) [crc_hi (crc16 chunk), crc_lo (crc16 chunk)] = Reject"
  using crc16_update [OF assms] crc_join [of "crc16 chunk"] pred_neq [of b] by (simp add: judge_def)

lemma judge_damaged_ck:
  assumes "k < 2" "v \<noteq> [crc_hi (crc16 chunk), crc_lo (crc16 chunk)] ! k"
  shows "judge b [b, 255 - b] chunk ([crc_hi (crc16 chunk), crc_lo (crc16 chunk)][k := v]) = Reject"
proof -
  let ?c = "crc16 chunk"
  have "?c \<noteq> push_bit 8 (ucast x) OR ucast y" if "(x, y) \<noteq> (crc_hi ?c, crc_lo ?c)" for x y
    using crc_bytes_inj [of "crc_hi ?c" "crc_lo ?c" x y] crc_join [of ?c] that by auto
  then show ?thesis
    using assms pred_neq [of b] by (cases k; cases "k - 1") (auto simp: judge_def)
qed

text \<open>
  One damaged byte is always caught. Take the frame of the block the receiver
  expects and change any one byte after the SOH - block number, its complement, data or
  checksum: the receiver answers NAK and goes on waiting for the same block, with
  nothing of the damaged frame added to the file.
\<close>

theorem damaged_frame_nak:
  assumes "length chunk = 128" "0 < i" "i < 133" "v \<noteq> block_frame b chunk True ! i"
    and "x_in s = (block_frame b chunk True)[i := v] @ rest" "x_wleft s = None"
  shows "recv_loop maxBytes out b s
       = recv_loop maxBytes out b (s\<lparr>x_in := rest, x_out := x_out s @ [nak]\<rparr>)"
proof -
  define H ck where "H = [b, 255 - b]" and "ck = [crc_hi (crc16 chunk), crc_lo (crc16 chunk)]"
  then have len: "length H = 2" "length ck = 2" by auto
  have frame: "block_frame b chunk True = soh # H @ chunk @ ck"
    by (simp add: block_frame_def H_def ck_def)
  obtain k where i: "i = Suc k" "k < 132" using assms(2,3) by (cases i) auto
  consider "k < 2" | k' where "k = 2 + k'" "k' < 128" | k' where "k = 130 + k'" "k' < 2"
    using i(2) nat_le_iff_add [of 2 k] nat_le_iff_add [of 130 k] by force
  then show ?thesis
  proof cases
    case 1
    then have "v \<noteq> H ! k" using assms(4) i len by (simp add: frame nth_append)
    then have "judge b (H[k := v]) chunk ck = Reject"
      using 1 unfolding H_def by (intro judge_damaged_hdr)
    then show ?thesis
      using assms i 1 len by (intro recv_damaged [of s "H[k := v]" chunk ck]) (auto simp: frame list_update_append)
  next
    case 2
    then have "judge b H (chunk[k' := v]) ck = Reject"
      using assms(1,4) i len by (auto simp: frame H_def ck_def nth_append intro!: judge_damaged_data)
    then show ?thesis
      using assms i 2 len by (intro recv_damaged [of s H "chunk[k' := v]" ck]) (auto simp: frame list_update_append)
  next
    case 3
    then have "v \<noteq> ck ! k'" using assms(1,4) i len by (simp add: frame nth_append)
    then have "judge b H chunk (ck[k' := v]) = Reject"
      using 3 unfolding H_def ck_def by (intro judge_damaged_ck)
    then show ?thesis
      using assms i 3 len by (intro recv_damaged [of s H chunk "ck[k' := v]"]) (auto simp: frame list_update_append)
  qed
qed

lemma damaged_frame_nak_witness:
  "recv_loop 0 [] 1 \<lparr>x_in = (block_frame 1 (replicate 128 7) True)[5 := 8] @ [], x_out = [], x_wleft = None\<rparr>
     = recv_loop 0 [] 1 \<lparr>x_in = [], x_out = [nak], x_wleft = None\<rparr>"
  using damaged_frame_nak [of "replicate 128 7" 5 8 1
      "\<lparr>x_in = (block_frame 1 (replicate 128 7) True)[5 := 8] @ [], x_out = [], x_wleft = None\<rparr>" "[]" 0 "[]"]
  by (simp add: block_frame_def numeral_eq_Suc)

section \<open>Bounds\<close>

lemma recv_loop_size:
  "recv_loop maxBytes out b s = (Inr d, s') \<Longrightarrow> 0 < maxBytes \<Longrightarrow> int (length out) \<le> maxBytes \<Longrightarrow>
   int (length d) \<le> maxBytes"
proof (induction maxBytes out b s rule: recv_loop.induct)
  case (1 maxBytes out b s)
  note run = "1.prems"(1) [unfolded recv_loop.simps [of maxBytes out b s]]
  obtain r s1 where rb: "readByte s = (r, s1)" by fastforce
  with run obtain c where r: "r = Inr c" by (cases r) auto
  obtain r2 s2 r3 s3 r4 s4 where rf: "ReadFull 2 s1 = (r2, s2)" "ReadFull 128 s2 = (r3, s3)"
    "ReadFull 2 s3 = (r4, s4)" by (metis surj_pair)
  consider "c = eot" | "c \<noteq> eot" "c \<noteq> can" "c \<noteq> soh"
    | hdr data ck where "c \<noteq> eot" "c \<noteq> can" "c = soh" "r2 = Inr hdr" "r3 = Inr data" "r4 = Inr ck"
    using run rb r rf by (cases r2; cases r3; cases r4) (auto split: if_splits)
  then show ?case
  proof cases
    case 1
    then show ?thesis using run rb r "1.prems" length_trimPad [of out] by auto
  next
    case 2
    then show ?thesis using run rb r 1(4) [OF rb [symmetric]] "1.prems" by auto
  next
    case 3
    note pre = rb [symmetric] r 3(1-3) rf(1) [symmetric] 3(4) rf(2) [symmetric] 3(5) rf(3) [symmetric] 3(6)
    show ?thesis
    proof (cases "judge b hdr data ck")
      case (Accept d')
      then show ?thesis
        using run 3 rb r rf "1.prems" by (intro 1(1) [OF pre Accept]) (auto split: if_splits)
    next
      case Duplicate
      then show ?thesis using run 3 rb r rf "1.prems" by (intro 1(2) [OF pre]) auto
    next
      case Reject
      then show ?thesis using run 3 rb r rf "1.prems" by (intro 1(3) [OF pre]) auto
    qed
  qed
qed

text \<open>
  The receiver never stores more than its cap: with a positive \<open>maxBytes\<close>, a file
  that \<open>Receive\<close> returns has at most that many bytes, whatever the sender sends.
\<close>

theorem Receive_size:
  assumes "0 < maxBytes" "Receive maxBytes s = (Inr d, s')"
  shows "int (length d) \<le> maxBytes"
  using assms by (auto simp: Receive_def elim!: chk_InrE intro: recv_loop_size)

lemma Receive_size_witness:
  "int (length (concat (map (\<lambda>r. case fst r of Inr d \<Rightarrow> d | Inl e \<Rightarrow> [])
     [Receive 5 \<lparr>x_in = [eot], x_out = [], x_wleft = None\<rparr>]))) \<le> 5"
  using Receive_size [of 5 "\<lparr>x_in = [eot], x_out = [], x_wleft = None\<rparr>" "[]"
      "\<lparr>x_in = [], x_out = [crc_req, ack], x_wleft = None\<rparr>"]
  by (simp add: Receive_def chk_run x_write_def recv_eot trimPad_def)

end
