(* ===== verification/Telnet.thy ===== *)
theory Telnet
  imports GoStd
begin

text \<open>
  The Telnet transport, \<open>transport/telnet.go\<close>: the parser of \<open>feed\<close> that separates
  caller data from option negotiation, the replies of \<open>respond\<close>, the window size and
  terminal type taken from subnegotiations by \<open>endSubneg\<close>, and \<open>Read\<close> over the socket.
  The socket is the list \<open>tn_in\<close> of what each \<open>raw.Read\<close> returns (its bytes, and whether
  it also returned an error); \<open>tn_out\<close> is what was written to it.
\<close>

definition iac :: byte where "iac = 255"
definition se :: byte where "se = 240"
definition sb :: byte where "sb = 250"
definition tn_will :: byte where "tn_will = 251"
definition tn_wont :: byte where "tn_wont = 252"
definition tn_do :: byte where "tn_do = 253"
definition tn_dont :: byte where "tn_dont = 254"
definition optEcho :: byte where "optEcho = 1"
definition optSGA :: byte where "optSGA = 3"
definition optTType :: byte where "optTType = 24"
definition optNAWS :: byte where "optNAWS = 31"
definition ttypeIS :: byte where "ttypeIS = 0"
definition ttypeSEND :: byte where "ttypeSEND = 1"

lemmas tn_bytes = iac_def se_def sb_def tn_will_def tn_wont_def tn_do_def tn_dont_def
  optEcho_def optSGA_def optTType_def optNAWS_def ttypeIS_def ttypeSEND_def

datatype tstate = StData | StIAC | StOpt | StSB | StSBI

record telnetConn =
  tn_in :: "(bytes \<times> bool) list"
  tn_out :: bytes
  tn_termType :: bytes
  tn_win :: "int \<times> int"
  tn_winCh :: "(int \<times> int) list"
  tn_state :: tstate
  tn_cmd :: byte
  tn_subOpt :: byte
  tn_subData :: bytes
  tn_pending :: bytes

definition newTelnetConn :: "(bytes \<times> bool) list \<Rightarrow> telnetConn" where
  "newTelnetConn raw = \<lparr>tn_in = raw,
     tn_out = [iac, tn_will, optEcho, iac, tn_will, optSGA, iac, tn_do, optNAWS,
       iac, tn_do, optTType, iac, sb, optTType, ttypeSEND, iac, se],
     tn_termType = [], tn_win = (0, 0), tn_winCh = [], tn_state = StData, tn_cmd = 0,
     tn_subOpt = 0, tn_subData = [], tn_pending = []\<rparr>"

definition raw_write :: "bytes \<Rightarrow> telnetConn \<Rightarrow> telnetConn" where
  "raw_write p c = c\<lparr>tn_out := tn_out c @ p\<rparr>"

definition respond :: "byte \<Rightarrow> byte \<Rightarrow> telnetConn \<Rightarrow> telnetConn" where
  "respond cmd opt c =
     (if cmd = tn_do then
        if opt = optEcho \<or> opt = optSGA then c else raw_write [iac, tn_wont, opt] c
      else if cmd = tn_dont then raw_write [iac, tn_wont, opt] c
      else if cmd = tn_will then
        if opt = optTType \<or> opt = optNAWS then c else raw_write [iac, tn_dont, opt] c
      else if cmd = tn_wont then raw_write [iac, tn_dont, opt] c
      else c)"

definition be16 :: "byte \<Rightarrow> byte \<Rightarrow> int" where
  "be16 hi lo = uint hi * 256 + uint lo"

definition endSubneg :: "telnetConn \<Rightarrow> telnetConn" where
  "endSubneg c =
     (if tn_subOpt c = optNAWS then
        (case tn_subData c of
           a # b # x # y # rest \<Rightarrow>
             (let w = (be16 a b, be16 x y) in
              c\<lparr>tn_win := w,
                tn_winCh := (if length (tn_winCh c) < 8 then tn_winCh c @ [w] else tn_winCh c)\<rparr>)
         | _ \<Rightarrow> c)
      else if tn_subOpt c = optTType then
        (case tn_subData c of
           k # t \<Rightarrow> if k = ttypeIS \<and> tn_termType c = [] then c\<lparr>tn_termType := TrimSpace t\<rparr> else c
         | [] \<Rightarrow> c)
      else c)"

definition feed1 :: "byte \<Rightarrow> telnetConn \<Rightarrow> telnetConn" where
  "feed1 b c = (case tn_state c of
     StData \<Rightarrow> if b = iac then c\<lparr>tn_state := StIAC\<rparr> else c\<lparr>tn_pending := tn_pending c @ [b]\<rparr>
   | StIAC \<Rightarrow>
       if b = iac then c\<lparr>tn_pending := tn_pending c @ [iac], tn_state := StData\<rparr>
       else if b = sb then c\<lparr>tn_state := StSB, tn_subOpt := 0, tn_subData := []\<rparr>
       else if b \<in> {tn_will, tn_wont, tn_do, tn_dont} then c\<lparr>tn_cmd := b, tn_state := StOpt\<rparr>
       else c\<lparr>tn_state := StData\<rparr>
   | StOpt \<Rightarrow> (respond (tn_cmd c) b c)\<lparr>tn_state := StData\<rparr>
   | StSB \<Rightarrow>
       if tn_subOpt c = 0 \<and> b \<noteq> iac then c\<lparr>tn_subOpt := b\<rparr>
       else if b = iac then c\<lparr>tn_state := StSBI\<rparr>
       else c\<lparr>tn_subData := tn_subData c @ [b]\<rparr>
   | StSBI \<Rightarrow>
       if b = se then (endSubneg c)\<lparr>tn_state := StData\<rparr>
       else c\<lparr>tn_subData := tn_subData c @ [b], tn_state := StSB\<rparr>)"

definition feed :: "bytes \<Rightarrow> telnetConn \<Rightarrow> telnetConn" where
  "feed raw c = fold feed1 raw c"

text \<open>The loop of \<open>Read\<close> that waits for data; \<open>True\<close> when the socket failed before any.\<close>

fun tn_fill :: "(bytes \<times> bool) list \<Rightarrow> telnetConn \<Rightarrow> bool \<times> telnetConn" where
  "tn_fill raw c = (if tn_pending c \<noteq> [] then (False, c\<lparr>tn_in := raw\<rparr>)
     else (case raw of
         [] \<Rightarrow> (True, c\<lparr>tn_in := []\<rparr>)
       | (buf, err) # raw' \<Rightarrow>
           (let c' = feed buf c in
            if err then (tn_pending c' = [], c'\<lparr>tn_in := raw'\<rparr>) else tn_fill raw' c')))"

declare tn_fill.simps [simp del]

definition tn_Read :: "nat \<Rightarrow> (telnetConn, bytes) prog" where
  "tn_Read n c = (case tn_fill (tn_in c) c of
     (True, c') \<Rightarrow> (Inl ErrEOF, c')
   | (False, c') \<Rightarrow> (Inr (take n (tn_pending c')), c'\<lparr>tn_pending := drop n (tn_pending c')\<rparr>))"

section \<open>Chunking\<close>

lemma feed_Nil [simp]: "feed [] c = c"
  by (simp add: feed_def)

lemma feed_Cons [simp]: "feed (b # bs) c = feed bs (feed1 b c)"
  by (simp add: feed_def)

lemma feed_append [simp]: "feed (xs @ ys) c = feed ys (feed xs c)"
  by (simp add: feed_def)

section \<open>The protocol's items\<close>

text \<open>
  What a Telnet peer means to send: data bytes, option commands, subnegotiations and
  standalone commands, with RFC 854's encoding (255 doubled in data and in
  subnegotiations), and the meaning the server should give to each: the data it delivers, the
  reply to a request (DO or WILL), the terminal name and the window size. No reply is laid down
  for the refusals WONT and DONT. Subnegotiations of option 0, which the parser's sentinel
  misreads, and of option 255 are left out of \<open>titem_ok\<close>.
\<close>

datatype titem = TData byte | TCmd byte byte | TSub byte bytes | TSingle byte

fun esc255 :: "bytes \<Rightarrow> bytes" where
  "esc255 [] = []"
| "esc255 (b # bs) = (if b = iac then [iac, iac] else [b]) @ esc255 bs"

fun titem_enc :: "titem \<Rightarrow> bytes" where
  "titem_enc (TData b) = esc255 [b]"
| "titem_enc (TCmd cmd opt) = [iac, cmd, opt]"
| "titem_enc (TSub opt d) = [iac, sb, opt] @ esc255 d @ [iac, se]"
| "titem_enc (TSingle b) = [iac, b]"

fun titem_ok :: "titem \<Rightarrow> bool" where
  "titem_ok (TData b) = True"
| "titem_ok (TCmd cmd opt) = (cmd \<in> {tn_will, tn_wont, tn_do, tn_dont})"
| "titem_ok (TSub opt d) = (opt \<noteq> 0 \<and> opt \<noteq> iac)"
| "titem_ok (TSingle b) = (b \<notin> {iac, sb, tn_will, tn_wont, tn_do, tn_dont})"

fun titem_data :: "titem \<Rightarrow> bytes" where
  "titem_data (TData b) = [b]"
| "titem_data _ = []"

definition is_request :: "titem \<Rightarrow> bool" where
  "is_request i \<longleftrightarrow> (case i of TCmd cmd opt \<Rightarrow> cmd \<in> {tn_do, tn_will} | _ \<Rightarrow> True)"

text \<open>A request is refused, except that what the server itself has offered or asked for when the
  connection opened needs no answer.\<close>

fun titem_reply :: "titem \<Rightarrow> bytes" where
  "titem_reply (TCmd cmd opt) =
     (if cmd = tn_do then (if opt \<in> {optEcho, optSGA} then [] else [iac, tn_wont, opt])
      else if cmd = tn_will then (if opt \<in> {optTType, optNAWS} then [] else [iac, tn_dont, opt])
      else [])"
| "titem_reply _ = []"

text \<open>The terminal name a run of items settles: the first non-blank TTYPE IS.\<close>

fun titem_term :: "bytes \<Rightarrow> titem \<Rightarrow> bytes" where
  "titem_term t (TSub opt (k # n)) =
     (if opt = optTType \<and> k = ttypeIS \<and> t = [] then TrimSpace n else t)"
| "titem_term t _ = t"

fun titem_win :: "int \<times> int \<Rightarrow> titem \<Rightarrow> int \<times> int" where
  "titem_win w (TSub opt (a # b # x # y # rest)) =
     (if opt = optNAWS then (be16 a b, be16 x y) else w)"
| "titem_win w _ = w"

lemma feed_sub_data:
  assumes "tn_state c = StSB" "tn_subOpt c \<noteq> 0"
  shows "feed (esc255 d) c = c\<lparr>tn_subData := tn_subData c @ d\<rparr>"
  using assms
proof (induction d arbitrary: c)
  case (Cons b d)
  then show ?case by (auto simp: feed1_def iac_def se_def)
qed simp

lemma esc255_append: "esc255 (xs @ ys) = esc255 xs @ esc255 ys"
  by (induction xs) auto

lemma endSubneg_keeps:
  "tn_state (endSubneg c) = tn_state c" "tn_pending (endSubneg c) = tn_pending c"
  "tn_out (endSubneg c) = tn_out c"
  by (auto simp: endSubneg_def Let_def split: list.splits)

lemma endSubneg_term:
  "tn_termType (endSubneg c) = titem_term (tn_termType c) (TSub (tn_subOpt c) (tn_subData c))"
  by (auto simp: endSubneg_def Let_def tn_bytes split: list.splits)

lemma endSubneg_win:
  "tn_win (endSubneg c) = titem_win (tn_win c) (TSub (tn_subOpt c) (tn_subData c))"
  by (auto simp: endSubneg_def Let_def tn_bytes split: list.splits)

lemma feed_sub:
  assumes "tn_state c = StData" "titem_ok (TSub opt d)"
  shows "feed (titem_enc (TSub opt d)) c
       = (endSubneg (c\<lparr>tn_subOpt := opt, tn_subData := d, tn_state := StSBI\<rparr>))\<lparr>tn_state := StData\<rparr>"
proof -
  let ?c = "c\<lparr>tn_state := StSB, tn_subOpt := opt, tn_subData := []\<rparr>"
  have "feed [iac, sb, opt] c = ?c"
    using assms by (simp add: feed1_def iac_def sb_def)
  moreover have "feed (esc255 d) ?c = ?c\<lparr>tn_subData := d\<rparr>"
    using assms by (simp add: feed_sub_data)
  ultimately show ?thesis
    by (simp add: feed1_def [of iac] feed1_def [of se])
qed

lemma feed_item:
  assumes "tn_state c = StData" "titem_ok i"
  shows "tn_state (feed (titem_enc i) c) = StData \<and>
    tn_pending (feed (titem_enc i) c) = tn_pending c @ titem_data i \<and>
    (is_request i \<longrightarrow> tn_out (feed (titem_enc i) c) = tn_out c @ titem_reply i) \<and>
    tn_termType (feed (titem_enc i) c) = titem_term (tn_termType c) i \<and>
    tn_win (feed (titem_enc i) c) = titem_win (tn_win c) i"
proof (cases i)
  case (TSub opt d)
  then show ?thesis
    using assms feed_sub [of c opt d] by (simp add: endSubneg_keeps endSubneg_term endSubneg_win)
qed (use assms in \<open>auto simp: feed1_def respond_def raw_write_def tn_bytes is_request_def\<close>)

text \<open>
  C28: the parser gives a well-formed Telnet stream the meaning RFC 854 gives it. From the data
  state, feeding the encoding of any list of items (subnegotiations of options 0 and 255
  excepted) delivers exactly the data bytes in order, 255 included, takes the window size of the
  last NAWS and the terminal name of the first TTYPE that is not blank, and ends in the data
  state; and when the stream carries no WONT or DONT, the replies are exactly one refusal for
  each request, except for the options the server itself negotiated.
\<close>

theorem feed_items:
  assumes "tn_state c = StData" "list_all titem_ok items"
  shows "tn_pending (feed (concat (map titem_enc items)) c) = tn_pending c @ concat (map titem_data items) \<and>
    (list_all is_request items \<longrightarrow> tn_out (feed (concat (map titem_enc items)) c) = tn_out c @ concat (map titem_reply items)) \<and>
    tn_termType (feed (concat (map titem_enc items)) c) = foldl titem_term (tn_termType c) items \<and>
    tn_win (feed (concat (map titem_enc items)) c) = foldl titem_win (tn_win c) items \<and>
    tn_state (feed (concat (map titem_enc items)) c) = StData"
  using assms by (induction items arbitrary: c) (simp_all add: feed_item)

lemma feed_items_witness:
  "tn_pending (feed [104, iac, tn_do, 6, 105, iac, iac] (newTelnetConn [])) = [104, 105, 255] \<and>
   tn_out (feed [104, iac, tn_do, 6, 105, iac, iac] (newTelnetConn [])) = tn_out (newTelnetConn []) @ [iac, tn_wont, 6] \<and>
   tn_win (feed [iac, sb, optNAWS, 0, 80, 0, 24, iac, se] (newTelnetConn [])) = (80, 24)"
  using feed_items [of "newTelnetConn []" "[TData 104, TCmd tn_do 6, TData 105, TData 255]"]
    feed_items [of "newTelnetConn []" "[TSub optNAWS [0, 80, 0, 24]]"]
  by (simp add: newTelnetConn_def tn_bytes be16_def is_request_def)

text \<open>
  The parser marks a subnegotiation whose option byte is still to come by option 0. A
  subnegotiation of option 0 itself is therefore taken for one of the option its data begins
  with: the data byte 31 makes it a window size.
\<close>

theorem subneg_option0:
  assumes "tn_state c = StData" "opt \<noteq> 0" "opt \<noteq> iac"
  shows "feed (titem_enc (TSub 0 (opt # d))) c = feed (titem_enc (TSub opt d)) c"
  using assms by (simp add: feed1_def tn_bytes)

lemma subneg_option0_witness:
  "tn_win (feed [iac, sb, 0, 31, 0, 80, 0, 24, iac, se] (newTelnetConn [])) = (80, 24)"
  using subneg_option0 [of "newTelnetConn []" 31 "[0, 80, 0, 24]"] feed_item [of "newTelnetConn []" "TSub 31 [0, 80, 0, 24]"]
  by (simp add: newTelnetConn_def tn_bytes be16_def)

section \<open>Bounds\<close>

lemma endSubneg_winCh: "length (tn_winCh c) \<le> 8 \<Longrightarrow> length (tn_winCh (endSubneg c)) \<le> 8"
  by (auto simp: endSubneg_def Let_def split: list.splits)

lemma respond_keeps:
  "tn_pending (respond cmd opt c) = tn_pending c" "tn_winCh (respond cmd opt c) = tn_winCh c"
  "tn_subData (respond cmd opt c) = tn_subData c"
  "length (tn_out (respond cmd opt c)) \<le> length (tn_out c) + 3"
  by (auto simp: respond_def raw_write_def)

definition opt_due :: "telnetConn \<Rightarrow> nat" where
  "opt_due c = (case tn_state c of StIAC \<Rightarrow> 1 | StOpt \<Rightarrow> 2 | _ \<Rightarrow> 0)"

lemma feed1_bounds:
  "length (tn_pending (feed1 b c)) \<le> length (tn_pending c) + 1"
  "length (tn_out (feed1 b c)) + opt_due (feed1 b c) \<le> length (tn_out c) + opt_due c + 1"
  "length (tn_winCh c) \<le> 8 \<Longrightarrow> length (tn_winCh (feed1 b c)) \<le> 8"
proof -
  note simps = feed1_def opt_due_def respond_keeps(1-3) endSubneg_keeps endSubneg_winCh
  show "length (tn_pending (feed1 b c)) \<le> length (tn_pending c) + 1"
    by (cases "tn_state c") (simp_all add: simps)
  show "length (tn_out (feed1 b c)) + opt_due (feed1 b c) \<le> length (tn_out c) + opt_due c + 1"
    using respond_keeps(4) [of "tn_cmd c" b c] by (cases "tn_state c") (simp_all add: simps)
  show "length (tn_winCh (feed1 b c)) \<le> 8" if "length (tn_winCh c) \<le> 8"
    using that by (cases "tn_state c") (simp_all add: simps)
qed

text \<open>
  The caller cannot amplify. Whatever bytes arrive, at most one data byte is
  delivered and, all told, at most one reply byte is written per byte received (a reply
  takes the three bytes of its command); the window-change channel never holds more than
  its eight slots.
\<close>

theorem feed_bounds:
  shows "length (tn_pending (feed raw c)) \<le> length (tn_pending c) + length raw \<and>
    length (tn_out (feed raw c)) \<le> length (tn_out c) + length raw + opt_due c \<and>
    length (tn_winCh (feed raw (newTelnetConn inp))) \<le> 8"
proof (intro conjI)
  show "length (tn_pending (feed raw c)) \<le> length (tn_pending c) + length raw"
  proof (induction raw arbitrary: c)
    case (Cons b raw)
    show ?case using feed1_bounds(1) [of b c] Cons.IH [of "feed1 b c"] by simp
  qed simp
  have "length (tn_out (feed raw c)) + opt_due (feed raw c) \<le> length (tn_out c) + opt_due c + length raw"
  proof (induction raw arbitrary: c)
    case (Cons b raw)
    show ?case using feed1_bounds(2) [of b c] Cons.IH [of "feed1 b c"] by simp
  qed simp
  then show "length (tn_out (feed raw c)) \<le> length (tn_out c) + length raw + opt_due c" by simp
  have "length (tn_winCh (feed raw c)) \<le> 8" if "length (tn_winCh c) \<le> 8" for c
    using that by (induction raw arbitrary: c) (simp_all add: feed1_bounds(3))
  then show "length (tn_winCh (feed raw (newTelnetConn inp))) \<le> 8" by (simp add: newTelnetConn_def)
qed

section \<open>Refusals are answered\<close>

fun refusals :: "nat \<Rightarrow> byte \<Rightarrow> telnetConn \<times> telnetConn \<Rightarrow> telnetConn \<times> telnetConn" where
  "refusals 0 opt p = p"
| "refusals (Suc n) opt (a, b) =
     (let b' = feed [iac, tn_wont, opt] b; a' = feed [iac, tn_dont, opt] a
      in refusals n opt (a', b'))"

text \<open>
  \<open>respond\<close> answers a refusal with a refusal. A received WONT is always answered
  DONT and a received DONT is always answered WONT, also when the option was never on:
  with a peer that follows the same policy each reply is the other side's next
  command, and the exchange grows both sides' output by three bytes per round for ever.
\<close>

theorem refusal_ping_pong:
  assumes "tn_state a = StData" "tn_state b = StData"
  shows "tn_out (snd (refusals n opt (a, b))) = tn_out b @ concat (replicate n [iac, tn_dont, opt]) \<and>
    tn_out (fst (refusals n opt (a, b))) = tn_out a @ concat (replicate n [iac, tn_wont, opt])"
proof (rule conjI)
  have one: "feed [iac, tn_wont, opt] c = c\<lparr>tn_cmd := tn_wont, tn_out := tn_out c @ [iac, tn_dont, opt]\<rparr>"
    "feed [iac, tn_dont, opt] c = c\<lparr>tn_cmd := tn_dont, tn_out := tn_out c @ [iac, tn_wont, opt]\<rparr>"
    if "tn_state c = StData" for c
    using that by (auto simp: feed1_def respond_def raw_write_def tn_bytes)
  show "tn_out (snd (refusals n opt (a, b))) = tn_out b @ concat (replicate n [iac, tn_dont, opt])"
    using assms by (induction n arbitrary: a b) (simp_all add: one Let_def del: feed_Cons)
  show "tn_out (fst (refusals n opt (a, b))) = tn_out a @ concat (replicate n [iac, tn_wont, opt])"
    using assms by (induction n arbitrary: a b) (simp_all add: one Let_def del: feed_Cons)
qed

lemma refusal_ping_pong_witness:
  "tn_out (snd (refusals 2 5 (newTelnetConn [], newTelnetConn [])))
     = tn_out (newTelnetConn []) @ [iac, tn_dont, 5, iac, tn_dont, 5]"
  using refusal_ping_pong [of "newTelnetConn []" "newTelnetConn []" 2 5]
  by (simp add: newTelnetConn_def numeral_2_eq_2)

section \<open>Reading\<close>

lemma respond_frame:
  "respond cmd opt (c\<lparr>tn_in := x, tn_pending := p @ tn_pending c\<rparr>)
     = (respond cmd opt c)\<lparr>tn_in := x, tn_pending := p @ tn_pending c\<rparr>"
  by (simp add: respond_def raw_write_def)

lemma endSubneg_frame:
  "endSubneg (c\<lparr>tn_in := x, tn_pending := p @ tn_pending c\<rparr>)
     = (endSubneg c)\<lparr>tn_in := x, tn_pending := p @ tn_pending c\<rparr>"
  by (simp add: endSubneg_def Let_def split: list.split)

lemma feed1_frame:
  "feed1 b (c\<lparr>tn_in := x, tn_pending := p @ tn_pending c\<rparr>)
     = (feed1 b c)\<lparr>tn_in := x, tn_pending := p @ tn_pending (feed1 b c)\<rparr>"
  by (cases "tn_state c")
     (simp_all add: feed1_def respond_frame endSubneg_frame respond_keeps endSubneg_keeps)

lemma feed_frame:
  "feed bs (c\<lparr>tn_in := x, tn_pending := p @ tn_pending c\<rparr>)
     = (feed bs c)\<lparr>tn_in := x, tn_pending := p @ tn_pending (feed bs c)\<rparr>"
  by (induction bs arbitrary: c) (simp_all add: feed1_frame)

text \<open>All the data still to come from a connection whose socket does not fail early.\<close>

definition tn_stream :: "telnetConn \<Rightarrow> bytes" where
  "tn_stream c = tn_pending (feed (concat (map fst (tn_in c))) c)"

lemma tn_stream_frame:
  "tn_stream (c\<lparr>tn_in := x, tn_pending := p @ tn_pending c\<rparr>) = p @ tn_stream (c\<lparr>tn_in := x\<rparr>)"
  using feed_frame [where bs = "concat (map fst x)" and c = c and x = x and p = p]
    feed_frame [where bs = "concat (map fst x)" and c = c and x = x and p = "[]"]
  by (simp add: tn_stream_def)

lemma tn_fill_stream:
  assumes "tn_fill raw c = (eof, c')" "list_all (\<lambda>r. \<not> snd r) raw"
  shows "tn_stream c' = tn_stream (c\<lparr>tn_in := raw\<rparr>) \<and> eof = (tn_pending c' = []) \<and>
    (eof \<longrightarrow> tn_in c' = []) \<and> list_all (\<lambda>r. \<not> snd r) (tn_in c')"
  using assms
proof (induction raw c rule: tn_fill.induct)
  case (1 raw c)
  show ?case
  proof (cases "tn_pending c = [] \<and> raw \<noteq> []")
    case True
    then obtain buf raw' where raw: "raw = (buf, False) # raw'"
      using "1.prems"(2) by (cases raw) auto
    have "tn_stream ((feed buf c)\<lparr>tn_in := raw'\<rparr>) = tn_stream (c\<lparr>tn_in := raw\<rparr>)"
      using feed_frame [where p = "[]" and c = c and x = raw and bs = buf]
        feed_frame [where p = "[]" and c = "feed buf c" and x = raw' and bs = "concat (map fst raw')"]
        feed_frame [where p = "[]" and c = "feed buf c" and x = raw and bs = "concat (map fst raw')"]
      by (simp add: tn_stream_def raw)
    then show ?thesis
      using 1(1) [of "(buf, False)" raw' buf False "feed buf c"] "1.prems" True raw
      by (simp add: tn_fill.simps [of "(buf, False) # raw'" c] Let_def)
  next
    case False
    then have "tn_fill raw c = (tn_pending c = [], c\<lparr>tn_in := raw\<rparr>)"
      by (subst tn_fill.simps) auto
    then show ?thesis using "1.prems" False by auto
  qed
qed

lemma tn_Read_stream:
  assumes "0 < n" "list_all (\<lambda>r. \<not> snd r) (tn_in c)"
  shows "case tn_Read n c of
      (Inr d, c') \<Rightarrow> tn_stream c = d @ tn_stream c' \<and> d \<noteq> [] \<and> length d \<le> n \<and> list_all (\<lambda>r. \<not> snd r) (tn_in c')
    | (Inl e, c') \<Rightarrow> e = ErrEOF \<and> tn_stream c = []"
proof -
  obtain eof c' where f: "tn_fill (tn_in c) c = (eof, c')" by fastforce
  note st = tn_fill_stream [OF f assms(2)]
  show ?thesis
  proof (cases eof)
    case True
    then show ?thesis using st f by (auto simp: tn_Read_def tn_stream_def)
  next
    case False
    let ?p = "tn_pending c'"
    let ?c = "c'\<lparr>tn_pending := drop n ?p\<rparr>"
    have "c' = ?c\<lparr>tn_in := tn_in ?c, tn_pending := take n ?p @ tn_pending ?c\<rparr>" by simp
    then have "tn_stream c' = take n ?p @ tn_stream (?c\<lparr>tn_in := tn_in ?c\<rparr>)"
      by (metis tn_stream_frame)
    then show ?thesis using st f False assms(1) by (simp add: tn_Read_def)
  qed
qed

text \<open>A caller that reads into a buffer of \<open>n\<close> bytes until an error, at most \<open>k\<close> times: what it
  got, and whether it saw the error.\<close>

fun tn_reads :: "nat \<Rightarrow> nat \<Rightarrow> telnetConn \<Rightarrow> bytes \<times> bool" where
  "tn_reads n 0 c = ([], False)"
| "tn_reads n (Suc k) c = (case tn_Read n c of
     (Inl e, c') \<Rightarrow> ([], True)
   | (Inr d, c') \<Rightarrow> (case tn_reads n k c' of (ds, e) \<Rightarrow> (d @ ds, e)))"

lemma tn_reads_stream:
  "0 < n \<Longrightarrow> list_all (\<lambda>r. \<not> snd r) (tn_in c) \<Longrightarrow> length (tn_stream c) < k \<Longrightarrow> tn_reads n k c = (tn_stream c, True)"
proof (induction k arbitrary: c)
  case (Suc k)
  obtain r c' where r: "tn_Read n c = (r, c')" by fastforce
  note rd = tn_Read_stream [OF Suc.prems(1,2), unfolded r]
  show ?case
  proof (cases r)
    case (Inl e)
    then show ?thesis using r rd by simp
  next
    case (Inr d)
    then have "tn_stream c = d @ tn_stream c'" "d \<noteq> []" "list_all (\<lambda>r. \<not> snd r) (tn_in c')" using rd by auto
    moreover from this Suc.prems(3) have "length (tn_stream c') < k" by (cases d) auto
    ultimately show ?thesis using Suc.IH [OF Suc.prems(1), of c'] r Inr by simp
  qed
qed simp

text \<open>
  C29: the caller's data comes through the transport whole, in order and without the protocol.
  Let the socket deliver the encoding of a list of items, cut into chunks in any way, and then
  end. Reading into a buffer of any positive size returns exactly the data bytes of the items,
  each read at least one, and then the end of the stream.
\<close>

theorem telnet_reads_data:
  assumes "0 < n" "list_all titem_ok items" "concat (map fst chunks) = concat (map titem_enc items)"
    "list_all (\<lambda>r. \<not> snd r) chunks" "length (concat (map titem_data items)) < k"
  shows "tn_reads n k (newTelnetConn chunks) = (concat (map titem_data items), True)"
proof -
  let ?c = "newTelnetConn chunks"
  have c: "tn_state ?c = StData" "tn_pending ?c = []" "tn_in ?c = chunks" by (simp_all add: newTelnetConn_def)
  have "tn_pending (feed (concat (map titem_enc is)) c) = tn_pending c @ concat (map titem_data is)"
    if "tn_state c = StData" "list_all titem_ok is" for "is" c
    using that by (induction "is" arbitrary: c) (simp_all add: feed_item)
  from this [OF c(1) assms(2)] have "tn_stream ?c = concat (map titem_data items)"
    using c assms(3) by (simp add: tn_stream_def)
  then show ?thesis using tn_reads_stream [of n ?c k] assms(1,4,5) c(3) by simp
qed

lemma telnet_reads_data_witness:
  "tn_reads 1 4 (newTelnetConn [([104, iac], False), ([iac, iac], False), ([tn_do, 6, 105], False)]) = ([104, 255, 105], True)"
  using telnet_reads_data [of 1 "[TData 104, TData 255, TCmd tn_do 6, TData 105]"
    "[([104, iac], False), ([iac, iac], False), ([tn_do, 6, 105], False)]" 4]
  by (simp add: tn_bytes)

end
