(* ===== verification/Pools.thy ===== *)
theory Pools
  imports Prelude "HOL-Library.AList" "HOL-Library.Multiset"
begin

text \<open>
  The shared registries of a running board: the connection limiter of
  \<open>transport/limits.go\<close> and the node pool, presence registry and roster of
  \<open>session/nodepool.go\<close>, \<open>session/presence.go\<close> and \<open>session/roster.go\<close>. Each operation
  that holds the registry's mutex is one atomic definition; where an operation takes
  several atomic steps (the limiter's semaphore and its per-address table, a login's
  registration and the closing of the session it displaces) the steps of all callers
  interleave freely in a step relation.
\<close>

section \<open>The connection limiter\<close>

record limits =
  MaxSessions :: int
  PerIP :: int

definition DefaultLimits :: limits where
  "DefaultLimits = \<lparr>MaxSessions = 100, PerIP = 5\<rparr>"

record limiter =
  lm_sem :: nat
  lm_cap :: nat
  lm_perIP :: "bytes \<rightharpoonup> int"
  lm_maxIP :: int

definition newLimiter :: "limits \<Rightarrow> limiter" where
  "newLimiter l = (let m = (if MaxSessions l \<le> 0 then 100 else MaxSessions l)
     in \<lparr>lm_sem = 0, lm_cap = nat m, lm_perIP = Map.empty, lm_maxIP = PerIP l\<rparr>)"

definition ip_count :: "limiter \<Rightarrow> bytes \<Rightarrow> int" where
  "ip_count lm ip = (case lm_perIP lm ip of None \<Rightarrow> 0 | Some n \<Rightarrow> n)"

text \<open>The atomic steps: sending on and receiving from the buffered channel (\<open>None\<close>: would
  block), and the two critical sections.\<close>

definition sem_push :: "limiter \<Rightarrow> limiter option" where
  "sem_push lm = (if lm_sem lm < lm_cap lm then Some (lm\<lparr>lm_sem := lm_sem lm + 1\<rparr>) else None)"

definition sem_pop :: "limiter \<Rightarrow> limiter option" where
  "sem_pop lm = (if 0 < lm_sem lm then Some (lm\<lparr>lm_sem := lm_sem lm - 1\<rparr>) else None)"

definition ip_admit :: "bytes \<Rightarrow> limiter \<Rightarrow> limiter option" where
  "ip_admit ip lm = (if 0 < lm_maxIP lm \<and> lm_maxIP lm \<le> ip_count lm ip then None
     else Some (lm\<lparr>lm_perIP := (lm_perIP lm)(ip \<mapsto> ip_count lm ip + 1)\<rparr>))"

definition ip_leave :: "bytes \<Rightarrow> limiter \<Rightarrow> limiter" where
  "ip_leave ip lm = (if 0 < ip_count lm ip
     then if ip_count lm ip - 1 = 0 then lm\<lparr>lm_perIP := (lm_perIP lm)(ip := None)\<rparr>
          else lm\<lparr>lm_perIP := (lm_perIP lm)(ip \<mapsto> ip_count lm ip - 1)\<rparr>
     else lm)"

text \<open>\<open>acquire\<close> and \<open>release\<close> run alone; \<open>None\<close> is a call that never returns.\<close>

definition acquire :: "bytes \<Rightarrow> limiter \<Rightarrow> (bool \<times> limiter) option" where
  "acquire ip lm = (case sem_push lm of
     None \<Rightarrow> Some (False, lm)
   | Some lm1 \<Rightarrow> (case ip_admit ip lm1 of
       None \<Rightarrow> map_option (Pair False) (sem_pop lm1)
     | Some lm2 \<Rightarrow> Some (True, lm2)))"

definition release :: "bytes \<Rightarrow> limiter \<Rightarrow> limiter option" where
  "release ip lm = sem_pop (ip_leave ip lm)"

text \<open>A caller's progress through \<open>acquire\<close>, its session and \<open>release\<close>.\<close>

datatype caller = Waiting bytes | Admitted bytes | Denied bytes | Serving bytes | Leaving bytes | Gone bytes

inductive lim_step :: "limiter \<times> caller list \<Rightarrow> limiter \<times> caller list \<Rightarrow> bool" where
  arrive: "lim_step (lm, cs) (lm, cs @ [Waiting ip])"
| take_slot: "i < length cs \<Longrightarrow> cs ! i = Waiting ip \<Longrightarrow> sem_push lm = Some lm' \<Longrightarrow>
    lim_step (lm, cs) (lm', cs[i := Admitted ip])"
| board_full: "i < length cs \<Longrightarrow> cs ! i = Waiting ip \<Longrightarrow> sem_push lm = None \<Longrightarrow>
    lim_step (lm, cs) (lm, cs[i := Gone ip])"
| admit_ip: "i < length cs \<Longrightarrow> cs ! i = Admitted ip \<Longrightarrow> ip_admit ip lm = Some lm' \<Longrightarrow>
    lim_step (lm, cs) (lm', cs[i := Serving ip])"
| deny_ip: "i < length cs \<Longrightarrow> cs ! i = Admitted ip \<Longrightarrow> ip_admit ip lm = None \<Longrightarrow>
    lim_step (lm, cs) (lm, cs[i := Denied ip])"
| give_back: "i < length cs \<Longrightarrow> cs ! i = Denied ip \<Longrightarrow> sem_pop lm = Some lm' \<Longrightarrow>
    lim_step (lm, cs) (lm', cs[i := Gone ip])"
| hang_up: "i < length cs \<Longrightarrow> cs ! i = Serving ip \<Longrightarrow>
    lim_step (lm, cs) (ip_leave ip lm, cs[i := Leaving ip])"
| free_slot: "i < length cs \<Longrightarrow> cs ! i = Leaving ip \<Longrightarrow> sem_pop lm = Some lm' \<Longrightarrow>
    lim_step (lm, cs) (lm', cs[i := Gone ip])"

fun holds_slot :: "caller \<Rightarrow> bool" where
  "holds_slot (Waiting ip) = False"
| "holds_slot (Gone ip) = False"
| "holds_slot _ = True"

definition slots :: "caller list \<Rightarrow> nat" where
  "slots cs = length (filter holds_slot cs)"

definition serving :: "bytes \<Rightarrow> caller list \<Rightarrow> nat" where
  "serving ip cs = length (filter (\<lambda>c. c = Serving ip) cs)"

definition lim_inv :: "limiter \<times> caller list \<Rightarrow> bool" where
  "lim_inv = (\<lambda>(lm, cs). lm_sem lm = slots cs \<and> lm_sem lm \<le> lm_cap lm \<and>
     (\<forall>ip. ip_count lm ip = int (serving ip cs)) \<and>
     (\<forall>ip. 0 < lm_maxIP lm \<longrightarrow> int (serving ip cs) \<le> lm_maxIP lm) \<and>
     (\<forall>ip. lm_perIP lm ip \<noteq> Some 0))"

definition lim_start :: "limits \<Rightarrow> limiter \<times> caller list" where
  "lim_start l = (newLimiter l, [])"

lemma count_update:
  assumes "i < length cs"
  shows "length (filter P (cs[i := c])) + (if P (cs ! i) then 1 else 0)
       = length (filter P cs) + (if P c then 1 else 0)"
proof -
  have "length (filter P cs) = length (filter P (take i cs)) + (if P (cs ! i) then 1 else 0)
      + length (filter P (drop (Suc i) cs))"
    by (subst id_take_nth_drop [OF assms]) simp
  then show ?thesis using assms by (simp add: upd_conv_take_nth_drop)
qed

lemma slots_update:
  "i < length cs \<Longrightarrow> slots (cs[i := c]) + (if holds_slot (cs ! i) then 1 else 0)
     = slots cs + (if holds_slot c then 1 else 0)"
  unfolding slots_def by (rule count_update)

lemma serving_update:
  "i < length cs \<Longrightarrow> serving ip (cs[i := c]) + (if cs ! i = Serving ip then 1 else 0)
     = serving ip cs + (if c = Serving ip then 1 else 0)"
  unfolding serving_def by (rule count_update)

lemma serving_same:
  "i < length cs \<Longrightarrow> (\<And>ip. cs ! i \<noteq> Serving ip) \<Longrightarrow> (\<And>ip. c \<noteq> Serving ip) \<Longrightarrow>
   serving ip (cs[i := c]) = serving ip cs"
  using serving_update [of i cs ip c] by simp

lemmas lim_ops = sem_push_def sem_pop_def ip_admit_def ip_leave_def ip_count_def

lemma ip_admit_count:
  assumes "ip_admit ip lm = Some lm'"
  shows "lm_sem lm' = lm_sem lm" "lm_cap lm' = lm_cap lm" "lm_maxIP lm' = lm_maxIP lm"
    "ip_count lm' a = ip_count lm a + (if a = ip then 1 else 0)"
    "0 < lm_maxIP lm \<Longrightarrow> ip_count lm ip < lm_maxIP lm"
    "0 \<le> ip_count lm ip \<Longrightarrow> lm_perIP lm b \<noteq> Some 0 \<Longrightarrow> lm_perIP lm' b \<noteq> Some 0"
  using assms by (auto simp: ip_admit_def ip_count_def split: if_splits)

lemma ip_leave_count:
  assumes "0 < ip_count lm ip"
  shows "lm_sem (ip_leave ip lm) = lm_sem lm" "lm_cap (ip_leave ip lm) = lm_cap lm"
    "lm_maxIP (ip_leave ip lm) = lm_maxIP lm"
    "ip_count (ip_leave ip lm) a = ip_count lm a - (if a = ip then 1 else 0)"
    "lm_perIP lm b \<noteq> Some 0 \<Longrightarrow> lm_perIP (ip_leave ip lm) b \<noteq> Some 0"
  using assms by (auto simp: ip_leave_def ip_count_def)

lemma sem_simps:
  "sem_push lm = Some lm' \<longleftrightarrow> lm_sem lm < lm_cap lm \<and> lm' = lm\<lparr>lm_sem := lm_sem lm + 1\<rparr>"
  "sem_pop lm = Some lm' \<longleftrightarrow> 0 < lm_sem lm \<and> lm' = lm\<lparr>lm_sem := lm_sem lm - 1\<rparr>"
  by (auto simp: sem_push_def sem_pop_def)

lemma ip_count_sem [simp]: "ip_count (lm\<lparr>lm_sem := n\<rparr>) a = ip_count lm a"
  by (simp add: ip_count_def)

lemma lim_inv_step: "lim_step s t \<Longrightarrow> lim_inv s \<Longrightarrow> lim_inv t"
proof (induction rule: lim_step.induct)
  case (arrive lm cs ip)
  then show ?case by (simp add: lim_inv_def slots_def serving_def)
next
  case (take_slot i cs ip lm lm')
  then show ?case using slots_update [of i cs "Admitted ip"]
    by (simp add: lim_inv_def sem_simps serving_same)
next
  case (board_full i cs ip lm)
  then show ?case using slots_update [of i cs "Gone ip"] by (simp add: lim_inv_def serving_same)
next
  case (admit_ip i cs ip lm lm')
  note n = ip_admit_count [OF admit_ip(3)]
  have sv: "serving a (cs[i := Serving ip]) = serving a cs + (if a = ip then 1 else 0)" for a
    using serving_update [of i cs a "Serving ip"] admit_ip(1,2) by simp
  show ?case
    using admit_ip n slots_update [of i cs "Serving ip"] by (auto simp: lim_inv_def sv)
next
  case (deny_ip i cs ip lm)
  then show ?case using slots_update [of i cs "Denied ip"] by (simp add: lim_inv_def serving_same)
next
  case (give_back i cs ip lm lm')
  then show ?case using slots_update [of i cs "Gone ip"]
    by (auto simp: lim_inv_def sem_simps serving_same)
next
  case (hang_up i cs ip lm)
  have "0 < serving ip cs"
    using serving_update [of i cs ip "Gone ip"] hang_up(1,2) by simp
  have "int (serving ip cs) \<le> lm_maxIP lm" if "0 < lm_maxIP lm"
    using hang_up(3) that by (simp add: lim_inv_def)
  then have le: "0 < lm_maxIP lm \<Longrightarrow> int (serving ip cs) - 1 \<le> lm_maxIP lm" by simp
  from \<open>0 < serving ip cs\<close> have pos: "0 < ip_count lm ip" using hang_up(3) by (simp add: lim_inv_def)
  have sv: "serving a (cs[i := Leaving ip]) = serving a cs - (if a = ip then 1 else 0)" for a
    using serving_update [of i cs a "Leaving ip"] hang_up(1,2) by (auto split: if_splits)
  show ?case
    using hang_up ip_leave_count [OF pos] \<open>0 < serving ip cs\<close> slots_update [of i cs "Leaving ip"]
    by (auto simp: lim_inv_def sv dest: le)
next
  case (free_slot i cs ip lm lm')
  then show ?case using slots_update [of i cs "Gone ip"]
    by (auto simp: lim_inv_def sem_simps serving_same)
qed

lemma lim_inv_start: "lim_inv (lim_start l)"
  by (simp add: lim_inv_def lim_start_def newLimiter_def Let_def slots_def serving_def ip_count_def)

lemma lim_reach_inv: "lim_step\<^sup>*\<^sup>* (lim_start l) s \<Longrightarrow> lim_inv s"
  by (induction rule: rtranclp_induct) (auto intro: lim_inv_start lim_inv_step)

lemma lim_params: "lim_step s t \<Longrightarrow> lm_cap (fst t) = lm_cap (fst s) \<and> lm_maxIP (fst t) = lm_maxIP (fst s)"
  by (induction rule: lim_step.induct) (auto simp: sem_simps ip_admit_count ip_leave_def)

lemma lim_reach_params:
  "lim_step\<^sup>*\<^sup>* (lim_start l) s \<Longrightarrow>
   lm_cap (fst s) = lm_cap (newLimiter l) \<and> lm_maxIP (fst s) = PerIP l"
  by (induction rule: rtranclp_induct) (auto simp: lim_start_def newLimiter_def Let_def dest: lim_params)

lemma serving_le_slots: "length (filter (\<lambda>c. \<exists>ip. c = Serving ip) cs) \<le> slots cs"
  unfolding slots_def by (induction cs) auto

lemma one_caller_reachable:
  "lim_step\<^sup>*\<^sup>* (lim_start DefaultLimits)
     ((newLimiter DefaultLimits)\<lparr>lm_sem := 1, lm_perIP := [[1] \<mapsto> 1]\<rparr>, [Serving [1]])"
proof -
  let ?l = DefaultLimits
  let ?a = "newLimiter ?l" let ?b = "?a\<lparr>lm_sem := 1\<rparr>" let ?c = "?b\<lparr>lm_perIP := [[1] \<mapsto> 1]\<rparr>"
  have "lim_step (?a, []) (?a, [Waiting [1]])" using arrive [of ?a "[]"] by simp
  moreover have "lim_step (?a, [Waiting [1]]) (?b, [Admitted [1]])"
    using take_slot [of 0 "[Waiting [1]]" "[1]" ?a ?b]
    by (simp add: sem_push_def newLimiter_def DefaultLimits_def Let_def)
  moreover have "lim_step (?b, [Admitted [1]]) (?c, [Serving [1]])"
    using admit_ip [of 0 "[Admitted [1]]" "[1]" ?b ?c]
    by (simp add: ip_admit_def ip_count_def newLimiter_def DefaultLimits_def Let_def)
  ultimately show ?thesis
    unfolding lim_start_def by (meson converse_rtranclp_into_rtranclp rtranclp.rtrancl_refl)
qed

text \<open>
  C22: under every interleaving of arrivals, admissions and departures the caps hold: at
  most \<open>MaxSessions\<close> callers (100 when the setting is not positive) are served at once,
  and with a positive \<open>PerIP\<close> at most that many from one address.
\<close>

theorem limiter_caps:
  assumes "lim_step\<^sup>*\<^sup>* (lim_start l) (lm, cs)"
  shows "int (length (filter (\<lambda>c. \<exists>ip. c = Serving ip) cs)) \<le> (if MaxSessions l \<le> 0 then 100 else MaxSessions l) \<and>
    (0 < PerIP l \<longrightarrow> int (serving ip cs) \<le> PerIP l)"
proof (intro conjI impI)
  have inv: "lim_inv (lm, cs)" using assms by (rule lim_reach_inv)
  have par: "lm_cap lm = lm_cap (newLimiter l)" "lm_maxIP lm = PerIP l"
    using lim_reach_params [OF assms] by auto
  show "int (length (filter (\<lambda>c. \<exists>ip. c = Serving ip) cs)) \<le> (if MaxSessions l \<le> 0 then 100 else MaxSessions l)"
    using inv par serving_le_slots [of cs] by (auto simp: lim_inv_def newLimiter_def Let_def split: if_splits)
  show "0 < PerIP l \<Longrightarrow> int (serving ip cs) \<le> PerIP l"
    using inv par by (auto simp: lim_inv_def)
qed

lemma limiter_caps_witness:
  "int (length (filter (\<lambda>c. \<exists>ip. c = Serving ip) [Serving [1]])) \<le> 100 \<and> int (serving [1] [Serving [1]]) \<le> 5"
  using limiter_caps [OF one_caller_reachable] by (simp add: DefaultLimits_def)

text \<open>
  C23: the limiter neither blocks nor leaks. Under every interleaving, a caller that must
  give its slot back finds the semaphore non-empty (\<open>release\<close> and the refusal path of
  \<open>acquire\<close> never wait), and when every caller is gone the limiter is as it was
  created: no slot taken and an empty address table.
\<close>

theorem limiter_no_leak:
  assumes "lim_step\<^sup>*\<^sup>* (lim_start l) (lm, cs)"
  shows "(Denied ip \<in> set cs \<longrightarrow> sem_pop lm \<noteq> None) \<and>
    (Leaving ip \<in> set cs \<longrightarrow> sem_pop lm \<noteq> None) \<and>
    (Serving ip \<in> set cs \<longrightarrow> release ip lm \<noteq> None) \<and>
    ((\<forall>c. c \<in> set cs \<longrightarrow> (\<exists>ip. c = Gone ip)) \<longrightarrow> lm = newLimiter l)"
proof (intro conjI impI)
  have inv: "lim_inv (lm, cs)" using assms by (rule lim_reach_inv)
  have pos: "0 < lm_sem lm" if "c \<in> set cs" "holds_slot c" for c
    using inv that by (auto simp: lim_inv_def slots_def filter_empty_conv)
  show "Denied ip \<in> set cs \<Longrightarrow> sem_pop lm \<noteq> None" using pos by (auto simp: sem_pop_def)
  show "Leaving ip \<in> set cs \<Longrightarrow> sem_pop lm \<noteq> None" using pos by (auto simp: sem_pop_def)
  show "Serving ip \<in> set cs \<Longrightarrow> release ip lm \<noteq> None"
    using pos by (auto simp: release_def sem_pop_def ip_leave_def)
  assume gone: "\<forall>c. c \<in> set cs \<longrightarrow> (\<exists>ip. c = Gone ip)"
  then have "slots cs = 0" "serving a cs = 0" for a
    by (fastforce simp: slots_def serving_def filter_empty_conv)+
  then have sem: "lm_sem lm = 0" and cnt: "ip_count lm a = 0" and nz: "lm_perIP lm a \<noteq> Some 0" for a
    using inv by (auto simp: lim_inv_def)
  have "lm_perIP lm a = None" for a
    using cnt [of a] nz [of a] by (cases "lm_perIP lm a") (simp_all add: ip_count_def)
  then have "lm_perIP lm = Map.empty" by (intro ext)
  then show "lm = newLimiter l"
    using sem lim_reach_params [OF assms] by (simp add: newLimiter_def Let_def)
qed

lemma limiter_no_leak_witness:
  "release [1] ((newLimiter DefaultLimits)\<lparr>lm_sem := 1, lm_perIP := [[1] \<mapsto> 1]\<rparr>) \<noteq> None"
  using limiter_no_leak [OF one_caller_reachable, of "[1]"] by simp

section \<open>Node numbers\<close>

record NodePool =
  np_used :: "int set"
  np_max :: int

definition NewNodePool :: "int \<Rightarrow> NodePool" where
  "NewNodePool m = \<lparr>np_used = {}, np_max = (if m \<le> 0 then 64 else m)\<rparr>"

text \<open>The search of \<open>Acquire\<close> from node \<open>n\<close> on.\<close>

function np_scan :: "int \<Rightarrow> NodePool \<Rightarrow> int" where
  "np_scan n p = (if n \<le> np_max p then if n \<in> np_used p then np_scan (n + 1) p else n else 0)"
  by pat_completeness auto
termination
  by (relation "measure (\<lambda>(n, p). nat (np_max p + 1 - n))") auto

declare np_scan.simps [simp del]

definition np_Acquire :: "NodePool \<Rightarrow> int \<times> NodePool" where
  "np_Acquire p = (let n = np_scan 1 p in
     if n = 0 then (0, p) else (n, p\<lparr>np_used := insert n (np_used p)\<rparr>))"

definition np_Release :: "int \<Rightarrow> NodePool \<Rightarrow> NodePool" where
  "np_Release n p = p\<lparr>np_used := np_used p - {n}\<rparr>"

text \<open>
  What a session relies on: a handle it is given is nobody else's, and giving it back
  frees that handle only. \<open>held\<close> is the set of handles out, \<open>good\<close> the legal handles;
  \<open>None\<close> means every legal handle is out.
\<close>

locale handle_pool =
  fixes held :: "'s \<Rightarrow> 'i set" and good :: "'s \<Rightarrow> 'i set"
    and acq :: "'s \<Rightarrow> 'i option \<times> 's" and rel :: "'i \<Rightarrow> 's \<Rightarrow> 's"
  assumes acq_Some: "acq s = (Some i, s') \<Longrightarrow>
      i \<in> good s \<and> i \<notin> held s \<and> held s' = insert i (held s) \<and> good s' = good s"
    and acq_None: "acq s = (None, s') \<Longrightarrow> s' = s \<and> good s \<subseteq> held s"
    and rel_held: "held (rel i s) = held s - {i}" "good (rel i s) = good s"
begin

text \<open>Sessions come (\<open>Inl\<close>) and go (\<open>Inr k\<close>: the one in place \<open>k\<close>), each keeping the handle
  it was given; a session that gets none is turned away.\<close>

fun sessions :: "(unit + nat) list \<Rightarrow> 's \<times> 'i list \<Rightarrow> 's \<times> 'i list" where
  "sessions [] st = st"
| "sessions (Inl u # es) (s, is) = (case acq s of
     (Some i, s') \<Rightarrow> sessions es (s', i # is) | (None, s') \<Rightarrow> sessions es (s', is))"
| "sessions (Inr k # es) (s, is) = (if k < length is
     then sessions es (rel (is ! k) s, take k is @ drop (Suc k) is) else sessions es (s, is))"

definition pool_inv :: "'s \<times> 'i list \<Rightarrow> bool" where
  "pool_inv = (\<lambda>(s, is). distinct is \<and> set is = held s \<and> held s \<subseteq> good s)"

lemma pool_inv_drop:
  assumes "pool_inv (s, is)" "k < length is"
  shows "pool_inv (rel (is ! k) s, take k is @ drop (Suc k) is)"
proof -
  have sp: "is = take k is @ is ! k # drop (Suc k) is" using assms(2) by (rule id_take_nth_drop)
  have "distinct (take k is @ is ! k # drop (Suc k) is)"
    "set (take k is @ is ! k # drop (Suc k) is) = held s"
    using assms(1) sp by (auto simp: pool_inv_def)
  then show ?thesis using assms(1) by (auto simp: pool_inv_def rel_held)
qed

lemma sessions_inv: "pool_inv st \<Longrightarrow> pool_inv (sessions es st) \<and> good (fst (sessions es st)) = good (fst st)"
proof (induction es st rule: sessions.induct)
  case (2 u es s "is")
  obtain r s' where a: "acq s = (r, s')" by fastforce
  show ?case
  proof (cases r)
    case None
    then have "s' = s" using a acq_None by blast
    then show ?thesis using 2 a None by simp
  next
    case (Some i)
    then have "pool_inv (s', i # is)" "good s' = good s"
      using a acq_Some [of s i s'] "2.prems" by (auto simp: pool_inv_def)
    then show ?thesis using 2 a Some by simp
  qed
next
  case (3 k es s "is")
  then show ?case using pool_inv_drop [of s "is" k] by (auto simp: rel_held)
qed simp

lemma sessions_distinct:
  assumes "held s = {}" "sessions es (s, []) = (s', is)"
  shows "distinct is" "set is \<subseteq> good s" "set is = held s'"
  using sessions_inv [of "(s, [])" es] assms by (auto simp: pool_inv_def)

end

definition np_good :: "NodePool \<Rightarrow> int set" where
  "np_good p = {1 .. np_max p}"

definition np_acq :: "NodePool \<Rightarrow> int option \<times> NodePool" where
  "np_acq p = (case np_Acquire p of (n, p') \<Rightarrow> (if n = 0 then None else Some n, p'))"

lemma np_scan_spec:
  assumes "1 \<le> n"
  shows "(np_scan n p \<noteq> 0 \<and> n \<le> np_scan n p \<and> np_scan n p \<le> np_max p \<and> np_scan n p \<notin> np_used p \<and>
      {n ..< np_scan n p} \<subseteq> np_used p) \<or> (np_scan n p = 0 \<and> {n .. np_max p} \<subseteq> np_used p)"
  using assms
proof (induction n p rule: np_scan.induct)
  case (1 n p)
  show ?case
  proof (cases "n \<le> np_max p \<and> n \<in> np_used p")
    case True
    then have step: "np_scan n p = np_scan (n + 1) p" by (simp add: np_scan.simps [of n])
    have ins: "{n ..< m} \<subseteq> insert n {n + 1 ..< m}" "{n .. m} \<subseteq> insert n {n + 1 .. m}" for m by auto
    show ?thesis using 1(1) True "1.prems" ins unfolding step
      by (smt (verit, best) insert_subset subset_trans)
  next
    case False
    then show ?thesis using "1.prems" by (auto simp: np_scan.simps [of n])
  qed
qed

interpretation node_pool: handle_pool np_used np_good np_acq np_Release
proof
  fix s s' :: NodePool and i :: int
  note scan = np_scan_spec [of 1 s]
  show "i \<in> np_good s \<and> i \<notin> np_used s \<and> np_used s' = insert i (np_used s) \<and> np_good s' = np_good s"
    if "np_acq s = (Some i, s')"
    using that scan by (auto simp: np_acq_def np_Acquire_def Let_def np_good_def split: if_splits)
  show "s' = s \<and> np_good s \<subseteq> np_used s" if "np_acq s = (None, s')"
    using that scan by (auto simp: np_acq_def np_Acquire_def Let_def np_good_def split: if_splits)
qed (simp_all add: np_Release_def np_good_def)

text \<open>
  Concurrent sessions never share a node. Starting from a new pool, after any
  sequence of sessions coming and going in any order, the node numbers of the sessions
  present are pairwise distinct and lie in \<open>1 .. max\<close> (64 when \<open>max\<close> is not positive), and
  the pool marks exactly those as used.
\<close>

theorem node_numbers_distinct:
  assumes "node_pool.sessions es (NewNodePool m, []) = (p, ns)"
  shows "distinct ns \<and> set ns \<subseteq> {1 .. (if m \<le> 0 then 64 else m)} \<and> np_used p = set ns"
  using node_pool.sessions_distinct [OF _ assms]
  by (simp_all add: NewNodePool_def np_good_def)

lemma node_numbers_distinct_witness:
  "distinct (snd (node_pool.sessions [Inl (), Inl (), Inr 1, Inl ()] (NewNodePool 2, [])))"
  using node_numbers_distinct [of "[Inl (), Inl (), Inr 1, Inl ()]" 2] by (metis prod.collapse)

text \<open>
  \<open>Acquire\<close> hands out the lowest free node, and reports 0 exactly when every node is
  busy; releasing a node makes it the next candidate again.
\<close>

theorem Acquire_lowest:
  fixes p :: NodePool
  shows "fst (np_Acquire p) = 0 \<longleftrightarrow> {1 .. np_max p} \<subseteq> np_used p"
    and "fst (np_Acquire p) \<noteq> 0 \<Longrightarrow> fst (np_Acquire p) \<in> {1 .. np_max p} - np_used p"
    and "n \<in> {1 .. np_max p} - np_used p \<Longrightarrow> fst (np_Acquire p) \<le> n"
    and "n \<in> {1 .. np_max p} \<Longrightarrow> fst (np_Acquire (np_Release n p)) \<noteq> 0"
proof -
  have A: "(fst (np_Acquire q) \<in> {1 .. np_max q} - np_used q \<and> {1 ..< fst (np_Acquire q)} \<subseteq> np_used q)
      \<or> (fst (np_Acquire q) = 0 \<and> {1 .. np_max q} \<subseteq> np_used q)" for q :: NodePool
    using np_scan_spec [of 1 q] by (auto simp: np_Acquire_def Let_def)
  show "fst (np_Acquire p) = 0 \<longleftrightarrow> {1 .. np_max p} \<subseteq> np_used p"
    using A [of p] by auto
  show "fst (np_Acquire p) \<in> {1 .. np_max p} - np_used p" if "fst (np_Acquire p) \<noteq> 0"
    using A [of p] that by auto
  show "fst (np_Acquire p) \<le> n" if "n \<in> {1 .. np_max p} - np_used p"
    using A [of p] that by (auto simp: subset_iff)
  show "fst (np_Acquire (np_Release n p)) \<noteq> 0" if "n \<in> {1 .. np_max p}"
    using A [of "np_Release n p"] that by (auto simp: np_Release_def)
qed

lemma Acquire_lowest_witness:
  "fst (np_Acquire \<lparr>np_used = {1, 3}, np_max = 4\<rparr>) \<le> 2 \<and>
   fst (np_Acquire (np_Release 1 \<lparr>np_used = {1, 3}, np_max = 4\<rparr>)) \<noteq> 0"
  using Acquire_lowest(3) [of 2 "\<lparr>np_used = {1, 3}, np_max = 4\<rparr>"]
    Acquire_lowest(4) [of 1 "\<lparr>np_used = {1, 3}, np_max = 4\<rparr>"] by simp

section \<open>One live session per handle\<close>

text \<open>A session's close function is represented by the session's own token id.\<close>

record presence =
  pr_cur :: "bytes \<rightharpoonup> int"
  pr_seq :: int

definition NewPresence :: presence where
  "NewPresence = \<lparr>pr_cur = Map.empty, pr_seq = 0\<rparr>"

text \<open>\<open>Enter\<close> returns the new token and the token of the session whose close function it
  must call after releasing the lock.\<close>

definition pr_Enter :: "bytes \<Rightarrow> presence \<Rightarrow> int \<times> int option \<times> presence" where
  "pr_Enter handle p = (let i = pr_seq p + 1 in
     (i, pr_cur p handle, p\<lparr>pr_seq := i, pr_cur := (pr_cur p)(handle \<mapsto> i)\<rparr>))"

definition pr_Leave :: "bytes \<Rightarrow> int \<Rightarrow> presence \<Rightarrow> presence" where
  "pr_Leave handle i p = (if pr_cur p handle = Some i
     then p\<lparr>pr_cur := (pr_cur p)(handle := None)\<rparr> else p)"

text \<open>
  A board's sessions. \<open>ps_open\<close> are those registered that have not left yet. \<open>Enter\<close> is two
  steps: \<open>register\<close> is its part under the lock; then, if there was a session of the handle before,
  the call of that session's close function is under way, in \<open>ps_calls\<close> as handle, caller and
  displaced session, for as long as its output to the wire takes; \<open>closed\<close> is its return, after
  which the displaced session is in \<open>ps_told\<close>. A session can leave at any time after its own
  \<open>Enter\<close> has returned, displaced or not.
\<close>

record psys =
  ps_reg :: presence
  ps_open :: "(bytes \<times> int) list"
  ps_calls :: "(bytes \<times> int \<times> int) list"
  ps_told :: "(bytes \<times> int) list"

inductive pr_step :: "psys \<Rightarrow> psys \<Rightarrow> bool" where
  register: "pr_Enter h (ps_reg s) = (i, prev, p) \<Longrightarrow>
    pr_step s (s\<lparr>ps_reg := p, ps_open := (h, i) # ps_open s,
      ps_calls := (case prev of None \<Rightarrow> [] | Some j \<Rightarrow> [(h, i, j)]) @ ps_calls s\<rparr>)"
| closed: "(h, i, j) \<in> set (ps_calls s) \<Longrightarrow>
    pr_step s (s\<lparr>ps_calls := removeAll (h, i, j) (ps_calls s), ps_told := (h, j) # ps_told s\<rparr>)"
| leave: "(h, i) \<in> set (ps_open s) \<Longrightarrow> \<forall>j. (h, i, j) \<notin> set (ps_calls s) \<Longrightarrow>
    pr_step s (s\<lparr>ps_reg := pr_Leave h i (ps_reg s), ps_open := removeAll (h, i) (ps_open s)\<rparr>)"

definition ps_start :: psys where
  "ps_start = \<lparr>ps_reg = NewPresence, ps_open = [], ps_calls = [], ps_told = []\<rparr>"

text \<open>A session is cared for when it is the registered one, is being closed, or was closed.\<close>

definition cared :: "psys \<Rightarrow> bytes \<Rightarrow> int \<Rightarrow> bool" where
  "cared s h j \<longleftrightarrow> pr_cur (ps_reg s) h = Some j \<or> (\<exists>i. (h, i, j) \<in> set (ps_calls s)) \<or> (h, j) \<in> set (ps_told s)"

definition displaced :: "psys \<Rightarrow> bytes \<Rightarrow> int \<Rightarrow> bool" where
  "displaced s h j \<longleftrightarrow> (\<exists>i. (h, i, j) \<in> set (ps_calls s)) \<or> (h, j) \<in> set (ps_told s)"

definition ps_inv :: "psys \<Rightarrow> bool" where
  "ps_inv s \<longleftrightarrow>
     (\<forall>h j. (h, j) \<in> set (ps_open s) \<longrightarrow> cared s h j \<and> j \<le> pr_seq (ps_reg s)) \<and>
     (\<forall>h j. displaced s h j \<longrightarrow> j \<le> pr_seq (ps_reg s)) \<and>
     (\<forall>h i. pr_cur (ps_reg s) h = Some i \<longrightarrow> (h, i) \<in> set (ps_open s) \<and>
        (\<forall>j. (h, j) \<in> set (ps_open s) \<longrightarrow> j \<le> i) \<and> (\<forall>j. displaced s h j \<longrightarrow> j < i))"

lemma ps_invD:
  assumes "ps_inv s"
  shows "(h, j) \<in> set (ps_open s) \<Longrightarrow> cared s h j" "(h, j) \<in> set (ps_open s) \<Longrightarrow> j \<le> pr_seq (ps_reg s)"
    "displaced s h j \<Longrightarrow> j \<le> pr_seq (ps_reg s)" "pr_cur (ps_reg s) h = Some i \<Longrightarrow> (h, i) \<in> set (ps_open s)"
    "pr_cur (ps_reg s) h = Some i \<Longrightarrow> (h, j) \<in> set (ps_open s) \<Longrightarrow> j \<le> i"
    "pr_cur (ps_reg s) h = Some i \<Longrightarrow> displaced s h j \<Longrightarrow> j < i"
  using assms unfolding ps_inv_def by blast+

lemma ps_inv_register:
  assumes "pr_Enter h (ps_reg s) = (i, prev, p)" "ps_inv s"
  shows "ps_inv (s\<lparr>ps_reg := p, ps_open := (h, i) # ps_open s,
      ps_calls := (case prev of None \<Rightarrow> [] | Some j \<Rightarrow> [(h, i, j)]) @ ps_calls s\<rparr>)" (is "ps_inv ?t")
proof -
  have ent: "i = pr_seq (ps_reg s) + 1" "prev = pr_cur (ps_reg s) h" "pr_seq p = i" "pr_cur p = (pr_cur (ps_reg s))(h \<mapsto> i)"
    using assms(1) by (auto simp: pr_Enter_def Let_def)
  have disp: "displaced ?t h' j \<Longrightarrow> displaced s h' j \<or> h' = h \<and> prev = Some j" for h' j
    by (auto simp: displaced_def split: option.splits)
  have old: "j < i" if "displaced ?t h' j" for h' j
    using disp [OF that] ps_invD(3) [OF assms(2), of h' j] ps_invD(2,4) [OF assms(2), of h] ent(1,2) by force
  have care: "cared ?t h' j" if "cared s h' j" for h' j
    using that ent(2,4) by (cases "h' = h") (auto simp: cared_def)
  have new: "cared ?t h i" by (simp add: cared_def ent(4))
  show ?thesis
    unfolding ps_inv_def
  proof (intro conjI allI impI)
    fix h' j assume o: "(h', j) \<in> set (ps_open ?t)"
    then show "cared ?t h' j" using new care ps_invD(1) [OF assms(2), of h' j] by auto
    show "j \<le> pr_seq (ps_reg ?t)" using o ps_invD(2) [OF assms(2), of h' j] ent by auto
  next
    fix h' j assume "displaced ?t h' j"
    then show "j \<le> pr_seq (ps_reg ?t)" using old ent(3) by fastforce
  next
    fix h' k assume c: "pr_cur (ps_reg ?t) h' = Some k"
    then have k: "if h' = h then k = i else pr_cur (ps_reg s) h' = Some k" using ent(4) by (auto split: if_splits)
    show "(h', k) \<in> set (ps_open ?t)" using k ps_invD(4) [OF assms(2), of h' k] by (auto split: if_splits)
    show "j \<le> k" if "(h', j) \<in> set (ps_open ?t)" for j
      using that k ps_invD(5) [OF assms(2), of h' k j] ps_invD(2) [OF assms(2), of h' j] ent(1) by (auto split: if_splits)
    show "j < k" if "displaced ?t h' j" for j
      using that k old [OF that] disp [OF that] ps_invD(6) [OF assms(2), of h' k j] by (auto split: if_splits)
  qed
qed

lemma ps_inv_closed:
  assumes "(h, i, j) \<in> set (ps_calls s)" "ps_inv s"
  shows "ps_inv (s\<lparr>ps_calls := removeAll (h, i, j) (ps_calls s), ps_told := (h, j) # ps_told s\<rparr>)" (is "ps_inv ?t")
proof -
  have "displaced ?t h' k = displaced s h' k" for h' k using assms(1) by (auto simp: displaced_def)
  moreover have "cared ?t h' k = cared s h' k" for h' k using assms(1) by (auto simp: cared_def)
  ultimately show ?thesis using assms(2) by (simp add: ps_inv_def)
qed

lemma ps_inv_leave:
  assumes "ps_inv s"
  shows "ps_inv (s\<lparr>ps_reg := pr_Leave h i (ps_reg s), ps_open := removeAll (h, i) (ps_open s)\<rparr>)" (is "ps_inv ?t")
proof -
  have cur: "pr_cur (ps_reg ?t) h' = Some k \<longleftrightarrow> pr_cur (ps_reg s) h' = Some k \<and> (h', k) \<noteq> (h, i)" for h' k
    by (auto simp: pr_Leave_def)
  have "displaced ?t h' k = displaced s h' k" for h' k by (simp add: displaced_def)
  moreover have "cared ?t h' k" if "cared s h' k" "(h', k) \<noteq> (h, i)" for h' k
    using that by (auto simp: cared_def pr_Leave_def)
  moreover have "pr_seq (ps_reg ?t) = pr_seq (ps_reg s)" by (simp add: pr_Leave_def)
  ultimately show ?thesis using assms cur unfolding ps_inv_def by (simp only: cur) auto
qed

lemma ps_inv_step: "pr_step s t \<Longrightarrow> ps_inv s \<Longrightarrow> ps_inv t"
  by (induction rule: pr_step.induct) (simp_all only: ps_inv_register ps_inv_closed ps_inv_leave)

lemma ps_inv_start: "ps_inv ps_start"
  by (simp add: ps_start_def ps_inv_def NewPresence_def displaced_def)

lemma ps_reach_inv: "pr_step\<^sup>*\<^sup>* ps_start s \<Longrightarrow> ps_inv s"
  by (induction rule: rtranclp_induct) (auto intro: ps_inv_step ps_inv_start)

lemma newest_stays:
  assumes "pr_step s t" "ps_inv s" "pr_cur (ps_reg s) h = Some i" "(h, i) \<in> set (ps_open t)"
  shows "\<exists>k \<ge> i. pr_cur (ps_reg t) h = Some k"
  using assms(1)
proof cases
  case (register h' i' prev p)
  then show ?thesis
    using assms(3) ps_invD(2,4) [OF assms(2), of h i] by (auto simp: pr_Enter_def Let_def)
qed (use assms(3,4) in \<open>auto simp: pr_Leave_def split: if_splits\<close>)

text \<open>
  C24: newest login wins, over every interleaving of registrations, close calls and departures.
  A session that has not left is the registered one of its handle, or the call of its close
  function is under way, or that call has returned; the registered session is the newest and is
  neither being closed nor was. When no close call of a handle is under way, at most one of its
  sessions has not been closed. And nobody but a newer login takes the registration from a
  session before it leaves itself: a displaced session that leaves later does not evict it.
\<close>

theorem presence_newest_wins:
  assumes "pr_step\<^sup>*\<^sup>* ps_start s"
  shows "((h, j) \<in> set (ps_open s) \<longrightarrow>
      pr_cur (ps_reg s) h = Some j \<or> (\<exists>i. (h, i, j) \<in> set (ps_calls s)) \<or> (h, j) \<in> set (ps_told s)) \<and>
    (pr_cur (ps_reg s) h = Some i \<longrightarrow> (h, i) \<in> set (ps_open s) \<and> ((h, j) \<in> set (ps_open s) \<longrightarrow> j \<le> i) \<and>
      (h, i) \<notin> set (ps_told s) \<and> (\<forall>k. (h, k, i) \<notin> set (ps_calls s))) \<and>
    ((\<forall>k m. (h, k, m) \<notin> set (ps_calls s)) \<longrightarrow> {(h, i), (h, j)} \<subseteq> set (ps_open s) - set (ps_told s) \<longrightarrow> i = j) \<and>
    (pr_step s t \<longrightarrow> pr_cur (ps_reg s) h = Some i \<longrightarrow> (h, i) \<in> set (ps_open t) \<longrightarrow> (\<exists>k \<ge> i. pr_cur (ps_reg t) h = Some k))"
proof -
  have inv: "ps_inv s" using assms by (rule ps_reach_inv)
  have care: "(h, j) \<in> set (ps_open s) \<longrightarrow>
      pr_cur (ps_reg s) h = Some j \<or> (\<exists>i. (h, i, j) \<in> set (ps_calls s)) \<or> (h, j) \<in> set (ps_told s)" for j
    using ps_invD(1) [OF inv] by (auto simp: cared_def)
  have new: "pr_cur (ps_reg s) h = Some i \<longrightarrow> (h, i) \<in> set (ps_open s) \<and> ((h, j) \<in> set (ps_open s) \<longrightarrow> j \<le> i) \<and>
      (h, i) \<notin> set (ps_told s) \<and> (\<forall>k. (h, k, i) \<notin> set (ps_calls s))"
    using ps_invD(4,5) [OF inv] ps_invD(6) [OF inv, of h i i] by (auto simp: displaced_def)
  have "i = j" if "\<forall>k m. (h, k, m) \<notin> set (ps_calls s)" "{(h, i), (h, j)} \<subseteq> set (ps_open s) - set (ps_told s)"
    using that care [of i] care [of j] by auto
  then show ?thesis using care [of j] new newest_stays [OF _ inv] by blast
qed

lemma presence_newest_wins_witness:
  "\<exists>s. pr_step\<^sup>*\<^sup>* ps_start s \<and> pr_cur (ps_reg s) [97] = Some 2 \<and> ([97], 1) \<in> set (ps_open s) \<and>
     ps_calls s = [] \<and> ([97], 1) \<in> set (ps_told s)"
proof -
  let ?r = "\<lparr>pr_cur = [[97] \<mapsto> 2], pr_seq = 2\<rparr>"
  let ?a = "\<lparr>ps_reg = \<lparr>pr_cur = [[97] \<mapsto> 1], pr_seq = 1\<rparr>, ps_open = [([97], 1)], ps_calls = [], ps_told = []\<rparr>"
  let ?b = "\<lparr>ps_reg = ?r, ps_open = [([97], 2), ([97], 1)], ps_calls = [([97], 2, 1)], ps_told = []\<rparr>"
  let ?c = "\<lparr>ps_reg = ?r, ps_open = [([97], 2), ([97], 1)], ps_calls = [], ps_told = [([97], 1)]\<rparr>"
  have "pr_step ps_start ?a"
    using register [of "[97]" ps_start 1 None "\<lparr>pr_cur = [[97] \<mapsto> 1], pr_seq = 1\<rparr>"]
    by (simp add: ps_start_def NewPresence_def pr_Enter_def Let_def)
  moreover have "pr_step ?a ?b" using register [of "[97]" ?a 2 "Some 1" ?r] by (simp add: pr_Enter_def Let_def)
  moreover have "pr_step ?b ?c" using closed [of "[97]" 2 1 ?b] by simp
  ultimately have c: "pr_step\<^sup>*\<^sup>* ps_start ?c" by simp
  from presence_newest_wins [OF this, of "[97]" 1 2] have "([97], 1) \<in> set (ps_told ?c)" by simp
  with c show ?thesis by (intro exI [of _ ?c]) simp
qed

section \<open>Who is online\<close>

record online =
  on_Node :: int
  on_Handle :: bytes
  on_IP :: bytes
  on_Transport :: bytes
  on_Since :: int

text \<open>The map by node number, as the list of its entries.\<close>

type_synonym roster = "(int \<times> online) list"

definition NewRoster :: roster where
  "NewRoster = []"

definition ro_Join :: "int \<Rightarrow> bytes \<Rightarrow> bytes \<Rightarrow> bytes \<Rightarrow> int \<Rightarrow> roster \<Rightarrow> roster" where
  "ro_Join node handle ip transport now r =
     AList.update node \<lparr>on_Node = node, on_Handle = handle, on_IP = ip, on_Transport = transport, on_Since = now\<rparr> r"

definition ro_Leave :: "int \<Rightarrow> roster \<Rightarrow> roster" where
  "ro_Leave node r = AList.delete node r"

definition ro_List :: "roster \<Rightarrow> online list" where
  "ro_List r = sort_key on_Node (map snd r)"

definition ro_Count :: "roster \<Rightarrow> nat" where
  "ro_Count r = length r"

datatype ro_event = RJoin int bytes bytes bytes int | RLeave int

fun ro_apply :: "ro_event \<Rightarrow> roster \<Rightarrow> roster" where
  "ro_apply (RJoin n h ip t now) r = ro_Join n h ip t now r"
| "ro_apply (RLeave n) r = ro_Leave n r"

definition ro_inv :: "roster \<Rightarrow> bool" where
  "ro_inv r \<longleftrightarrow> distinct (map fst r) \<and> (\<forall>(n, o1) \<in> set r. on_Node o1 = n)"

lemma ro_inv_apply: "ro_inv r \<Longrightarrow> ro_inv (ro_apply e r)"
proof (cases e)
  case (RJoin n h ip t now)
  let ?o = "\<lparr>on_Node = n, on_Handle = h, on_IP = ip, on_Transport = t, on_Since = now\<rparr>"
  assume "ro_inv r"
  moreover have "set (AList.update n ?o r) \<subseteq> insert (n, ?o) (set r)"
    by (induction r) auto
  ultimately show ?thesis
    using RJoin by (fastforce simp: ro_inv_def ro_Join_def intro: distinct_update)
next
  case (RLeave n)
  assume "ro_inv r"
  then show ?thesis using RLeave
    by (auto simp: ro_inv_def ro_Leave_def AList.delete_eq distinct_map_filter)
qed

lemma ro_inv_run: "ro_inv (fold ro_apply es NewRoster)"
proof -
  have "ro_inv r \<Longrightarrow> ro_inv (fold ro_apply es r)" for r
    by (induction es arbitrary: r) (auto intro: ro_inv_apply)
  moreover have "ro_inv NewRoster" by (simp add: ro_inv_def NewRoster_def)
  ultimately show ?thesis .
qed

lemma ro_nodes: "ro_inv r \<Longrightarrow> map on_Node (map snd r) = map fst r"
  by (auto simp: ro_inv_def)

text \<open>
  The who's-online list is a function of the map alone. After any joins and leaves
  it is strictly sorted by node, lists \<open>Count\<close> callers, and is the same for every
  iteration order of the Go map.
\<close>

theorem roster_list:
  fixes es :: "ro_event list"
  defines "r \<equiv> fold ro_apply es NewRoster"
  shows "sorted_wrt (<) (map on_Node (ro_List r))"
    and "length (ro_List r) = ro_Count r"
    and "mset r' = mset r \<Longrightarrow> ro_List r' = ro_List r"
proof -
  have inv: "ro_inv r" unfolding r_def by (rule ro_inv_run)
  then have d: "distinct (map on_Node (map snd r))"
    by (simp only: ro_nodes) (simp add: ro_inv_def)
  then have inj: "inj_on on_Node (set (map snd r))" by (simp only: distinct_map)
  have "distinct (map on_Node (ro_List r))"
    using d unfolding ro_List_def by (metis mset_eq_imp_distinct_iff mset_map mset_sort)
  then show "sorted_wrt (<) (map on_Node (ro_List r))"
    by (simp add: ro_List_def strict_sorted_iff)
  show "length (ro_List r) = ro_Count r" by (simp add: ro_List_def ro_Count_def)
  assume eq: "mset r' = mset r"
  then have "mset (map snd r') = mset (map snd r)" by simp
  moreover from eq have "set r' = set r" by (rule mset_eq_setD)
  ultimately show "ro_List r' = ro_List r"
    unfolding ro_List_def using inj by (intro sort_key_inj_key_eq) simp_all
qed

lemma roster_list_witness:
  "ro_List (rev (fold ro_apply [RJoin 2 [98] [] [] 0, RJoin 1 [97] [] [] 0] NewRoster))
     = ro_List (fold ro_apply [RJoin 2 [98] [] [] 0, RJoin 1 [97] [] [] 0] NewRoster)"
  by (rule roster_list(3)) simp

end
