(* ===== verification/Tables.thy ===== *)
theory Tables
  imports Prelude
begin

text \<open>
  A SQL table with an \<open>INTEGER PRIMARY KEY AUTOINCREMENT\<close> column: its rows by ascending
  id and the largest id ever given out, with the four statements the repositories use.
  \<open>wf_tbl\<close> is what SQLite keeps of it; every statement preserves it. \<open>ORDER BY id\<close> is the
  order of the list.
\<close>

record 'r tbl =
  t_rows :: "(int \<times> 'r) list"
  t_seq :: int

definition tbl_empty :: "'r tbl" where
  "tbl_empty = \<lparr>t_rows = [], t_seq = 0\<rparr>"

definition tbl_insert :: "'r \<Rightarrow> 'r tbl \<Rightarrow> int \<times> 'r tbl" where
  "tbl_insert r t = (t_seq t + 1, \<lparr>t_rows = t_rows t @ [(t_seq t + 1, r)], t_seq = t_seq t + 1\<rparr>)"

definition tbl_get :: "'r tbl \<Rightarrow> int \<Rightarrow> 'r option" where
  "tbl_get t i = map_of (t_rows t) i"

definition tbl_select :: "(int \<Rightarrow> 'r \<Rightarrow> bool) \<Rightarrow> 'r tbl \<Rightarrow> (int \<times> 'r) list" where
  "tbl_select p t = filter (\<lambda>(i, r). p i r) (t_rows t)"

text \<open>Update and delete return the number of rows affected.\<close>

definition tbl_update :: "(int \<Rightarrow> 'r \<Rightarrow> bool) \<Rightarrow> ('r \<Rightarrow> 'r) \<Rightarrow> 'r tbl \<Rightarrow> nat \<times> 'r tbl" where
  "tbl_update p f t = (length (tbl_select p t),
     t\<lparr>t_rows := map (\<lambda>(i, r). (i, if p i r then f r else r)) (t_rows t)\<rparr>)"

definition tbl_delete :: "(int \<Rightarrow> 'r \<Rightarrow> bool) \<Rightarrow> 'r tbl \<Rightarrow> nat \<times> 'r tbl" where
  "tbl_delete p t = (length (tbl_select p t), t\<lparr>t_rows := filter (\<lambda>(i, r). \<not> p i r) (t_rows t)\<rparr>)"

definition wf_tbl :: "'r tbl \<Rightarrow> bool" where
  "wf_tbl t \<longleftrightarrow> sorted_wrt (<) (map fst (t_rows t)) \<and> (\<forall>i \<in> fst ` set (t_rows t). 1 \<le> i \<and> i \<le> t_seq t) \<and> 0 \<le> t_seq t"

named_theorems tbl_simps \<open>reading a table after a statement\<close>

lemma wf_tbl_empty [simp]: "wf_tbl tbl_empty"
  by (simp add: wf_tbl_def tbl_empty_def)

lemma wf_tbl_insert [simp]: "wf_tbl t \<Longrightarrow> wf_tbl (snd (tbl_insert r t))"
  by (fastforce simp: wf_tbl_def tbl_insert_def sorted_wrt_append)

lemma map_fst_update: "map fst (t_rows (snd (tbl_update p f t))) = map fst (t_rows t)"
  by (simp add: tbl_update_def case_prod_unfold)

lemma wf_tbl_update [simp]: "wf_tbl (snd (tbl_update p f t)) = wf_tbl t"
proof -
  have "t_seq (snd (tbl_update p f t)) = t_seq t" by (simp add: tbl_update_def)
  moreover have "fst ` set (t_rows (snd (tbl_update p f t))) = fst ` set (t_rows t)"
    by (metis list.set_map map_fst_update)
  ultimately show ?thesis by (simp only: wf_tbl_def map_fst_update)
qed

lemma wf_tbl_delete [simp]: "wf_tbl t \<Longrightarrow> wf_tbl (snd (tbl_delete p t))"
  by (auto simp: wf_tbl_def tbl_delete_def sorted_wrt_map sorted_wrt_filter)

lemma wf_distinct: "wf_tbl t \<Longrightarrow> distinct (map fst (t_rows t))"
  by (simp add: wf_tbl_def strict_sorted_iff)

lemma tbl_get_iff: "wf_tbl t \<Longrightarrow> tbl_get t i = Some r \<longleftrightarrow> (i, r) \<in> set (t_rows t)"
  unfolding tbl_get_def by (rule map_of_eq_Some_iff) (rule wf_distinct)

lemma tbl_get_rows: "tbl_get t i = Some r \<Longrightarrow> (i, r) \<in> set (t_rows t)"
  unfolding tbl_get_def by (rule map_of_SomeD)

lemma tbl_get_bound: "wf_tbl t \<Longrightarrow> tbl_get t i = Some r \<Longrightarrow> 1 \<le> i \<and> i \<le> t_seq t"
  by (force simp: wf_tbl_def dest: tbl_get_rows)

lemma tbl_get_fresh: "wf_tbl t \<Longrightarrow> t_seq t < i \<Longrightarrow> tbl_get t i = None"
  using tbl_get_bound [of t i] by (cases "tbl_get t i") auto

lemma tbl_insert_get [tbl_simps]:
  assumes "wf_tbl t"
  shows "tbl_get (snd (tbl_insert r t)) i = (if i = t_seq t + 1 then Some r else tbl_get t i)"
proof -
  have "tbl_get (snd (tbl_insert r t)) i = (tbl_get t ++ [t_seq t + 1 \<mapsto> r]) i"
    if "tbl_get t (t_seq t + 1) = None"
    using that by (auto simp: tbl_get_def tbl_insert_def map_add_def split: option.splits)
  then show ?thesis using tbl_get_fresh [OF assms, of "t_seq t + 1"] by (auto simp: map_add_def)
qed

lemma tbl_insert_id [simp]: "fst (tbl_insert r t) = t_seq t + 1"
  by (simp add: tbl_insert_def)

lemma tbl_update_get [tbl_simps]:
  "tbl_get (snd (tbl_update p f t)) i = map_option (\<lambda>r. if p i r then f r else r) (tbl_get t i)"
proof -
  have "map_of (map (\<lambda>(i, r). (i, if p i r then f r else r)) l) i
      = map_option (\<lambda>r. if p i r then f r else r) (map_of l i)" for l
    by (induction l) auto
  then show ?thesis by (simp add: tbl_get_def tbl_update_def)
qed

lemma map_of_filter:
  "distinct (map fst l) \<Longrightarrow> map_of (filter (\<lambda>(i, r). q i r) l) i
     = (case map_of l i of None \<Rightarrow> None | Some r \<Rightarrow> if q i r then Some r else None)"
  by (induction l) (auto split: option.splits simp: map_of_eq_None_iff image_iff)

lemma tbl_delete_get [tbl_simps]:
  "wf_tbl t \<Longrightarrow> tbl_get (snd (tbl_delete p t)) i
     = (case tbl_get t i of None \<Rightarrow> None | Some r \<Rightarrow> if p i r then None else Some r)"
  using map_of_filter [OF wf_distinct, of t "\<lambda>i r. \<not> p i r" i]
  by (auto simp: tbl_get_def tbl_delete_def split: option.splits)

lemma tbl_select_iff: "(i, r) \<in> set (tbl_select p t) \<longleftrightarrow> (i, r) \<in> set (t_rows t) \<and> p i r"
  by (auto simp: tbl_select_def)

lemma tbl_select_get: "wf_tbl t \<Longrightarrow> (i, r) \<in> set (tbl_select p t) \<longleftrightarrow> tbl_get t i = Some r \<and> p i r"
  by (simp add: tbl_select_iff tbl_get_iff)

lemma tbl_select_sorted: "wf_tbl t \<Longrightarrow> sorted_wrt (<) (map fst (tbl_select p t))"
  by (auto simp: wf_tbl_def tbl_select_def sorted_wrt_map sorted_wrt_filter)

lemma tbl_update_count_pos:
  "fst (tbl_update p f t) = 0 \<longleftrightarrow> (\<forall>(i, r) \<in> set (t_rows t). \<not> p i r)"
  by (auto simp: tbl_update_def tbl_select_def filter_empty_conv)

lemma tbl_update_none: "fst (tbl_update p f t) = 0 \<Longrightarrow> snd (tbl_update p f t) = t"
proof -
  assume "fst (tbl_update p f t) = 0"
  then have "(\<lambda>(i, r). (i, if p i r then f r else r)) x = x" if "x \<in> set (t_rows t)" for x
    using that unfolding tbl_update_count_pos by (cases x) force
  then have "map (\<lambda>(i, r). (i, if p i r then f r else r)) (t_rows t) = t_rows t"
    by (rule map_idI)
  then show ?thesis by (simp add: tbl_update_def)
qed

lemma tbl_update_by_id:
  assumes "wf_tbl t"
  shows "fst (tbl_update (\<lambda>j r. j = i \<and> q r) f t) = (case tbl_get t i of None \<Rightarrow> 0 | Some r \<Rightarrow> if q r then 1 else 0)"
proof -
  have "length (filter (\<lambda>(j, r). j = i \<and> q r) l) = (case map_of l i of None \<Rightarrow> 0 | Some r \<Rightarrow> if q r then 1 else 0)"
    if "distinct (map fst l)" for l
    using that
  proof (induction l)
    case (Cons p l)
    obtain j r where p: "p = (j, r)" by fastforce
    then show ?case
    proof (cases "j = i")
      case True
      then have "map_of l i = None" using Cons.prems p by (simp add: map_of_eq_None_iff)
      then have "length (filter (\<lambda>(j, r). j = i \<and> q r) l) = 0" using Cons by simp
      then show ?thesis using p True by simp
    qed (use Cons p in auto)
  qed simp
  then show ?thesis using wf_distinct [OF assms] by (simp add: tbl_update_def tbl_select_def tbl_get_def)
qed

lemma tbl_update_inserted:
  assumes "wf_tbl t"
  shows "snd (tbl_update (\<lambda>j r. j = t_seq t + 1) f (snd (tbl_insert r t))) = snd (tbl_insert (f r) t)"
proof -
  have "(\<lambda>(i, q). (i, if i = t_seq t + 1 then f q else q)) x = x" if "x \<in> set (t_rows t)" for x
  proof -
    obtain j q where x: "x = (j, q)" by fastforce
    then have "j \<in> fst ` set (t_rows t)" using that by force
    then have "j \<le> t_seq t" using assms by (auto simp: wf_tbl_def)
    then show ?thesis using x by simp
  qed
  then have "map (\<lambda>(i, q). (i, if i = t_seq t + 1 then f q else q)) (t_rows t) = t_rows t" by (rule map_idI)
  then show ?thesis by (simp add: tbl_update_def tbl_insert_def)
qed

lemma tbl_select_insert: "tbl_select p (snd (tbl_insert r t))
    = tbl_select p t @ (if p (t_seq t + 1) r then [(t_seq t + 1, r)] else [])"
  by (simp add: tbl_select_def tbl_insert_def)

lemma tbl_seq_keep [simp]:
  "t_seq (snd (tbl_update p f t)) = t_seq t" "t_seq (snd (tbl_delete p t)) = t_seq t"
  "t_seq (snd (tbl_insert r t)) = t_seq t + 1"
  by (simp_all add: tbl_update_def tbl_delete_def tbl_insert_def)

section \<open>Constraints on a table\<close>

named_theorems tbl_inv \<open>constraints kept by the statements\<close>

definition all_rows :: "('r \<Rightarrow> bool) \<Rightarrow> 'r tbl \<Rightarrow> bool" where
  "all_rows P t \<longleftrightarrow> (\<forall>r \<in> snd ` set (t_rows t). P r)"

definition uniq :: "('r \<Rightarrow> 'k) \<Rightarrow> 'r tbl \<Rightarrow> bool" where
  "uniq g t \<longleftrightarrow> distinct (map (g \<circ> snd) (t_rows t))"

definition has :: "('r \<Rightarrow> bool) \<Rightarrow> 'r tbl \<Rightarrow> bool" where
  "has p t \<longleftrightarrow> (\<exists>x \<in> set (t_rows t). p (snd x))"

definition fk :: "'r tbl \<Rightarrow> int \<Rightarrow> bool" where
  "fk t i \<longleftrightarrow> tbl_get t i \<noteq> None"

definition fk_opt :: "'r tbl \<Rightarrow> int option \<Rightarrow> bool" where
  "fk_opt t r = (case r of None \<Rightarrow> True | Some i \<Rightarrow> fk t i)"

lemma fk_iff: "fk t i \<longleftrightarrow> i \<in> fst ` set (t_rows t)"
  by (auto simp: fk_def tbl_get_def map_of_eq_None_iff)

lemma fk_opt_simps [simp]: "fk_opt t None" "fk_opt t (Some i) = fk t i"
  by (simp_all add: fk_opt_def)

lemma all_rows_empty [simp]: "all_rows P tbl_empty"
  by (simp add: all_rows_def tbl_empty_def)

lemma uniq_empty [simp]: "uniq g tbl_empty"
  by (simp add: uniq_def tbl_empty_def)

lemma all_rows_insert [tbl_inv]: "all_rows P (snd (tbl_insert r t)) \<longleftrightarrow> all_rows P t \<and> P r"
  by (auto simp: all_rows_def tbl_insert_def)

lemma all_rows_update [tbl_inv]:
  "all_rows P t \<Longrightarrow> (\<And>i r. (i, r) \<in> set (t_rows t) \<Longrightarrow> p i r \<Longrightarrow> P r \<Longrightarrow> P (f r)) \<Longrightarrow>
   all_rows P (snd (tbl_update p f t))"
  by (force simp: all_rows_def tbl_update_def)

lemma all_rows_delete [tbl_inv]: "all_rows P t \<Longrightarrow> all_rows P (snd (tbl_delete p t))"
  by (auto simp: all_rows_def tbl_delete_def)

lemma all_rows_mono: "all_rows P t \<Longrightarrow> (\<And>r. P r \<Longrightarrow> Q r) \<Longrightarrow> all_rows Q t"
  by (auto simp: all_rows_def)

lemma all_rowsD: "all_rows P t \<Longrightarrow> tbl_get t i = Some r \<Longrightarrow> P r"
  using tbl_get_rows by (fastforce simp: all_rows_def)

lemma uniq_insert [tbl_inv]: "uniq g (snd (tbl_insert r t)) \<longleftrightarrow> uniq g t \<and> \<not> has (\<lambda>x. g x = g r) t"
  by (simp add: uniq_def tbl_insert_def has_def image_iff comp_def) metis

lemma uniq_update [tbl_inv]: "(\<And>i r. p i r \<Longrightarrow> g (f r) = g r) \<Longrightarrow> uniq g (snd (tbl_update p f t)) = uniq g t"
proof -
  assume "\<And>i r. p i r \<Longrightarrow> g (f r) = g r"
  then have "map (g \<circ> snd) (t_rows (snd (tbl_update p f t))) = map (g \<circ> snd) (t_rows t)"
    by (auto simp: tbl_update_def)
  then show ?thesis by (simp only: uniq_def)
qed

lemma uniq_delete [tbl_inv]: "uniq g t \<Longrightarrow> uniq g (snd (tbl_delete p t))"
  by (simp add: uniq_def tbl_delete_def distinct_map_filter)

lemma uniqD:
  assumes "uniq g t" "(i, r) \<in> set (t_rows t)" "(j, q) \<in> set (t_rows t)" "g r = g q"
  shows "i = j \<and> r = q"
  using assms by (auto simp: uniq_def distinct_map dest!: inj_onD [where x = "(i, r)" and y = "(j, q)"])

lemma fk_insert [tbl_inv]: "fk (snd (tbl_insert r t)) i \<longleftrightarrow> fk t i \<or> i = t_seq t + 1"
  by (auto simp: fk_iff tbl_insert_def)

lemma fk_update [tbl_inv]: "fk (snd (tbl_update p f t)) i = fk t i"
  unfolding fk_iff using map_fst_update [of p f t] by (metis list.set_map)

lemma fk_opt_mono: "(\<And>i. fk t i \<Longrightarrow> fk t' i) \<Longrightarrow> fk_opt t r \<Longrightarrow> fk_opt t' r"
  by (auto simp: fk_opt_def split: option.splits)

lemma fk_opt_update [tbl_inv]: "fk_opt (snd (tbl_update p f t)) r = fk_opt t r"
  by (auto simp: fk_opt_def fk_update split: option.splits)

lemma fk_opt_insert [tbl_inv]: "fk_opt t r \<Longrightarrow> fk_opt (snd (tbl_insert x t)) r"
  by (auto simp: fk_opt_def fk_insert split: option.splits)

section \<open>Ids\<close>

text \<open>Ids are never reused, whatever statements run in between.\<close>

datatype 'r tbl_op = TInsert 'r | TUpdate "int \<Rightarrow> 'r \<Rightarrow> bool" "'r \<Rightarrow> 'r" | TDelete "int \<Rightarrow> 'r \<Rightarrow> bool"

fun tbl_ids :: "'r tbl_op list \<Rightarrow> 'r tbl \<Rightarrow> int list" where
  "tbl_ids [] t = []"
| "tbl_ids (TInsert r # ops) t = fst (tbl_insert r t) # tbl_ids ops (snd (tbl_insert r t))"
| "tbl_ids (TUpdate p f # ops) t = tbl_ids ops (snd (tbl_update p f t))"
| "tbl_ids (TDelete p # ops) t = tbl_ids ops (snd (tbl_delete p t))"

lemma tbl_ids_above: "i \<in> set (tbl_ids ops t) \<Longrightarrow> t_seq t < i"
  by (induction ops t rule: tbl_ids.induct) auto

lemma tbl_ids_never_reused: "distinct (tbl_ids ops t)"
  by (induction ops t rule: tbl_ids.induct) (auto dest: tbl_ids_above)

end
