(* ===== verification/Env.thy ===== *)
theory Env
  imports Prelude
begin

text \<open>
  What the program takes from the machine: the file system, the clock, the entropy
  source and the ways each of them fails. Every interaction is one numbered step; the
  functions \<open>e_fault\<close>, \<open>e_torn\<close> and \<open>e_clock\<close> say of each step whether it fails, how much
  a failing write still put on disk, and what \<open>time.Now\<close> reads there (nanoseconds since
  the epoch, UTC). They are arbitrary, so what is proved holds for every course of
  failures. The record is extended by the database.
\<close>

record env =
  e_step :: nat
  e_fault :: "nat \<Rightarrow> bool"
  e_torn :: "nat \<Rightarrow> nat option"
  e_clock :: "nat \<Rightarrow> int"
  e_rand :: "nat \<Rightarrow> byte"
  e_rpos :: nat
  e_fs :: "bytes \<rightharpoonup> bytes"

text \<open>One interaction that changes nothing but may fail with \<open>err\<close>.\<close>

definition ext :: "gerr \<Rightarrow> ('a env_scheme, unit) prog" where
  "ext err s = (if e_fault s (e_step s) then Inl err else Inr (), s\<lparr>e_step := e_step s + 1\<rparr>)"

definition time_Now :: "('a env_scheme, int) prog" where
  "time_Now s = (Inr (e_clock s (e_step s)), s)"

definition rand_Read :: "nat \<Rightarrow> ('a env_scheme, bytes) prog" where
  "rand_Read n = chk (ext ErrRand) (\<lambda>_ s.
     (Inr (map (e_rand s) [e_rpos s ..< e_rpos s + n]), s\<lparr>e_rpos := e_rpos s + n\<rparr>))"

section \<open>Files\<close>

definition os_ReadFile :: "bytes \<Rightarrow> ('a env_scheme, bytes) prog" where
  "os_ReadFile path = chk (ext ErrIO) (\<lambda>_ s.
     case e_fs s path of None \<Rightarrow> (Inl ErrNotExist, s) | Some d \<Rightarrow> (Inr d, s))"

text \<open>A write replaces the file, or fails with a prefix of the data written or with the
  file untouched; \<open>os_Append\<close> is a write on a descriptor opened for appending.\<close>

definition os_WriteFile :: "bytes \<Rightarrow> bytes \<Rightarrow> ('a env_scheme, unit) prog" where
  "os_WriteFile path d s = (let k = e_step s; s' = s\<lparr>e_step := k + 1\<rparr> in
     if e_fault s k
     then (Inl ErrIO, case e_torn s k of None \<Rightarrow> s' | Some n \<Rightarrow> s'\<lparr>e_fs := (e_fs s)(path \<mapsto> take n d)\<rparr>)
     else (Inr (), s'\<lparr>e_fs := (e_fs s)(path \<mapsto> d)\<rparr>))"

definition fs_text :: "(bytes \<rightharpoonup> bytes) \<Rightarrow> bytes \<Rightarrow> bytes" where
  "fs_text fs path = (case fs path of None \<Rightarrow> [] | Some d \<Rightarrow> d)"

definition os_Append :: "bytes \<Rightarrow> bytes \<Rightarrow> ('a env_scheme, unit) prog" where
  "os_Append path d s = (let k = e_step s; s' = s\<lparr>e_step := k + 1\<rparr>; old = fs_text (e_fs s) path in
     if e_fault s k
     then (Inl ErrIO, case e_torn s k of None \<Rightarrow> s' | Some n \<Rightarrow> s'\<lparr>e_fs := (e_fs s)(path \<mapsto> old @ take n d)\<rparr>)
     else (Inr (), s'\<lparr>e_fs := (e_fs s)(path \<mapsto> old @ d)\<rparr>))"

text \<open>Opening with \<open>O_CREATE\<close>: an absent file comes into being empty.\<close>

definition os_OpenCreate :: "bytes \<Rightarrow> ('a env_scheme, unit) prog" where
  "os_OpenCreate path = chk (ext ErrIO) (\<lambda>_ s.
     (Inr (), s\<lparr>e_fs := (e_fs s)(path \<mapsto> fs_text (e_fs s) path)\<rparr>))"

definition os_Remove :: "bytes \<Rightarrow> ('a env_scheme, unit) prog" where
  "os_Remove path = chk (ext ErrIO) (\<lambda>_ s. case e_fs s path of
     None \<Rightarrow> (Inl ErrNotExist, s) | Some d \<Rightarrow> (Inr (), s\<lparr>e_fs := (e_fs s)(path := None)\<rparr>))"

definition os_Rename :: "bytes \<Rightarrow> bytes \<Rightarrow> ('a env_scheme, unit) prog" where
  "os_Rename old new = chk (ext ErrIO) (\<lambda>_ s. case e_fs s old of
     None \<Rightarrow> (Inl ErrNotExist, s)
   | Some d \<Rightarrow> (Inr (), s\<lparr>e_fs := (e_fs s)(old := None, new \<mapsto> d)\<rparr>))"

text \<open>\<open>os.Stat\<close>, for existence.\<close>

definition os_Stat :: "bytes \<Rightarrow> ('a env_scheme, unit) prog" where
  "os_Stat path = chk (ext ErrIO) (\<lambda>_ s. case e_fs s path of
     None \<Rightarrow> (Inl ErrNotExist, s) | Some d \<Rightarrow> (Inr (), s))"

section \<open>Running without failures\<close>

definition sound :: "'a env_scheme \<Rightarrow> bool" where
  "sound s \<longleftrightarrow> (\<forall>k. \<not> e_fault s k)"

text \<open>Only the step counter, the entropy position and the files moved.\<close>

definition env_params :: "'a env_scheme \<Rightarrow> (nat \<Rightarrow> bool) \<times> (nat \<Rightarrow> nat option) \<times> (nat \<Rightarrow> int) \<times> (nat \<Rightarrow> byte)" where
  "env_params s = (e_fault s, e_torn s, e_clock s, e_rand s)"

lemma ext_ok: "sound s \<Longrightarrow> ext err s = (Inr (), s\<lparr>e_step := e_step s + 1\<rparr>)"
  by (simp add: ext_def sound_def)

lemma sound_step [simp]:
  "sound (s\<lparr>e_step := n\<rparr>) = sound s" "sound (s\<lparr>e_rpos := n\<rparr>) = sound s"
  "sound (s\<lparr>e_fs := fs\<rparr>) = sound s"
  by (simp_all add: sound_def)

lemma ext_InrD: "ext err s = (Inr u, s') \<Longrightarrow> s' = s\<lparr>e_step := e_step s + 1\<rparr>"
  by (auto simp: ext_def split: if_splits)

lemma ext_cases:
  obtains "ext err s = (Inl err, s\<lparr>e_step := e_step s + 1\<rparr>)"
  | "ext err s = (Inr (), s\<lparr>e_step := e_step s + 1\<rparr>)"
  by (cases "e_fault s (e_step s)") (simp_all add: ext_def)

lemma rand_Read_length: "rand_Read n s = (Inr b, s') \<Longrightarrow> length b = n"
  by (auto simp: rand_Read_def chk_run ext_def split: if_splits)

lemma rand_Read_ok:
  "sound s \<Longrightarrow> rand_Read n s = (Inr (map (e_rand s) [e_rpos s ..< e_rpos s + n]),
     s\<lparr>e_step := e_step s + 1, e_rpos := e_rpos s + n\<rparr>)"
  by (simp add: rand_Read_def ext_ok chk_run)

lemma rand_Read_state:
  "rand_Read n s = (r, s') \<Longrightarrow> \<exists>k p. s' = s\<lparr>e_step := k, e_rpos := p\<rparr>"
  by (auto simp: rand_Read_def chk_run ext_def split: if_splits)
     (metis env.surjective env.update_convs(1,6))+

lemma os_WriteFile_ok:
  "sound s \<Longrightarrow> os_WriteFile path d s = (Inr (), s\<lparr>e_step := e_step s + 1, e_fs := (e_fs s)(path \<mapsto> d)\<rparr>)"
  by (simp add: os_WriteFile_def sound_def Let_def)

lemma os_Append_ok:
  "sound s \<Longrightarrow> os_Append path d s
     = (Inr (), s\<lparr>e_step := e_step s + 1, e_fs := (e_fs s)(path \<mapsto> fs_text (e_fs s) path @ d)\<rparr>)"
  by (simp add: os_Append_def sound_def Let_def)

lemma os_ReadFile_ok:
  "sound s \<Longrightarrow> os_ReadFile path s = (case e_fs s path of None \<Rightarrow> Inl ErrNotExist | Some d \<Rightarrow> Inr d,
     s\<lparr>e_step := e_step s + 1\<rparr>)"
  by (simp add: os_ReadFile_def ext_ok chk_run split: option.splits)

text \<open>A file operation touches the named files only.\<close>

lemma os_other_files:
  "q \<noteq> path \<Longrightarrow> e_fs (snd (os_WriteFile path d s)) q = e_fs s q"
  "q \<noteq> path \<Longrightarrow> e_fs (snd (os_Append path d s)) q = e_fs s q"
  "q \<noteq> path \<Longrightarrow> e_fs (snd (os_Remove path s)) q = e_fs s q"
  by (auto simp: os_WriteFile_def os_Append_def os_Remove_def chk_run ext_def Let_def split: option.splits)

end
