(* ===== verification/Vault.thy ===== *)
theory Vault
  imports Env GoStd
begin

text \<open>
  Encryption at rest, \<open>crypto/vault.go\<close>. The primitives the package takes from
  \<open>golang.org/x/crypto\<close> and the standard library - Argon2id, XChaCha20-Poly1305,
  HMAC-SHA256 and SHA-256 - are the arguments collected in \<open>prims\<close>; \<open>prims_ok\<close> states
  the law of the AEAD the program relies on (opening what was sealed with the same
  key and nonce gives the plaintext back) and the length of a digest and of a derived key.
\<close>

record prims =
  p_kdf :: "bytes \<Rightarrow> bytes \<Rightarrow> nat \<Rightarrow> nat \<Rightarrow> nat \<Rightarrow> nat \<Rightarrow> bytes"
  p_seal :: "bytes \<Rightarrow> bytes \<Rightarrow> bytes \<Rightarrow> bytes"
  p_open :: "bytes \<Rightarrow> bytes \<Rightarrow> bytes \<Rightarrow> bytes option"
  p_hmac :: "bytes \<Rightarrow> bytes \<Rightarrow> bytes"
  p_sha256 :: "bytes \<Rightarrow> bytes"

definition prims_ok :: "prims \<Rightarrow> bool" where
  "prims_ok P \<longleftrightarrow> (\<forall>k n m. length n = 24 \<longrightarrow> p_open P k n (p_seal P k n m) = Some m) \<and>
     (\<forall>k m. length (p_hmac P k m) = 32) \<and>
     (\<forall>pw salt t m p n. length (p_kdf P pw salt t m p n) = n)"

record vault =
  v_key :: bytes
  v_macKey :: bytes

definition saltLen :: nat where "saltLen = 16"
definition keyLen :: nat where "keyLen = 32"
definition nonceSize :: nat where "nonceSize = 24"

definition NewVault :: "prims \<Rightarrow> bytes \<Rightarrow> bytes \<Rightarrow> gerr + vault" where
  "NewVault P secret salt =
     (if secret = [] then Inl ErrNoSecret
      else if length salt \<noteq> saltLen then Inl ErrSaltLen
      else let key = p_kdf P secret salt 3 (64 * 1024) 4 keyLen
           in Inr \<lparr>v_key = key, v_macKey = p_hmac P key (str ''admiralbbs/audit-mac/v1'')\<rparr>)"

definition MAC :: "prims \<Rightarrow> vault \<Rightarrow> bytes \<Rightarrow> bytes \<Rightarrow> bytes" where
  "MAC P v prev msg = p_hmac P (v_macKey v) (prev @ msg)"

definition Seal :: "prims \<Rightarrow> vault \<Rightarrow> bytes \<Rightarrow> ('a env_scheme, bytes) prog" where
  "Seal P v plain = chk (rand_Read nonceSize) (\<lambda>nonce. ret (nonce @ p_seal P (v_key v) nonce plain))"

definition Open :: "prims \<Rightarrow> vault \<Rightarrow> bytes \<Rightarrow> gerr + bytes" where
  "Open P v blob = (if length blob < nonceSize then Inl ErrShort
     else case p_open P (v_key v) (take nonceSize blob) (drop nonceSize blob) of
       None \<Rightarrow> Inl ErrOpen | Some m \<Rightarrow> Inr m)"

definition GenerateSalt :: "('a env_scheme, bytes) prog" where
  "GenerateSalt = rand_Read saltLen"

text \<open>Any read error counts as a first run, as in the code.\<close>

definition LoadOrCreateSalt :: "bytes \<Rightarrow> ('a env_scheme, bytes) prog" where
  "LoadOrCreateSalt path = att (os_ReadFile path) (\<lambda>r. case r of
     Inr d \<Rightarrow> if length d \<noteq> saltLen then fail ErrSaltLen else ret d
   | Inl e \<Rightarrow> chk (rand_Read saltLen) (\<lambda>salt. chk (os_WriteFile path salt) (\<lambda>_. ret salt)))"

section \<open>Opening what was sealed\<close>

lemma Seal_shape:
  assumes "Seal P v m s = (Inr ct, s')"
  obtains nonce where "length nonce = 24" "ct = nonce @ p_seal P (v_key v) nonce m"
proof -
  from assms obtain nonce s1 where r: "rand_Read nonceSize s = (Inr nonce, s1)"
    and c: "ret (nonce @ p_seal P (v_key v) nonce m) s1 = (Inr ct, s')"
    unfolding Seal_def by (rule chk_InrE)
  from rand_Read_length [OF r] have "length nonce = 24" by (simp only: nonceSize_def)
  moreover from c have "ct = nonce @ p_seal P (v_key v) nonce m" by simp
  ultimately show thesis by (rule that)
qed

lemma Open_Seal:
  assumes "prims_ok P" "Seal P v m s = (Inr ct, s')"
  shows "Open P v ct = Inr m"
proof -
  obtain nonce where "length nonce = 24" "ct = nonce @ p_seal P (v_key v) nonce m"
    using assms(2) by (rule Seal_shape)
  then show ?thesis using assms(1) by (simp add: Open_def prims_ok_def nonceSize_def)
qed

lemma Seal_ok:
  assumes "sound s"
  obtains ct n where "Seal P v m s = (Inr ct, s\<lparr>e_step := e_step s + 1, e_rpos := n\<rparr>)"
  using assms that by (simp add: Seal_def chk_run rand_Read_ok)

lemma Seal_state: "Seal P v m s = (r, s') \<Longrightarrow> \<exists>k p. s' = s\<lparr>e_step := k, e_rpos := p\<rparr>"
  using rand_Read_state [of nonceSize s]
  by (auto simp: Seal_def chk_run split: prod.splits sum.splits)

lemma Seal_error: "Seal P v m s = (Inl e, s') \<Longrightarrow> e = ErrRand"
  by (auto simp: Seal_def chk_run rand_Read_def ext_def split: prod.splits sum.splits if_splits)

text \<open>
  Sealing is lossless. Whatever \<open>Seal\<close> returns opens to the plaintext under the same vault; the blob is the
  24-byte nonce followed by the AEAD output; and the only way to fail is the entropy
  source.
\<close>

theorem seal_open_roundtrip:
  assumes "prims_ok P"
  shows "case Seal P v m s of
      (Inr ct, s') \<Rightarrow> Open P v ct = Inr m \<and> ct = take 24 ct @ p_seal P (v_key v) (take 24 ct) m
    | (Inl e, s') \<Rightarrow> e = ErrRand"
proof (cases "Seal P v m s")
  case (Pair r s')
  then show ?thesis
  proof (cases r)
    case (Inr ct)
    then obtain nonce where "length nonce = 24" "ct = nonce @ p_seal P (v_key v) nonce m"
      using Pair by (auto elim: Seal_shape)
    then show ?thesis using assms Pair Inr by (auto simp: Open_Seal)
  qed (use Seal_error in auto)
qed

text \<open>A transparent stand-in for the primitives, on which the laws hold.\<close>

definition clear_prims :: prims where
  "clear_prims = \<lparr>p_kdf = (\<lambda>s salt t m p n. take n (s @ salt @ replicate n 0)),
     p_seal = (\<lambda>k n m. k @ m), p_open = (\<lambda>k n c. if take (length k) c = k then Some (drop (length k) c) else None),
     p_hmac = (\<lambda>k m. take 32 (m @ replicate 32 0)), p_sha256 = (\<lambda>m. m)\<rparr>"

lemma clear_prims_ok: "prims_ok clear_prims"
  by (auto simp: prims_ok_def clear_prims_def min_def)

definition calm_env :: env where
  "calm_env = \<lparr>e_step = 0, e_fault = (\<lambda>_. False), e_torn = (\<lambda>_. None), e_clock = int,
     e_rand = (\<lambda>_. 7), e_rpos = 0, e_fs = Map.empty\<rparr>"

lemma calm_env_sound [simp]: "sound calm_env"
  by (simp add: sound_def calm_env_def)

lemma calm_env_fs [simp]: "e_fs calm_env = Map.empty"
  by (simp add: calm_env_def)

lemma seal_open_roundtrip_witness:
  "Open clear_prims \<lparr>v_key = [1], v_macKey = []\<rparr>
     (case fst (Seal clear_prims \<lparr>v_key = [1], v_macKey = []\<rparr> [5, 6] calm_env) of Inr c \<Rightarrow> c | Inl e \<Rightarrow> []) = Inr [5, 6]"
  using seal_open_roundtrip [OF clear_prims_ok, of "\<lparr>v_key = [1], v_macKey = []\<rparr>" "[5, 6]" calm_env]
    Seal_ok [OF calm_env_sound, of clear_prims "\<lparr>v_key = [1], v_macKey = []\<rparr>" "[5, 6]"]
  by (auto split: prod.splits sum.splits)

text \<open>
  The salt is created once. When the salt file can be read, its 16 bytes are returned
  and nothing is written; on a first run with a working disk a fresh 16-byte salt is
  stored, and every later run with a working disk returns that same salt, so the same
  secret derives the same key.
\<close>

theorem salt_stable:
  assumes "sound s" "e_fs s path = None"
  shows "case LoadOrCreateSalt path s of
      (Inr salt, s') \<Rightarrow> length salt = 16 \<and> e_fs s' path = Some salt \<and>
        fst (LoadOrCreateSalt path s') = Inr salt
    | (Inl e, s') \<Rightarrow> False"
  using assms
  by (simp add: LoadOrCreateSalt_def att_run chk_run os_ReadFile_ok rand_Read_ok os_WriteFile_ok saltLen_def)

lemma salt_stable_witness:
  "case LoadOrCreateSalt [115] calm_env of (Inr salt, s') \<Rightarrow> length salt = 16 | _ \<Rightarrow> False"
  using salt_stable [of calm_env "[115]"] by (auto split: prod.splits sum.splits)

text \<open>
  One failed read is enough to lose the salt. Where the salt file is there but reading it fails
  once, a new salt is written over it, so that the vault opened with the right secret has another
  key than the one everything was sealed with.
\<close>

theorem salt_overwritten:
  "let s = calm_env\<lparr>e_fault := (\<lambda>n. n = 0), e_fs := [[107] \<mapsto> replicate 16 1]\<rparr> in
   fst (LoadOrCreateSalt [107] (s\<lparr>e_fault := (\<lambda>n. False)\<rparr>)) = Inr (replicate 16 1) \<and>
   e_fs (snd (LoadOrCreateSalt [107] s)) [107] = Some (map (e_rand s) [0 ..< 16])"
  by (simp add: Let_def LoadOrCreateSalt_def att_run chk_run os_ReadFile_def rand_Read_def os_WriteFile_def ext_def calm_env_def
      saltLen_def upt_rec [of _ "Suc _"])

end
