(* ===== verification/Schema.thy ===== *)
theory Schema
  imports Tables Vault Float64
begin

text \<open>
  The database and the store that owns it: the tables of \<open>store/migrations/*.sql\<close> as
  they are after the last migration, the \<open>Store\<close> of \<open>store/store.go\<close> with its \<open>seal\<close> and
  \<open>open\<close>, and the statements of \<open>database/sql\<close> as programs that may fail. Time columns
  hold the instant itself (nanoseconds, UTC): the code writes each with \<open>fmtTime\<close> and
  reads it back with \<open>parseTime\<close>.
\<close>

section \<open>Rows\<close>

record user_row =
  u_handle :: bytes
  u_password_hash :: bytes
  u_real_name :: bytes
  u_email :: bytes
  u_access_level :: int
  u_status :: bytes
  u_daily_minutes :: int
  u_created_at :: int
  u_last_login_at :: "int option"
  u_last_login_ip :: bytes
  u_points :: int
  u_colorblind :: int

record key_row =
  k_user_id :: int
  k_public_key :: bytes
  k_fingerprint :: bytes
  k_comment :: bytes
  k_added_at :: int
  k_revoked_at :: "int option"

record membership_row =
  mb_user_id :: int
  mb_applied_at :: int
  mb_reviewed_by :: "int option"
  mb_reviewed_at :: "int option"
  mb_decision :: bytes
  mb_note :: bytes

record area_row =
  a_name :: bytes
  a_description :: bytes
  a_min :: int

record message_row =
  m_area :: int
  m_author :: int
  m_parent :: "int option"
  m_subject :: bytes
  m_body :: bytes
  m_posted_at :: int

record pm_row =
  pm_from :: int
  pm_to :: int
  pm_subject :: bytes
  pm_body :: bytes
  pm_sent_at :: int
  pm_read_at :: "int option"

record file_row =
  f_area :: int
  f_filename :: bytes
  f_path :: bytes
  f_size :: int
  f_description :: bytes
  f_uploader :: int
  f_downloads :: int
  f_uploaded_at :: int

record door_row =
  dr_name :: bytes
  dr_command :: bytes
  dr_dropfile :: bytes
  dr_min :: int
  dr_kind :: bytes
  dr_net :: bytes
  dr_address :: bytes

record slog_row =
  sl_session_id :: bytes
  sl_username :: bytes
  sl_transport :: bytes
  sl_remote_ip :: bytes
  sl_event_type :: bytes
  sl_action :: bytes
  sl_detail :: bytes
  sl_minutes :: float64
  sl_at :: int

record token_row =
  tk_user_id :: int
  tk_hash :: bytes
  tk_expires_at :: int
  tk_used_at :: "int option"

record ban_row =
  b_pattern :: bytes
  b_reason :: bytes
  b_banned_by :: "int option"
  b_banned_at :: int
  b_lifted_at :: "int option"

record report_row =
  rp_reporter :: int
  rp_target :: int
  rp_context :: bytes
  rp_note :: bytes
  rp_created_at :: int
  rp_resolved_at :: "int option"
  rp_resolved_by :: "int option"

record anomaly_row =
  an_user_id :: int
  an_prev_ip :: bytes
  an_new_ip :: bytes
  an_gap :: int
  an_at :: int

record installed_row =
  id_name :: bytes
  id_source_url :: bytes
  id_version :: bytes
  id_bin_path :: bytes
  id_address :: bytes
  id_min :: int
  id_installed_at :: int

text \<open>The tables keyed by something else than an id (\<open>user_block\<close>, \<open>board_read\<close>, \<open>setting\<close>)
  are association lists with one entry per key.\<close>

record db =
  d_user :: "user_row tbl"
  d_key :: "key_row tbl"
  d_membership :: "membership_row tbl"
  d_area :: "area_row tbl"
  d_message :: "message_row tbl"
  d_pm :: "pm_row tbl"
  d_file_area :: "area_row tbl"
  d_file :: "file_row tbl"
  d_door :: "door_row tbl"
  d_slog :: "slog_row tbl"
  d_token :: "token_row tbl"
  d_ban :: "ban_row tbl"
  d_report :: "report_row tbl"
  d_anomaly :: "anomaly_row tbl"
  d_installed :: "installed_row tbl"
  d_block :: "((int \<times> int) \<times> int) list"
  d_read :: "((int \<times> int) \<times> (int \<times> int)) list"
  d_setting :: "(bytes \<times> bytes) list"

definition empty_db :: db where
  "empty_db = \<lparr>d_user = tbl_empty, d_key = tbl_empty, d_membership = tbl_empty, d_area = tbl_empty,
     d_message = tbl_empty, d_pm = tbl_empty, d_file_area = tbl_empty, d_file = tbl_empty, d_door = tbl_empty,
     d_slog = tbl_empty, d_token = tbl_empty, d_ban = tbl_empty, d_report = tbl_empty, d_anomaly = tbl_empty,
     d_installed = tbl_empty, d_block = [], d_read = [], d_setting = []\<rparr>"

section \<open>The store\<close>

record store = env +
  st_db :: db
  st_prims :: prims
  st_vault :: vault
  st_filesDir :: bytes

definition SysOpLevel :: int where "SysOpLevel = 80"

text \<open>A reading and a writing statement: either may fail as a whole; a constraint violation
  leaves the database as it was.\<close>

definition query :: "(db \<Rightarrow> gerr + 'r) \<Rightarrow> ('a store_scheme, 'r) prog" where
  "query q = chk (ext ErrDB) (\<lambda>_ s. (q (st_db s), s))"

definition exec :: "(db \<Rightarrow> gerr + 'r \<times> db) \<Rightarrow> ('a store_scheme, 'r) prog" where
  "exec f = chk (ext ErrDB) (\<lambda>_ s. case f (st_db s) of
     Inl e \<Rightarrow> (Inl e, s) | Inr (x, d) \<Rightarrow> (Inr x, s\<lparr>st_db := d\<rparr>))"

text \<open>A transaction: on an error the database is rolled back.\<close>

definition transact :: "('a store_scheme, 'r) prog \<Rightarrow> ('a store_scheme, 'r) prog" where
  "transact m = chk (ext ErrDB) (\<lambda>_ s. case m s of
     (Inl e, s') \<Rightarrow> (Inl e, s'\<lparr>st_db := st_db s\<rparr>)
   | (Inr x, s') \<Rightarrow> (case ext ErrDB s' of
       (Inl e, s2) \<Rightarrow> (Inl e, s2\<lparr>st_db := st_db s\<rparr>)
     | (Inr u, s2) \<Rightarrow> (Inr x, s2)))"

definition st_seal :: "bytes \<Rightarrow> ('a store_scheme, bytes) prog" where
  "st_seal plain s = chk (Seal (st_prims s) (st_vault s) plain)
     (\<lambda>ct. ret (b64_encode std_alphabet ct)) s"

definition unseal :: "prims \<Rightarrow> vault \<Rightarrow> bytes \<Rightarrow> gerr + bytes" where
  "unseal P v enc = (if enc = [] then Inr []
     else (case b64_decode std_alphabet enc of
         None \<Rightarrow> Inl ErrBase64
       | Some ct \<Rightarrow> Open P v ct))"

definition st_open :: "bytes \<Rightarrow> ('a store_scheme, bytes) prog" where
  "st_open enc s = (unseal (st_prims s) (st_vault s) enc, s)"

text \<open>Map a fallible read over the rows of a result (the loop over \<open>rows.Next\<close>).\<close>

fun scan_rows :: "('r \<Rightarrow> gerr + 'x) \<Rightarrow> 'r list \<Rightarrow> gerr + 'x list" where
  "scan_rows f [] = Inr []"
| "scan_rows f (r # rs) = (case f r of Inl e \<Rightarrow> Inl e
     | Inr x \<Rightarrow> (case scan_rows f rs of Inl e \<Rightarrow> Inl e | Inr xs \<Rightarrow> Inr (x # xs)))"

section \<open>Programs on the store\<close>

lemma query_ok: "sound s \<Longrightarrow> query q s = (q (st_db s), s\<lparr>e_step := e_step s + 1\<rparr>)"
  by (simp add: query_def ext_ok chk_run)

lemma exec_ok:
  "sound s \<Longrightarrow> exec f s = (case f (st_db s) of
     Inl e \<Rightarrow> (Inl e, s\<lparr>e_step := e_step s + 1\<rparr>)
   | Inr (x, d) \<Rightarrow> (Inr x, s\<lparr>e_step := e_step s + 1, st_db := d\<rparr>))"
  by (simp add: exec_def ext_ok chk_run split: sum.splits prod.splits)

lemma query_db: "query q s = (r, s') \<Longrightarrow> \<exists>k. s' = s\<lparr>e_step := k\<rparr>"
  by (auto simp: query_def chk_run ext_def split: if_splits)

lemma query_InrD: "query q s = (Inr x, s') \<Longrightarrow> q (st_db s) = Inr x \<and> s' = s\<lparr>e_step := e_step s + 1\<rparr>"
  by (auto simp: query_def chk_run ext_def split: if_splits)

lemma exec_InlD: "exec f s = (Inl e, s') \<Longrightarrow> s' = s\<lparr>e_step := e_step s + 1\<rparr>"
  by (auto simp: exec_def chk_run ext_def split: if_splits sum.splits)

lemma exec_InrD:
  assumes "exec f s = (Inr x, s')"
  obtains d where "f (st_db s) = Inr (x, d)" "s' = s\<lparr>e_step := e_step s + 1, st_db := d\<rparr>"
  using assms by (auto simp: exec_def chk_run ext_def split: if_splits sum.splits prod.splits)

lemma st_seal_state:
  assumes "st_seal plain s = (r, s')"
  obtains k p where "s' = s\<lparr>e_step := k, e_rpos := p\<rparr>"
proof -
  obtain r1 s1 where seal: "Seal (st_prims s) (st_vault s) plain s = (r1, s1)" by fastforce
  then obtain k p where "s1 = s\<lparr>e_step := k, e_rpos := p\<rparr>" using Seal_state by blast
  moreover have "s' = s1" using assms seal by (cases r1) (auto simp: st_seal_def chk_run)
  ultimately show thesis using that by blast
qed

lemma unseal_seal:
  assumes "prims_ok (st_prims s)" "st_seal plain s = (Inr enc, s')"
  shows "unseal (st_prims s) (st_vault s) enc = Inr plain"
proof -
  obtain ct where ct: "Seal (st_prims s) (st_vault s) plain s = (Inr ct, s')" "enc = b64_encode std_alphabet ct"
    using assms(2) unfolding st_seal_def by (auto elim: chk_InrE)
  have "ct \<noteq> []" using ct(1) by (auto elim!: Seal_shape)
  then have "enc \<noteq> []" using ct(2) by (metis b64_encode_Nil std_enc.encode_inj)
  then show ?thesis
    using Open_Seal [OF assms(1) ct(1)] ct(2) by (simp add: unseal_def std_enc.decode_encode)
qed

lemma st_seal_ok:
  assumes "sound s"
  obtains enc n where "st_seal plain s = (Inr enc, s\<lparr>e_step := e_step s + 1, e_rpos := n\<rparr>)"
  using assms that by (simp add: st_seal_def Seal_def chk_run rand_Read_ok)

lemma scan_rows_all:
  "scan_rows f rs = Inr xs \<longleftrightarrow> list_all2 (\<lambda>r x. f r = Inr x) rs xs"
proof (induction rs arbitrary: xs)
  case (Cons r rs)
  show ?case
    by (cases "f r"; cases "scan_rows f rs"; cases xs) (auto simp: Cons.IH [symmetric])
qed auto

lemma scan_rows_map: "(\<And>r. r \<in> set rs \<Longrightarrow> f r = Inr (g r)) \<Longrightarrow> scan_rows f rs = Inr (map g rs)"
  by (induction rs) auto

section \<open>What the schema and the repositories keep\<close>

definition MaxFileBytes :: int where "MaxFileBytes = 10 * 2 ^ 20"
definition MaxUserBytes :: int where "MaxUserBytes = 100 * 2 ^ 20"

definition user_bytes :: "file_row tbl \<Rightarrow> int \<Rightarrow> int" where
  "user_bytes t u = sum_list (map (\<lambda>(i, r). if f_uploader r = u then f_size r else 0) (t_rows t))"

text \<open>Uniqueness, one entry per key, and the file library's quota.\<close>

definition inv_uniq :: "db \<Rightarrow> bool" where
  "inv_uniq d \<longleftrightarrow> uniq (nocase \<circ> u_handle) (d_user d) \<and> uniq a_name (d_area d) \<and>
     uniq a_name (d_file_area d) \<and> uniq dr_name (d_door d) \<and> uniq id_name (d_installed d) \<and>
     distinct (map fst (d_block d)) \<and> distinct (map fst (d_read d)) \<and> distinct (map fst (d_setting d))"

definition inv_files :: "db \<Rightarrow> bool" where
  "inv_files d \<longleftrightarrow> uniq (\<lambda>r. (f_area r, nocase (f_filename r))) (d_file d) \<and>
     all_rows (\<lambda>r. 0 \<le> f_size r \<and> f_size r \<le> MaxFileBytes) (d_file d) \<and>
     (\<forall>u. user_bytes (d_file d) u \<le> MaxUserBytes)"

definition inv_wf :: "db \<Rightarrow> bool" where
  "inv_wf d \<longleftrightarrow> wf_tbl (d_user d) \<and> wf_tbl (d_key d) \<and> wf_tbl (d_membership d) \<and> wf_tbl (d_area d) \<and>
     wf_tbl (d_message d) \<and> wf_tbl (d_pm d) \<and> wf_tbl (d_file_area d) \<and> wf_tbl (d_file d) \<and>
     wf_tbl (d_door d) \<and> wf_tbl (d_slog d) \<and> wf_tbl (d_token d) \<and> wf_tbl (d_ban d) \<and>
     wf_tbl (d_report d) \<and> wf_tbl (d_anomaly d) \<and> wf_tbl (d_installed d)"

text \<open>Every reference points to an existing row.\<close>

definition inv_refs :: "db \<Rightarrow> bool" where
  "inv_refs d \<longleftrightarrow>
     all_rows (\<lambda>r. fk (d_user d) (k_user_id r)) (d_key d) \<and>
     all_rows (\<lambda>r. fk (d_user d) (mb_user_id r) \<and> fk_opt (d_user d) (mb_reviewed_by r)) (d_membership d) \<and>
     all_rows (\<lambda>r. fk (d_area d) (m_area r) \<and> fk (d_user d) (m_author r) \<and> fk_opt (d_message d) (m_parent r)) (d_message d) \<and>
     all_rows (\<lambda>r. fk (d_user d) (pm_from r) \<and> fk (d_user d) (pm_to r)) (d_pm d) \<and>
     all_rows (\<lambda>r. fk (d_file_area d) (f_area r) \<and> fk (d_user d) (f_uploader r)) (d_file d) \<and>
     all_rows (\<lambda>r. fk (d_user d) (tk_user_id r)) (d_token d) \<and>
     all_rows (\<lambda>r. fk_opt (d_user d) (b_banned_by r)) (d_ban d) \<and>
     all_rows (\<lambda>r. fk (d_user d) (rp_reporter r) \<and> fk (d_user d) (rp_target r) \<and> fk_opt (d_user d) (rp_resolved_by r)) (d_report d) \<and>
     all_rows (\<lambda>r. fk (d_user d) (an_user_id r)) (d_anomaly d) \<and>
     (\<forall>x \<in> set (d_block d). fk (d_user d) (fst (fst x)) \<and> fk (d_user d) (snd (fst x))) \<and>
     (\<forall>x \<in> set (d_read d). fk (d_user d) (fst (fst x)) \<and> fk (d_area d) (snd (fst x)))"

definition db_inv :: "db \<Rightarrow> bool" where
  "db_inv d \<longleftrightarrow> inv_wf d \<and> inv_uniq d \<and> inv_files d \<and> inv_refs d"

lemma db_inv_empty [simp]: "db_inv empty_db"
  by (simp add: db_inv_def inv_wf_def inv_uniq_def inv_files_def inv_refs_def empty_db_def
      user_bytes_def tbl_empty_def MaxUserBytes_def all_rows_def uniq_def)
     (simp add: wf_tbl_def)

text \<open>The references to users survive every growth of the user table, and so on.\<close>

lemma inv_refs_mono:
  assumes "inv_refs d" "\<And>i. fk (d_user d) i \<Longrightarrow> fk u i" "\<And>i. fk (d_area d) i \<Longrightarrow> fk a i"
    "\<And>i. fk (d_file_area d) i \<Longrightarrow> fk fa i"
  shows "inv_refs (d\<lparr>d_user := u, d_area := a, d_file_area := fa\<rparr>)"
  using assms fk_opt_mono [of "d_user d" u]
  unfolding inv_refs_def by (auto elim!: all_rows_mono)

lemma inv_refs_user: "inv_refs d \<Longrightarrow> (\<And>i. fk (d_user d) i \<Longrightarrow> fk u i) \<Longrightarrow> inv_refs (d\<lparr>d_user := u\<rparr>)"
  using inv_refs_mono [of d u "d_area d" "d_file_area d"] by simp

lemma inv_refs_area: "inv_refs d \<Longrightarrow> (\<And>i. fk (d_area d) i \<Longrightarrow> fk a i) \<Longrightarrow> inv_refs (d\<lparr>d_area := a\<rparr>)"
  using inv_refs_mono [of d "d_user d" a "d_file_area d"] by simp

lemma inv_refs_file_area:
  "inv_refs d \<Longrightarrow> (\<And>i. fk (d_file_area d) i \<Longrightarrow> fk fa i) \<Longrightarrow> inv_refs (d\<lparr>d_file_area := fa\<rparr>)"
  using inv_refs_mono [of d "d_user d" "d_area d" fa] by simp

lemmas db_inv_defs = db_inv_def inv_wf_def inv_uniq_def inv_files_def

text \<open>
  What the invariant says of one table, and that a new version of one table that meets it
  keeps the invariant of the database.
\<close>

named_theorems db_set \<open>replacing one table\<close>

lemma db_inv_key: "db_inv d \<Longrightarrow> wf_tbl (d_key d) \<and> all_rows (\<lambda>r. fk (d_user d) (k_user_id r)) (d_key d)"
  by (simp add: db_inv_defs inv_refs_def)

lemma db_set_key [db_set]:
  "db_inv d \<Longrightarrow> wf_tbl t \<Longrightarrow> all_rows (\<lambda>r. fk (d_user d) (k_user_id r)) t \<Longrightarrow> db_inv (d\<lparr>d_key := t\<rparr>)"
  by (simp add: db_inv_defs inv_refs_def)

lemma db_inv_membership: "db_inv d \<Longrightarrow> wf_tbl (d_membership d) \<and> all_rows (\<lambda>r. fk (d_user d) (mb_user_id r) \<and> fk_opt (d_user d) (mb_reviewed_by r)) (d_membership d)"
  by (simp add: db_inv_defs inv_refs_def)

lemma db_set_membership [db_set]:
  "db_inv d \<Longrightarrow> wf_tbl t \<Longrightarrow> all_rows (\<lambda>r. fk (d_user d) (mb_user_id r) \<and> fk_opt (d_user d) (mb_reviewed_by r)) t \<Longrightarrow> db_inv (d\<lparr>d_membership := t\<rparr>)"
  by (simp add: db_inv_defs inv_refs_def)

lemma db_inv_pm: "db_inv d \<Longrightarrow> wf_tbl (d_pm d) \<and> all_rows (\<lambda>r. fk (d_user d) (pm_from r) \<and> fk (d_user d) (pm_to r)) (d_pm d)"
  by (simp add: db_inv_defs inv_refs_def)

lemma db_set_pm [db_set]:
  "db_inv d \<Longrightarrow> wf_tbl t \<Longrightarrow> all_rows (\<lambda>r. fk (d_user d) (pm_from r) \<and> fk (d_user d) (pm_to r)) t \<Longrightarrow> db_inv (d\<lparr>d_pm := t\<rparr>)"
  by (simp add: db_inv_defs inv_refs_def)

lemma db_inv_token: "db_inv d \<Longrightarrow> wf_tbl (d_token d) \<and> all_rows (\<lambda>r. fk (d_user d) (tk_user_id r)) (d_token d)"
  by (simp add: db_inv_defs inv_refs_def)

lemma db_set_token [db_set]:
  "db_inv d \<Longrightarrow> wf_tbl t \<Longrightarrow> all_rows (\<lambda>r. fk (d_user d) (tk_user_id r)) t \<Longrightarrow> db_inv (d\<lparr>d_token := t\<rparr>)"
  by (simp add: db_inv_defs inv_refs_def)

lemma db_inv_ban: "db_inv d \<Longrightarrow> wf_tbl (d_ban d) \<and> all_rows (\<lambda>r. fk_opt (d_user d) (b_banned_by r)) (d_ban d)"
  by (simp add: db_inv_defs inv_refs_def)

lemma db_set_ban [db_set]:
  "db_inv d \<Longrightarrow> wf_tbl t \<Longrightarrow> all_rows (\<lambda>r. fk_opt (d_user d) (b_banned_by r)) t \<Longrightarrow> db_inv (d\<lparr>d_ban := t\<rparr>)"
  by (simp add: db_inv_defs inv_refs_def)

lemma db_inv_report: "db_inv d \<Longrightarrow> wf_tbl (d_report d) \<and> all_rows (\<lambda>r. fk (d_user d) (rp_reporter r) \<and> fk (d_user d) (rp_target r) \<and> fk_opt (d_user d) (rp_resolved_by r)) (d_report d)"
  by (simp add: db_inv_defs inv_refs_def)

lemma db_set_report [db_set]:
  "db_inv d \<Longrightarrow> wf_tbl t \<Longrightarrow> all_rows (\<lambda>r. fk (d_user d) (rp_reporter r) \<and> fk (d_user d) (rp_target r) \<and> fk_opt (d_user d) (rp_resolved_by r)) t \<Longrightarrow> db_inv (d\<lparr>d_report := t\<rparr>)"
  by (simp add: db_inv_defs inv_refs_def)

lemma db_inv_anomaly: "db_inv d \<Longrightarrow> wf_tbl (d_anomaly d) \<and> all_rows (\<lambda>r. fk (d_user d) (an_user_id r)) (d_anomaly d)"
  by (simp add: db_inv_defs inv_refs_def)

lemma db_set_anomaly [db_set]:
  "db_inv d \<Longrightarrow> wf_tbl t \<Longrightarrow> all_rows (\<lambda>r. fk (d_user d) (an_user_id r)) t \<Longrightarrow> db_inv (d\<lparr>d_anomaly := t\<rparr>)"
  by (simp add: db_inv_defs inv_refs_def)

lemma db_inv_slog: "db_inv d \<Longrightarrow> wf_tbl (d_slog d)"
  by (simp add: db_inv_defs inv_refs_def)

lemma db_set_slog [db_set]:
  "db_inv d \<Longrightarrow> wf_tbl t \<Longrightarrow> db_inv (d\<lparr>d_slog := t\<rparr>)"
  by (simp add: db_inv_defs inv_refs_def)

lemma db_inv_door: "db_inv d \<Longrightarrow> wf_tbl (d_door d) \<and> uniq dr_name (d_door d)"
  by (simp add: db_inv_defs inv_refs_def)

lemma db_set_door [db_set]:
  "db_inv d \<Longrightarrow> wf_tbl t \<Longrightarrow> uniq dr_name t \<Longrightarrow> db_inv (d\<lparr>d_door := t\<rparr>)"
  by (simp add: db_inv_defs inv_refs_def)

lemma db_inv_installed: "db_inv d \<Longrightarrow> wf_tbl (d_installed d) \<and> uniq id_name (d_installed d)"
  by (simp add: db_inv_defs inv_refs_def)

lemma db_set_installed [db_set]:
  "db_inv d \<Longrightarrow> wf_tbl t \<Longrightarrow> uniq id_name t \<Longrightarrow> db_inv (d\<lparr>d_installed := t\<rparr>)"
  by (simp add: db_inv_defs inv_refs_def)

lemma db_inv_file: "db_inv d \<Longrightarrow> wf_tbl (d_file d) \<and> uniq (\<lambda>r. (f_area r, nocase (f_filename r))) (d_file d) \<and> all_rows (\<lambda>r. 0 \<le> f_size r \<and> f_size r \<le> MaxFileBytes) (d_file d) \<and> (\<forall>u. user_bytes (d_file d) u \<le> MaxUserBytes) \<and> all_rows (\<lambda>r. fk (d_file_area d) (f_area r) \<and> fk (d_user d) (f_uploader r)) (d_file d)"
  by (simp add: db_inv_defs inv_refs_def)

lemma db_set_file [db_set]:
  "db_inv d \<Longrightarrow> wf_tbl t \<Longrightarrow> uniq (\<lambda>r. (f_area r, nocase (f_filename r))) t \<Longrightarrow> all_rows (\<lambda>r. 0 \<le> f_size r \<and> f_size r \<le> MaxFileBytes) t \<Longrightarrow> (\<forall>u. user_bytes t u \<le> MaxUserBytes) \<Longrightarrow> all_rows (\<lambda>r. fk (d_file_area d) (f_area r) \<and> fk (d_user d) (f_uploader r)) t \<Longrightarrow> db_inv (d\<lparr>d_file := t\<rparr>)"
  by (simp add: db_inv_defs inv_refs_def)

lemma db_inv_message: "db_inv d \<Longrightarrow> wf_tbl (d_message d) \<and> all_rows (\<lambda>r. fk (d_area d) (m_area r) \<and> fk (d_user d) (m_author r) \<and> fk_opt (d_message d) (m_parent r)) (d_message d)"
  by (simp add: db_inv_defs inv_refs_def)

lemma db_set_message [db_set]:
  "db_inv d \<Longrightarrow> wf_tbl t \<Longrightarrow> all_rows (\<lambda>r. fk (d_area d) (m_area r) \<and> fk (d_user d) (m_author r) \<and> fk_opt t (m_parent r)) t \<Longrightarrow> db_inv (d\<lparr>d_message := t\<rparr>)"
  by (simp add: db_inv_defs inv_refs_def)

lemma db_inv_block: "db_inv d \<Longrightarrow> distinct (map fst (d_block d)) \<and> (\<forall>x \<in> set (d_block d). fk (d_user d) (fst (fst x)) \<and> fk (d_user d) (snd (fst x)))"
  by (simp add: db_inv_defs inv_refs_def)

lemma db_set_block [db_set]:
  "db_inv d \<Longrightarrow> distinct (map fst t) \<Longrightarrow> (\<forall>x \<in> set t. fk (d_user d) (fst (fst x)) \<and> fk (d_user d) (snd (fst x))) \<Longrightarrow> db_inv (d\<lparr>d_block := t\<rparr>)"
  by (simp add: db_inv_defs inv_refs_def)

lemma db_inv_read: "db_inv d \<Longrightarrow> distinct (map fst (d_read d)) \<and> (\<forall>x \<in> set (d_read d). fk (d_user d) (fst (fst x)) \<and> fk (d_area d) (snd (fst x)))"
  by (simp add: db_inv_defs inv_refs_def)

lemma db_set_read [db_set]:
  "db_inv d \<Longrightarrow> distinct (map fst t) \<Longrightarrow> (\<forall>x \<in> set t. fk (d_user d) (fst (fst x)) \<and> fk (d_area d) (snd (fst x))) \<Longrightarrow> db_inv (d\<lparr>d_read := t\<rparr>)"
  by (simp add: db_inv_defs inv_refs_def)

lemma db_inv_setting: "db_inv d \<Longrightarrow> distinct (map fst (d_setting d))"
  by (simp add: db_inv_defs inv_refs_def)

lemma db_set_setting [db_set]:
  "db_inv d \<Longrightarrow> distinct (map fst t) \<Longrightarrow> db_inv (d\<lparr>d_setting := t\<rparr>)"
  by (simp add: db_inv_defs inv_refs_def)

lemma db_inv_user: "db_inv d \<Longrightarrow> wf_tbl (d_user d) \<and> uniq (nocase \<circ> u_handle) (d_user d)"
  by (simp add: db_inv_defs)

lemma db_set_user [db_set]:
  "db_inv d \<Longrightarrow> wf_tbl t \<Longrightarrow> uniq (nocase \<circ> u_handle) t \<Longrightarrow> (\<And>i. fk (d_user d) i \<Longrightarrow> fk t i) \<Longrightarrow> db_inv (d\<lparr>d_user := t\<rparr>)"
  by (simp add: db_inv_defs inv_refs_user)

lemma db_inv_area: "db_inv d \<Longrightarrow> wf_tbl (d_area d) \<and> uniq a_name (d_area d)"
  by (simp add: db_inv_defs)

lemma db_set_area [db_set]:
  "db_inv d \<Longrightarrow> wf_tbl t \<Longrightarrow> uniq a_name t \<Longrightarrow> (\<And>i. fk (d_area d) i \<Longrightarrow> fk t i) \<Longrightarrow> db_inv (d\<lparr>d_area := t\<rparr>)"
  by (simp add: db_inv_defs inv_refs_area)

lemma db_inv_file_area: "db_inv d \<Longrightarrow> wf_tbl (d_file_area d) \<and> uniq a_name (d_file_area d)"
  by (simp add: db_inv_defs)

lemma db_set_file_area [db_set]:
  "db_inv d \<Longrightarrow> wf_tbl t \<Longrightarrow> uniq a_name t \<Longrightarrow> (\<And>i. fk (d_file_area d) i \<Longrightarrow> fk t i) \<Longrightarrow> db_inv (d\<lparr>d_file_area := t\<rparr>)"
  by (simp add: db_inv_defs inv_refs_file_area)

lemmas db_invD = db_inv_user db_inv_key db_inv_membership db_inv_area db_inv_message db_inv_pm db_inv_file_area db_inv_file db_inv_door db_inv_slog db_inv_token db_inv_ban db_inv_report db_inv_anomaly db_inv_installed db_inv_block db_inv_read db_inv_setting

section \<open>Statements in the step calculus\<close>

text \<open>
  A relation on databases that every statement of a program respects is respected by the
  program, whatever fails: sealing, the clock, queries and files leave the database
  alone. No program of the repositories touches the vault, or what a larger record (a
  caller's session) adds to the store.
\<close>

definition st_fixed :: "'a store_scheme \<Rightarrow> prims \<times> vault \<times> bytes \<times> 'a" where
  "st_fixed s = (st_prims s, st_vault s, st_filesDir s, store.more s)"

locale db_frame =
  fixes Q :: "db \<Rightarrow> db \<Rightarrow> bool"
  assumes db_refl: "Q d d"
    and db_trans: "Q a b \<Longrightarrow> Q b c \<Longrightarrow> Q a c"
begin

definition dbR :: "'a store_scheme \<Rightarrow> 'a store_scheme \<Rightarrow> bool" where
  "dbR s s' \<longleftrightarrow> Q (st_db s) (st_db s') \<and> st_fixed s' = st_fixed s"

lemma steps_same: "(\<And>s. st_db (snd (m s)) = st_db s \<and> st_fixed (snd (m s)) = st_fixed s) \<Longrightarrow> steps dbR m"
  by (simp add: steps_def dbR_def db_refl)

lemma steps_ext: "steps dbR (ext e)"
  by (rule steps_same) (simp add: st_fixed_def ext_def)

lemma steps_now: "steps dbR time_Now"
  by (rule steps_same) (simp add: st_fixed_def time_Now_def)

lemma steps_rand: "steps dbR (rand_Read n)"
  by (rule steps_same) (simp add: st_fixed_def rand_Read_def chk_run ext_def)

lemma steps_query: "steps dbR (query q)"
  by (rule steps_same) (simp add: st_fixed_def query_def chk_run ext_def)

lemma steps_seal: "steps dbR (st_seal p)"
proof (rule steps_same, goal_cases)
  case (1 s)
  obtain r s' where "st_seal p s = (r, s')" by fastforce
  moreover from this obtain k n where "s' = s\<lparr>e_step := k, e_rpos := n\<rparr>" by (rule st_seal_state)
  ultimately show ?case by (simp add: st_fixed_def)
qed

lemma steps_vseal: "steps dbR (Seal P v m)"
proof (rule steps_same, goal_cases)
  case (1 s)
  obtain r s' where "Seal P v m s = (r, s')" by fastforce
  moreover from Seal_state [OF this] obtain k n where "s' = s\<lparr>e_step := k, e_rpos := n\<rparr>" by blast
  ultimately show ?case by (simp add: st_fixed_def)
qed

lemma steps_open: "steps dbR (st_open e)"
  by (rule steps_same) (simp add: st_fixed_def st_open_def)

lemma steps_files:
  "steps dbR (os_ReadFile p)" "steps dbR (os_WriteFile p b)" "steps dbR (os_Remove p)" "steps dbR (os_Stat p)"
  by (rule steps_same; simp add: st_fixed_def os_ReadFile_def os_WriteFile_def os_Remove_def os_Stat_def chk_run ext_def
      Let_def split: option.splits)+

lemma steps_exec:
  assumes "\<And>d x d'. f d = Inr (x, d') \<Longrightarrow> Q d d'"
  shows "steps dbR (exec f)"
  unfolding steps_def dbR_def
proof (intro allI, goal_cases)
  case (1 s)
  show ?case
  proof (cases "e_fault s (e_step s)")
    case False
    then show ?thesis
      using assms [of "st_db s"] db_refl
      by (auto simp: exec_def chk_run ext_def st_fixed_def split: sum.splits prod.splits)
  qed (simp add: exec_def chk_run ext_def db_refl st_fixed_def)
qed

end

sublocale db_frame \<subseteq> frame_rel dbR
  by unfold_locales (auto simp: dbR_def intro: db_refl db_trans)

context db_frame
begin

lemmas db_rules = steps_rules steps_ext steps_now steps_rand steps_query steps_seal steps_vseal steps_open
  steps_files steps_exec

end

definition inv_rel :: "db \<Rightarrow> db \<Rightarrow> bool" where
  "inv_rel d d' \<longleftrightarrow> (db_inv d \<longrightarrow> db_inv d')"

end
