(* ===== verification/Accounts.thy ===== *)
theory Accounts
  imports Schema
begin

text \<open>
  The account repositories: \<open>store/users.go\<close>, \<open>store/keys.go\<close>, \<open>store/membership.go\<close>,
  \<open>store/tokens.go\<close> and \<open>store/password.go\<close>. Each SQL statement is a function on the
  database (\<open>ins_user\<close>, \<open>upd_user\<close>, ...), each repository method a program composed of
  them in the order of the code. Parsing and fingerprinting SSH keys is
  \<open>golang.org/x/crypto/ssh\<close>, the argument \<open>K\<close>.
\<close>

section \<open>Users\<close>

definition StatusPending :: bytes where "StatusPending = str ''pending''"
definition StatusApproved :: bytes where "StatusApproved = str ''approved''"
definition StatusDenied :: bytes where "StatusDenied = str ''denied''"
definition StatusSuspended :: bytes where "StatusSuspended = str ''suspended''"

record User =
  U_ID :: int
  U_Handle :: bytes
  U_PasswordHash :: bytes
  U_RealName :: bytes
  U_Email :: bytes
  U_AccessLevel :: int
  U_Status :: bytes
  U_DailyMinutes :: int
  U_Points :: int
  U_Colorblind :: bool
  U_CreatedAt :: int
  U_LastLoginAt :: "int option"

definition users_scan :: "prims \<Rightarrow> vault \<Rightarrow> int \<times> user_row \<Rightarrow> gerr + User" where
  "users_scan P v x = (case x of (i, r) \<Rightarrow>
     (case unseal P v (u_real_name r) of Inl e \<Rightarrow> Inl e | Inr name \<Rightarrow>
     (case unseal P v (u_email r) of Inl e \<Rightarrow> Inl e | Inr email \<Rightarrow>
        Inr \<lparr>U_ID = i, U_Handle = u_handle r, U_PasswordHash = u_password_hash r, U_RealName = name,
          U_Email = email, U_AccessLevel = u_access_level r, U_Status = u_status r,
          U_DailyMinutes = u_daily_minutes r, U_Points = u_points r, U_Colorblind = (u_colorblind r \<noteq> 0),
          U_CreatedAt = u_created_at r, U_LastLoginAt = u_last_login_at r\<rparr>)))"

text \<open>The first row of a result, or \<open>sql.ErrNoRows\<close>.\<close>

definition first_row :: "'r list \<Rightarrow> gerr + 'r" where
  "first_row rs = (case rs of [] \<Rightarrow> Inl ErrNoRows | r # _ \<Rightarrow> Inr r)"

definition bind_err :: "gerr + 'x \<Rightarrow> ('x \<Rightarrow> gerr + 'y) \<Rightarrow> gerr + 'y" where
  "bind_err r f = (case r of Inl e \<Rightarrow> Inl e | Inr x \<Rightarrow> f x)"

definition norows_notfound :: "gerr + 'x \<Rightarrow> gerr + 'x" where
  "norows_notfound r = (case r of Inl e \<Rightarrow> Inl (if e = ErrNoRows then ErrNotFound else e) | Inr x \<Rightarrow> Inr x)"

definition sel_id :: "'r tbl \<Rightarrow> int \<Rightarrow> (int \<times> 'r) list" where
  "sel_id t i = tbl_select (\<lambda>j r. j = i) t"

definition users_ByID :: "int \<Rightarrow> ('a store_scheme, User) prog" where
  "users_ByID i s = query (\<lambda>d. norows_notfound (bind_err (first_row (sel_id (d_user d) i))
     (users_scan (st_prims s) (st_vault s)))) s"

definition users_ByHandle :: "bytes \<Rightarrow> ('a store_scheme, User) prog" where
  "users_ByHandle h s = query (\<lambda>d. norows_notfound (bind_err
     (first_row (tbl_select (\<lambda>i r. nocase (u_handle r) = nocase h) (d_user d)))
     (users_scan (st_prims s) (st_vault s)))) s"

definition ins_user :: "user_row \<Rightarrow> db \<Rightarrow> gerr + int \<times> db" where
  "ins_user r d = (if has (\<lambda>x. nocase (u_handle x) = nocase (u_handle r)) (d_user d) then Inl ErrUnique
     else Inr (fst (tbl_insert r (d_user d)), d\<lparr>d_user := snd (tbl_insert r (d_user d))\<rparr>))"

definition users_Create :: "bytes \<Rightarrow> bytes \<Rightarrow> bytes \<Rightarrow> bytes \<Rightarrow> ('a store_scheme, User) prog" where
  "users_Create handle pwHash realName email =
     chk (st_seal realName) (\<lambda>encName.
     chk (st_seal email) (\<lambda>encEmail.
     chk time_Now (\<lambda>now.
     chk (exec (ins_user \<lparr>u_handle = handle, u_password_hash = pwHash, u_real_name = encName,
         u_email = encEmail, u_access_level = 0, u_status = StatusPending, u_daily_minutes = 0,
         u_created_at = now, u_last_login_at = None, u_last_login_ip = [], u_points = 0, u_colorblind = 0\<rparr>))
     users_ByID)))"

text \<open>\<open>UPDATE user SET ... WHERE id = ?\<close>; the number of rows is not looked at.\<close>

definition upd_user :: "int \<Rightarrow> (user_row \<Rightarrow> user_row) \<Rightarrow> db \<Rightarrow> gerr + unit \<times> db" where
  "upd_user i f d = Inr ((), d\<lparr>d_user := snd (tbl_update (\<lambda>j r. j = i) f (d_user d))\<rparr>)"

definition users_SetStatus :: "int \<Rightarrow> bytes \<Rightarrow> int \<Rightarrow> ('a store_scheme, unit) prog" where
  "users_SetStatus i status lvl = exec (upd_user i (\<lambda>r. r\<lparr>u_status := status, u_access_level := lvl\<rparr>))"

definition users_SetPassword :: "int \<Rightarrow> bytes \<Rightarrow> ('a store_scheme, unit) prog" where
  "users_SetPassword i h = exec (upd_user i (\<lambda>r. r\<lparr>u_password_hash := h\<rparr>))"

definition users_Approve :: "int \<Rightarrow> int \<Rightarrow> ('a store_scheme, unit) prog" where
  "users_Approve i lvl = users_SetStatus i StatusApproved lvl"

definition users_SetDailyMinutes :: "int \<Rightarrow> int \<Rightarrow> ('a store_scheme, unit) prog" where
  "users_SetDailyMinutes i m = exec (upd_user i (\<lambda>r. r\<lparr>u_daily_minutes := m\<rparr>))"

definition users_SetColorblind :: "int \<Rightarrow> bool \<Rightarrow> ('a store_scheme, unit) prog" where
  "users_SetColorblind i on = exec (upd_user i (\<lambda>r. r\<lparr>u_colorblind := (if on then 1 else 0)\<rparr>))"

definition users_AddPoints :: "int \<Rightarrow> int \<Rightarrow> ('a store_scheme, int) prog" where
  "users_AddPoints i delta = chk (exec (upd_user i (\<lambda>r. r\<lparr>u_points := u_points r + delta\<rparr>))) (\<lambda>_.
     query (\<lambda>d. bind_err (first_row (sel_id (d_user d) i)) (\<lambda>(j, r). Inr (u_points r))))"

definition users_All :: "('a store_scheme, User list) prog" where
  "users_All s = query (\<lambda>d. scan_rows (users_scan (st_prims s) (st_vault s)) (t_rows (d_user d))) s"

definition users_ListByStatus :: "bytes \<Rightarrow> ('a store_scheme, User list) prog" where
  "users_ListByStatus status s = query (\<lambda>d. scan_rows (users_scan (st_prims s) (st_vault s))
     (tbl_select (\<lambda>i r. u_status r = status) (d_user d))) s"

definition users_TouchLogin :: "int \<Rightarrow> int \<Rightarrow> ('a store_scheme, unit) prog" where
  "users_TouchLogin i now = exec (upd_user i (\<lambda>r. r\<lparr>u_last_login_at := Some now\<rparr>))"

text \<open>15 minutes, in nanoseconds.\<close>

definition RapidLoginWindow :: int where "RapidLoginWindow = 15 * 60 * 10 ^ 9"

definition ins_anomaly :: "anomaly_row \<Rightarrow> db \<Rightarrow> gerr + unit \<times> db" where
  "ins_anomaly r d = (if fk (d_user d) (an_user_id r)
     then Inr ((), d\<lparr>d_anomaly := snd (tbl_insert r (d_anomaly d))\<rparr>) else Inl ErrForeignKey)"

definition users_RecordLogin :: "int \<Rightarrow> bytes \<Rightarrow> int \<Rightarrow> ('a store_scheme, bool) prog" where
  "users_RecordLogin i ip now =
     chk (query (\<lambda>d. bind_err (first_row (sel_id (d_user d) i)) (\<lambda>(j, r). Inr (u_last_login_ip r, u_last_login_at r))))
      (\<lambda>(prevIP, prevAt).
        (let gap = (case prevAt of None \<Rightarrow> -1 | Some t \<Rightarrow> now - t);
             rapid = (prevIP \<noteq> [] \<and> ip \<noteq> [] \<and> prevIP \<noteq> ip \<and> 0 \<le> gap \<and> gap < RapidLoginWindow)
         in chk (if rapid
                 then exec (ins_anomaly \<lparr>an_user_id = i, an_prev_ip = prevIP, an_new_ip = ip,
                        an_gap = gap div 10 ^ 9, an_at = now\<rparr>)
                 else ret ()) (\<lambda>_.
            chk (exec (upd_user i (\<lambda>r. r\<lparr>u_last_login_at := Some now, u_last_login_ip := ip\<rparr>))) (\<lambda>_. ret rapid))))"

section \<open>SSH keys\<close>

record ssh_lib =
  ssh_parse :: "bytes \<Rightarrow> (bytes \<times> bytes) option"
  ssh_marshal :: "bytes \<Rightarrow> bytes"
  ssh_fingerprint :: "bytes \<Rightarrow> bytes"

definition ValidatePublicKey :: "ssh_lib \<Rightarrow> bytes \<Rightarrow> bool" where
  "ValidatePublicKey K line \<longleftrightarrow> ssh_parse K line \<noteq> None"

text \<open>The levels of the other accounts that hold an active key with this fingerprint.\<close>

definition holder_levels :: "db \<Rightarrow> bytes \<Rightarrow> int \<Rightarrow> int list" where
  "holder_levels d fp u = concat (map (\<lambda>(i, k). map (\<lambda>(j, r). u_access_level r) (sel_id (d_user d) (k_user_id k)))
     (tbl_select (\<lambda>i k. k_fingerprint k = fp \<and> k_revoked_at k = None \<and> k_user_id k \<noteq> u) (d_key d)))"

definition ins_key :: "key_row \<Rightarrow> db \<Rightarrow> gerr + int \<times> db" where
  "ins_key r d = (if fk (d_user d) (k_user_id r)
     then Inr (fst (tbl_insert r (d_key d)), d\<lparr>d_key := snd (tbl_insert r (d_key d))\<rparr>) else Inl ErrForeignKey)"

definition keys_byID :: "int \<Rightarrow> ('a store_scheme, int \<times> key_row) prog" where
  "keys_byID i = query (\<lambda>d. first_row (sel_id (d_key d) i))"

definition keys_Add :: "ssh_lib \<Rightarrow> int \<Rightarrow> bytes \<Rightarrow> ('a store_scheme, int \<times> key_row) prog" where
  "keys_Add K u line = (case ssh_parse K line of
     None \<Rightarrow> fail ErrInvalidKey
   | Some (pub, comment) \<Rightarrow>
       (let normalised = TrimSpace (ssh_marshal K pub); fp = ssh_fingerprint K pub in
        chk time_Now (\<lambda>now.
        chk (query (\<lambda>d. bind_err (first_row (sel_id (d_user d) u)) (\<lambda>(j, r). Inr (u_access_level r)))) (\<lambda>lvl.
        chk (query (\<lambda>d. Inr (holder_levels d fp u))) (\<lambda>lvls.
          if \<exists>l \<in> set lvls. (SysOpLevel \<le> l) = (SysOpLevel \<le> lvl) then fail ErrKeyTaken
          else chk (exec (ins_key \<lparr>k_user_id = u, k_public_key = normalised, k_fingerprint = fp,
                 k_comment = comment, k_added_at = now, k_revoked_at = None\<rparr>)) keys_byID)))))"

definition keys_ByFingerprint :: "bytes \<Rightarrow> ('a store_scheme, (int \<times> key_row) option) prog" where
  "keys_ByFingerprint fp = query (\<lambda>d. Inr (case tbl_select (\<lambda>i k. k_fingerprint k = fp \<and> k_revoked_at k = None) (d_key d) of
     [] \<Rightarrow> None | k # _ \<Rightarrow> Some k))"

definition keys_Active :: "int \<Rightarrow> ('a store_scheme, (int \<times> key_row) list) prog" where
  "keys_Active u = query (\<lambda>d. Inr (tbl_select (\<lambda>i k. k_user_id k = u \<and> k_revoked_at k = None) (d_key d)))"

definition keys_All :: "int \<Rightarrow> ('a store_scheme, (int \<times> key_row) list) prog" where
  "keys_All u = query (\<lambda>d. Inr (tbl_select (\<lambda>i k. k_user_id k = u) (d_key d)))"

definition upd_revoke :: "int \<Rightarrow> int \<Rightarrow> db \<Rightarrow> gerr + unit \<times> db" where
  "upd_revoke i now d = Inr ((), d\<lparr>d_key := snd (tbl_update (\<lambda>j k. j = i \<and> k_revoked_at k = None)
     (\<lambda>k. k\<lparr>k_revoked_at := Some now\<rparr>) (d_key d))\<rparr>)"

definition keys_Revoke :: "int \<Rightarrow> ('a store_scheme, unit) prog" where
  "keys_Revoke i = chk time_Now (\<lambda>now. exec (upd_revoke i now))"

definition keys_Authorizes :: "ssh_lib \<Rightarrow> int \<Rightarrow> bytes \<Rightarrow> ('a store_scheme, bool) prog" where
  "keys_Authorizes K u offered = chk (keys_Active u) (\<lambda>act.
     ret (\<exists>x \<in> set act. k_fingerprint (snd x) = ssh_fingerprint K offered))"

section \<open>Membership applications\<close>

definition DecisionPending :: bytes where "DecisionPending = str ''pending''"
definition DecisionApproved :: bytes where "DecisionApproved = str ''approved''"
definition DecisionDenied :: bytes where "DecisionDenied = str ''denied''"

record Membership =
  M_ID :: int
  M_UserID :: int
  M_AppliedAt :: int
  M_ReviewedBy :: "int option"
  M_ReviewedAt :: "int option"
  M_Decision :: bytes
  M_Note :: bytes

definition memberships_scan :: "prims \<Rightarrow> vault \<Rightarrow> int \<times> membership_row \<Rightarrow> gerr + Membership" where
  "memberships_scan P v x = (case x of (i, r) \<Rightarrow>
     (case unseal P v (mb_note r) of Inl e \<Rightarrow> Inl e | Inr note \<Rightarrow>
        Inr \<lparr>M_ID = i, M_UserID = mb_user_id r, M_AppliedAt = mb_applied_at r, M_ReviewedBy = mb_reviewed_by r,
          M_ReviewedAt = mb_reviewed_at r, M_Decision = mb_decision r, M_Note = note\<rparr>))"

definition memberships_ByID :: "int \<Rightarrow> ('a store_scheme, Membership) prog" where
  "memberships_ByID i s = query (\<lambda>d. bind_err (first_row (sel_id (d_membership d) i))
     (memberships_scan (st_prims s) (st_vault s))) s"

definition ins_membership :: "membership_row \<Rightarrow> db \<Rightarrow> gerr + int \<times> db" where
  "ins_membership r d = (if fk (d_user d) (mb_user_id r) \<and> fk_opt (d_user d) (mb_reviewed_by r)
     then Inr (fst (tbl_insert r (d_membership d)), d\<lparr>d_membership := snd (tbl_insert r (d_membership d))\<rparr>) else Inl ErrForeignKey)"

definition memberships_Apply :: "int \<Rightarrow> bytes \<Rightarrow> ('a store_scheme, Membership) prog" where
  "memberships_Apply u note = chk (st_seal note) (\<lambda>encNote. chk time_Now (\<lambda>now.
     chk (exec (ins_membership \<lparr>mb_user_id = u, mb_applied_at = now, mb_reviewed_by = None,
       mb_reviewed_at = None, mb_decision = DecisionPending, mb_note = encNote\<rparr>)) memberships_ByID))"

definition upd_review :: "int \<Rightarrow> int \<Rightarrow> int \<Rightarrow> bytes \<Rightarrow> bytes \<Rightarrow> db \<Rightarrow> gerr + unit \<times> db" where
  "upd_review i reviewer now decision note d =
     (if fk (d_membership d) i \<and> \<not> fk (d_user d) reviewer then Inl ErrForeignKey
      else Inr ((), d\<lparr>d_membership := snd (tbl_update (\<lambda>j r. j = i)
        (\<lambda>r. r\<lparr>mb_reviewed_by := Some reviewer, mb_reviewed_at := Some now, mb_decision := decision, mb_note := note\<rparr>)
        (d_membership d))\<rparr>))"

definition memberships_Review :: "int \<Rightarrow> int \<Rightarrow> bytes \<Rightarrow> bytes \<Rightarrow> ('a store_scheme, unit) prog" where
  "memberships_Review i reviewer decision note = chk (st_seal note) (\<lambda>encNote. chk time_Now (\<lambda>now.
     exec (upd_review i reviewer now decision encNote)))"

definition memberships_Pending :: "('a store_scheme, Membership list) prog" where
  "memberships_Pending s = query (\<lambda>d. scan_rows (memberships_scan (st_prims s) (st_vault s))
     (tbl_select (\<lambda>i r. mb_decision r = DecisionPending) (d_membership d))) s"

section \<open>One-time approval tokens\<close>

text \<open>72 hours, in nanoseconds.\<close>

definition TokenTTL :: int where "TokenTTL = 72 * 3600 * 10 ^ 9"

definition hashToken :: "prims \<Rightarrow> bytes \<Rightarrow> bytes" where
  "hashToken P plain = b64_encode std_alphabet (p_sha256 P plain)"

definition ins_token :: "token_row \<Rightarrow> db \<Rightarrow> gerr + unit \<times> db" where
  "ins_token r d = (if fk (d_user d) (tk_user_id r)
     then Inr ((), d\<lparr>d_token := snd (tbl_insert r (d_token d))\<rparr>) else Inl ErrForeignKey)"

definition tokens_Issue :: "int \<Rightarrow> ('a store_scheme, bytes) prog" where
  "tokens_Issue u s = chk (rand_Read 32) (\<lambda>raw.
     (let plain = b64_encode url_alphabet raw in
      chk time_Now (\<lambda>now.
      chk (exec (ins_token \<lparr>tk_user_id = u, tk_hash = hashToken (st_prims s) plain,
             tk_expires_at = now + TokenTTL, tk_used_at = None\<rparr>)) (\<lambda>_. ret plain)))) s"

definition upd_token :: "int \<Rightarrow> int \<Rightarrow> db \<Rightarrow> gerr + nat \<times> db" where
  "upd_token i now d = (let u = tbl_update (\<lambda>j r. j = i \<and> tk_used_at r = None)
     (\<lambda>r. r\<lparr>tk_used_at := Some now\<rparr>) (d_token d) in Inr (fst u, d\<lparr>d_token := snd u\<rparr>))"

definition tokens_Redeem :: "int \<Rightarrow> bytes \<Rightarrow> ('a store_scheme, unit) prog" where
  "tokens_Redeem u plain s =
     chk (query (\<lambda>d. Inr (tbl_select (\<lambda>i r. tk_user_id r = u \<and> tk_used_at r = None) (d_token d)))) (\<lambda>rows.
     chk time_Now (\<lambda>now.
       (case filter (\<lambda>(i, r). tk_hash r = hashToken (st_prims s) plain \<and> now < tk_expires_at r) rows of
          [] \<Rightarrow> fail ErrTokenInvalid
        | (i, r) # _ \<Rightarrow> chk (exec (upd_token i now)) (\<lambda>n. if n \<noteq> 1 then fail ErrTokenInvalid else ret ())))) s"

section \<open>Passwords\<close>

definition pw_prefix :: bytes where "pw_prefix = str ''$argon2id$v=19$m=65536,t=3,p=2$''"

definition HashPassword :: "prims \<Rightarrow> bytes \<Rightarrow> ('a env_scheme, bytes) prog" where
  "HashPassword P pw = chk (rand_Read 16) (\<lambda>salt.
     ret (pw_prefix @ b64_encode std_alphabet salt @ [36] @
       b64_encode std_alphabet (p_kdf P pw salt 3 65536 2 32)))"

text \<open>\<open>fmt.Sscanf\<close> with the two formats used: literal text, and \<open>%d\<close>, which skips blanks and
  reads digits within the target's width; what follows is left unread.\<close>

definition skip_blanks :: "bytes \<Rightarrow> bytes" where
  "skip_blanks s = dropWhile (\<lambda>b. b \<in> {9, 11, 12, 13, 32}) s"

definition read_digits :: "nat \<Rightarrow> bytes \<Rightarrow> (nat \<times> bytes) option" where
  "read_digits bits t = (let ds = takeWhile is_digit t in
     if ds = [] \<or> 2 ^ bits \<le> digits_val ds then None else Some (digits_val ds, dropWhile is_digit t))"

definition scan_digits :: "nat \<Rightarrow> bytes \<Rightarrow> (nat \<times> bytes) option" where
  "scan_digits bits s = read_digits bits (skip_blanks s)"

text \<open>The version goes into a signed \<open>int\<close>; a negative one never equals 19.\<close>

definition scan_version :: "bytes \<Rightarrow> nat option" where
  "scan_version s = (case strip_prefix (str ''v='') s of None \<Rightarrow> None
     | Some t \<Rightarrow> (let u = skip_blanks t in
         map_option fst (read_digits 63 (if u \<noteq> [] \<and> hd u = 43 then tl u else u))))"

definition scan_params :: "bytes \<Rightarrow> (nat \<times> nat \<times> nat) option" where
  "scan_params s = (case strip_prefix (str ''m='') s of None \<Rightarrow> None | Some a \<Rightarrow>
     (case scan_digits 32 a of None \<Rightarrow> None | Some (mem, b) \<Rightarrow>
     (case strip_prefix (str '',t='') b of None \<Rightarrow> None | Some c \<Rightarrow>
     (case scan_digits 32 c of None \<Rightarrow> None | Some (time, d) \<Rightarrow>
     (case strip_prefix (str '',p='') d of None \<Rightarrow> None | Some e \<Rightarrow>
     (case scan_digits 8 e of None \<Rightarrow> None | Some (threads, rest) \<Rightarrow> Some (mem, time, threads)))))))"

definition VerifyPassword :: "prims \<Rightarrow> bytes \<Rightarrow> bytes \<Rightarrow> gerr + bool" where
  "VerifyPassword P encoded pw = (let parts = split_on 36 encoded in
     if length parts \<noteq> 6 \<or> parts ! 1 \<noteq> str ''argon2id'' then Inl ErrBadHash
     else if scan_version (parts ! 2) \<noteq> Some 19 then Inl ErrBadHash
     else (case scan_params (parts ! 3) of None \<Rightarrow> Inl ErrBadHash
       | Some (mem, time, threads) \<Rightarrow>
         (case b64_decode std_alphabet (parts ! 4) of None \<Rightarrow> Inl ErrBadHash | Some salt \<Rightarrow>
         (case b64_decode std_alphabet (parts ! 5) of None \<Rightarrow> Inl ErrBadHash | Some want \<Rightarrow>
            Inr (p_kdf P pw salt time mem threads (length want) = want)))))"

section \<open>The database invariant\<close>

lemma fk_rows: "(i, r) \<in> set (t_rows t) \<Longrightarrow> fk t i"
  by (force simp: fk_iff)

lemma ins_user_inv: "ins_user r d = Inr (x, d') \<Longrightarrow> inv_rel d d'"
  using db_inv_user [of d]
  by (auto simp: ins_user_def inv_rel_def tbl_inv split: if_splits intro!: db_set)

lemma upd_user_inv:
  "(\<And>r. u_handle (f r) = u_handle r) \<Longrightarrow> upd_user i f d = Inr (x, d') \<Longrightarrow> inv_rel d d'"
  using db_inv_user [of d] by (auto simp: upd_user_def inv_rel_def tbl_inv intro!: db_set)

lemma ins_anomaly_inv: "ins_anomaly r d = Inr (x, d') \<Longrightarrow> inv_rel d d'"
  using db_inv_anomaly [of d]
  by (auto simp: ins_anomaly_def inv_rel_def tbl_inv split: if_splits intro!: db_set)

lemma ins_key_inv: "ins_key r d = Inr (x, d') \<Longrightarrow> inv_rel d d'"
  using db_inv_key [of d]
  by (auto simp: ins_key_def inv_rel_def tbl_inv split: if_splits intro!: db_set)

lemma upd_revoke_inv: "upd_revoke i now d = Inr (x, d') \<Longrightarrow> inv_rel d d'"
  using db_inv_key [of d]
  by (auto simp: upd_revoke_def inv_rel_def intro!: db_set all_rows_update)

lemma ins_membership_inv: "ins_membership r d = Inr (x, d') \<Longrightarrow> inv_rel d d'"
  using db_inv_membership [of d]
  by (auto simp: ins_membership_def inv_rel_def tbl_inv split: if_splits intro!: db_set)

lemma upd_review_inv: "upd_review i reviewer now dec note d = Inr (x, d') \<Longrightarrow> inv_rel d d'"
  using db_inv_membership [of d] fk_rows [of i _ "d_membership d"]
  by (auto simp: upd_review_def inv_rel_def split: if_splits intro!: db_set all_rows_update)

lemma ins_token_inv: "ins_token r d = Inr (x, d') \<Longrightarrow> inv_rel d d'"
  using db_inv_token [of d]
  by (auto simp: ins_token_def inv_rel_def tbl_inv split: if_splits intro!: db_set)

lemma upd_token_inv: "upd_token i now d = Inr (x, d') \<Longrightarrow> inv_rel d d'"
  using db_inv_token [of d]
  by (auto simp: upd_token_def Let_def inv_rel_def intro!: db_set all_rows_update)

text \<open>Rules of the step calculus for operations that look at the state first.\<close>

lemma steps_runI: "(\<And>s. R s (snd (m s))) \<Longrightarrow> steps R m"
  by (simp add: steps_def)

lemma steps_state: "(\<And>x. steps R (F x)) \<Longrightarrow> (\<And>s. m s = F s s) \<Longrightarrow> steps R m"
  by (simp add: steps_def)

lemma steps_dep: "(\<And>x. steps R (F x)) \<Longrightarrow> steps R (\<lambda>s. F (g s) s)"
  by (simp add: steps_def)

section \<open>Looking up what was created\<close>

lemma sound_db [simp]: "sound (s\<lparr>st_db := d\<rparr>) = sound s"
  by (simp add: sound_def)

lemma sel_id_get: "wf_tbl t \<Longrightarrow> sel_id t i = (case tbl_get t i of None \<Rightarrow> [] | Some r \<Rightarrow> [(i, r)])"
proof -
  assume "wf_tbl t"
  then have d: "distinct (map fst (t_rows t))" by (rule wf_distinct)
  have "filter (\<lambda>(j, r). j = i) l = (case map_of l i of None \<Rightarrow> [] | Some r \<Rightarrow> [(i, r)])"
    if "distinct (map fst l)" for l
    using that
  proof (induction l)
    case (Cons p l)
    obtain j r where p: "p = (j, r)" by fastforce
    then show ?case
    proof (cases "j = i")
      case True
      then have "map_of l i = None" using Cons.prems p by (simp add: map_of_eq_None_iff)
      then have "filter (\<lambda>(j, r). j = i) l = []" using Cons by simp
      then show ?thesis using p True by simp
    qed (use Cons p in auto)
  qed simp
  then show ?thesis using d by (simp add: sel_id_def tbl_select_def tbl_get_def)
qed

lemma first_sel_id:
  "wf_tbl t \<Longrightarrow> first_row (sel_id t i) = (case tbl_get t i of None \<Rightarrow> Inl ErrNoRows | Some r \<Rightarrow> Inr (i, r))"
  by (simp add: sel_id_get first_row_def split: option.splits)

text \<open>The row of a handle is unique, in whatever case it is asked for.\<close>

lemma first_by_handle:
  assumes "db_inv d" "tbl_get (d_user d) i = Some r" "nocase h = nocase (u_handle r)"
  shows "first_row (tbl_select (\<lambda>i r. nocase (u_handle r) = nocase h) (d_user d)) = Inr (i, r)"
proof -
  let ?l = "tbl_select (\<lambda>i r. nocase (u_handle r) = nocase h) (d_user d)"
  have inv: "wf_tbl (d_user d)" "uniq (nocase \<circ> u_handle) (d_user d)" using db_inv_user [OF assms(1)] by auto
  have mem: "(i, r) \<in> set ?l" using assms(2,3) inv(1) by (simp add: tbl_select_get)
  have "x = (i, r)" if x: "x \<in> set ?l" for x
  proof -
    obtain j q where jq: "x = (j, q)" by fastforce
    then have "(j, q) \<in> set (t_rows (d_user d))" "nocase (u_handle q) = nocase (u_handle r)"
      using x assms(3) by (simp_all add: tbl_select_iff)
    then show ?thesis using uniqD [OF inv(2), of j q i r] tbl_get_rows [OF assms(2)] jq by simp
  qed
  moreover have "?l \<noteq> []" using mem by auto
  ultimately show ?thesis by (cases ?l) (auto simp: first_row_def)
qed

lemma users_scan_ok:
  assumes "unseal P v (u_real_name r) = Inr name" "unseal P v (u_email r) = Inr email"
  shows "\<exists>u. users_scan P v (i, r) = Inr u \<and> U_ID u = i \<and> U_Handle u = u_handle r \<and>
    U_PasswordHash u = u_password_hash r \<and> U_RealName u = name \<and> U_Email u = email \<and>
    U_AccessLevel u = u_access_level r \<and> U_Status u = u_status r"
  using assms by (simp add: users_scan_def)

text \<open>
  An applicant's account is created exactly once and can be found. With a working
  disk and an unused handle, \<open>Create\<close> returns the account with the given handle, hash,
  name and e-mail (decrypted from what was stored), pending and at level 0, and
  \<open>ByHandle\<close> finds this same account under every capitalisation of the handle.
\<close>

theorem create_then_find:
  assumes "sound s" "prims_ok (st_prims s)" "db_inv (st_db s)"
    and "\<not> has (\<lambda>x. nocase (u_handle x) = nocase handle) (d_user (st_db s))"
    and "nocase h' = nocase handle"
  shows "case users_Create handle pwHash realName email s of (Inl e, s') \<Rightarrow> False | (Inr u, s') \<Rightarrow>
     U_Handle u = handle \<and> U_PasswordHash u = pwHash \<and> U_RealName u = realName \<and> U_Email u = email \<and>
     U_Status u = StatusPending \<and> U_AccessLevel u = 0 \<and> fst (users_ByHandle h' s') = Inr u"
proof -
  obtain e1 p1 where s1: "st_seal realName s = (Inr e1, s\<lparr>e_step := e_step s + 1, e_rpos := p1\<rparr>)"
    using st_seal_ok [OF assms(1)] by blast
  let ?s1 = "s\<lparr>e_step := e_step s + 1, e_rpos := p1\<rparr>"
  have snd1: "sound ?s1" using assms(1) by simp
  obtain e2 p2 where s2: "st_seal email ?s1 = (Inr e2, ?s1\<lparr>e_step := e_step ?s1 + 1, e_rpos := p2\<rparr>)"
    using st_seal_ok [OF snd1] by blast
  let ?s2 = "?s1\<lparr>e_step := e_step ?s1 + 1, e_rpos := p2\<rparr>" and ?d = "st_db s"
  define r where "r = \<lparr>u_handle = handle, u_password_hash = pwHash, u_real_name = e1, u_email = e2,
     u_access_level = 0, u_status = StatusPending, u_daily_minutes = 0, u_created_at = e_clock s (e_step ?s2),
     u_last_login_at = None, u_last_login_ip = [], u_points = 0, u_colorblind = 0\<rparr>"
  define i where "i = t_seq (d_user ?d) + 1"
  define d' where "d' = ?d\<lparr>d_user := snd (tbl_insert r (d_user ?d))\<rparr>"
  have ins: "ins_user r ?d = Inr (i, d')" using assms(4) by (simp add: ins_user_def r_def i_def d'_def)
  then have inv: "db_inv d'" using ins_user_inv assms(3) by (auto simp: inv_rel_def)
  have get: "tbl_get (d_user d') i = Some r"
    using db_inv_user [OF assms(3)] by (simp add: d'_def i_def tbl_insert_get)
  have "unseal (st_prims s) (st_vault s) e1 = Inr realName"
    "unseal (st_prims s) (st_vault s) e2 = Inr email"
    using unseal_seal [OF assms(2) s1] unseal_seal [of ?s1, OF _ s2] assms(2) by auto
  then obtain u where u: "users_scan (st_prims s) (st_vault s) (i, r) = Inr u" "U_Handle u = handle"
    "U_PasswordHash u = pwHash" "U_RealName u = realName" "U_Email u = email" "U_AccessLevel u = 0"
    "U_Status u = StatusPending"
    using users_scan_ok [of "st_prims s" "st_vault s" r realName email i] by (auto simp: r_def)
  have "users_Create handle pwHash realName email s = users_ByID i (?s2\<lparr>e_step := e_step ?s2 + 1, st_db := d'\<rparr>)"
    using s1 s2 ins assms(1) by (simp add: users_Create_def chk_run time_Now_def exec_ok r_def)
  also have "\<dots> = (Inr u, ?s2\<lparr>e_step := e_step ?s2 + 2, st_db := d'\<rparr>)"
    using get u(1) assms(1) db_inv_user [OF inv]
    by (simp add: users_ByID_def query_ok first_sel_id bind_err_def norows_notfound_def)
  finally show ?thesis
    using u assms(1) first_by_handle [OF inv get, of h'] assms(5)
    by (simp add: users_ByHandle_def query_ok bind_err_def norows_notfound_def r_def)
qed

text \<open>
  A taken handle is refused. Whatever else fails or not, \<open>Create\<close> for a handle that
  some account already has, in any capitalisation, returns an error and leaves the
  database as it was.
\<close>

theorem create_taken_refused:
  assumes "has (\<lambda>x. nocase (u_handle x) = nocase handle) (d_user (st_db s))"
  shows "\<exists>e s'. users_Create handle pwHash realName email s = (Inl e, s') \<and> st_db s' = st_db s"
proof -
  obtain r1 s1 where a: "st_seal realName s = (r1, s1)" by fastforce
  then obtain k p where s1: "s1 = s\<lparr>e_step := k, e_rpos := p\<rparr>" by (rule st_seal_state)
  obtain r2 s2 where b: "st_seal email s1 = (r2, s2)" by fastforce
  then obtain k' p' where s2: "s2 = s1\<lparr>e_step := k', e_rpos := p'\<rparr>" by (rule st_seal_state)
  have "ins_user (r\<lparr>u_handle := handle\<rparr>) (st_db s) = Inl ErrUnique" for r
    using assms by (simp add: ins_user_def)
  note no = this [of "\<lparr>u_handle = handle, u_password_hash = a, u_real_name = b, u_email = c, u_access_level = l,
      u_status = st, u_daily_minutes = dm, u_created_at = ca, u_last_login_at = la, u_last_login_ip = ip,
      u_points = pt, u_colorblind = cb\<rparr>" for a b c l st dm ca la ip pt cb]
  show ?thesis
    using a b s1 s2 no
    by (cases r1; cases r2; cases "e_fault s k'")
       (auto simp: users_Create_def chk_run time_Now_def exec_def ext_def)
qed

definition calm_store :: "db \<Rightarrow> store" where
  "calm_store d = env.extend calm_env (store.fields d clear_prims \<lparr>v_key = [1], v_macKey = []\<rparr> (str ''files''))"

lemma calm_store_simps [simp]:
  "sound (calm_store d)" "st_db (calm_store d) = d" "st_prims (calm_store d) = clear_prims"
  "st_vault (calm_store d) = \<lparr>v_key = [1], v_macKey = []\<rparr>" "e_fs (calm_store d) = Map.empty"
  "e_step (calm_store d) = 0" "e_clock (calm_store d) = int" "st_filesDir (calm_store d) = str ''files''"
  by (simp_all add: calm_store_def calm_env_def store.defs env.defs sound_def)

lemma create_then_find_witness:
  "case users_Create (str ''Bob'') [] [] [] (calm_store empty_db) of
     (Inr u, s') \<Rightarrow> fst (users_ByHandle (str ''bOB'') s') = Inr u | _ \<Rightarrow> False"
  using create_then_find [of "calm_store empty_db" "str ''Bob''" "str ''bOB''" "[]" "[]" "[]"] clear_prims_ok
  by (auto simp: has_def empty_db_def [THEN arg_cong [of _ _ d_user]] tbl_empty_def str_def nocase_def lower_byte_def
      split: prod.splits sum.splits)

definition demo_user :: "bytes \<Rightarrow> int \<Rightarrow> user_row" where
  "demo_user h lvl = \<lparr>u_handle = h, u_password_hash = [], u_real_name = [], u_email = [], u_access_level = lvl,
     u_status = StatusApproved, u_daily_minutes = 0, u_created_at = 0, u_last_login_at = None,
     u_last_login_ip = [], u_points = 0, u_colorblind = 0\<rparr>"

definition demo_db :: db where
  "demo_db = empty_db\<lparr>d_user := \<lparr>t_rows = [(1, demo_user [98] 10), (2, demo_user [99] 10)], t_seq = 2\<rparr>\<rparr>"

lemma demo_db_inv [simp]: "db_inv demo_db"
proof -
  have "wf_tbl \<lparr>t_rows = [(1, demo_user [98] 10), (2, demo_user [99] 10)], t_seq = 2\<rparr>"
    by (simp add: wf_tbl_def)
  moreover have "uniq (nocase \<circ> u_handle) \<lparr>t_rows = [(1, demo_user [98] 10), (2, demo_user [99] 10)], t_seq = 2\<rparr>"
    by (simp add: uniq_def demo_user_def nocase_def lower_byte_def)
  moreover have "\<not> fk (d_user empty_db) i" for i by (simp add: fk_iff empty_db_def tbl_empty_def)
  ultimately show ?thesis unfolding demo_db_def by (intro db_set_user) auto
qed

lemma demo_db_tables [simp]:
  "d_token demo_db = tbl_empty" "d_key demo_db = tbl_empty" "d_anomaly demo_db = tbl_empty"
  "d_message demo_db = tbl_empty" "d_area demo_db = tbl_empty" "d_pm demo_db = tbl_empty"
  "d_file demo_db = tbl_empty" "d_file_area demo_db = tbl_empty" "d_block demo_db = []" "d_read demo_db = []"
  "d_user demo_db = \<lparr>t_rows = [(1, demo_user [98] 10), (2, demo_user [99] 10)], t_seq = 2\<rparr>"
  by (simp_all add: demo_db_def empty_db_def)

lemma create_taken_refused_witness:
  "\<exists>e s'. users_Create [66] [] [] [] (calm_store demo_db) = (Inl e, s') \<and> st_db s' = demo_db"
  using create_taken_refused [of "[66]" "calm_store demo_db" "[]" "[]" "[]"]
  by (simp add: has_def demo_user_def nocase_def lower_byte_def)

section \<open>Tokens are spent once\<close>

text \<open>
  A successful redemption consumes one token. If \<open>Redeem\<close> succeeds, then - whatever
  happened around it - some token of this very user, not yet used and not yet expired at
  the time read, had the presented token's hash, and afterwards that token is marked
  used while every other token and every other table is as before.
\<close>

theorem redeem_consumes:
  assumes "tokens_Redeem u plain s = (Inr (), s')" "wf_tbl (d_token (st_db s))"
  shows "\<exists>i r. tbl_get (d_token (st_db s)) i = Some r \<and> tk_user_id r = u \<and> tk_used_at r = None \<and>
    tk_hash r = hashToken (st_prims s) plain \<and> e_clock s (e_step s + 1) < tk_expires_at r \<and>
    (\<exists>t. st_db s' = (st_db s)\<lparr>d_token := t\<rparr> \<and>
      tbl_get t = (tbl_get (d_token (st_db s)))(i \<mapsto> r\<lparr>tk_used_at := Some (e_clock s (e_step s + 1))\<rparr>))"
proof -
  let ?t = "d_token (st_db s)" and ?now = "e_clock s (e_step s + 1)" and ?s = "s\<lparr>e_step := e_step s + 1\<rparr>"
  let ?rows = "tbl_select (\<lambda>i r. tk_user_id r = u \<and> tk_used_at r = None) ?t"
  let ?ok = "filter (\<lambda>(i, r). tk_hash r = hashToken (st_prims s) plain \<and> ?now < tk_expires_at r) ?rows"
  have run: "(case ?ok of [] \<Rightarrow> fail ErrTokenInvalid
      | (i, r) # _ \<Rightarrow> chk (exec (upd_token i ?now)) (\<lambda>n. if n \<noteq> 1 then fail ErrTokenInvalid else ret ())) ?s = (Inr (), s')"
  proof -
    from assms(1) [unfolded tokens_Redeem_def] obtain rows sA where
      q: "query (\<lambda>d. Inr (tbl_select (\<lambda>i r. tk_user_id r = u \<and> tk_used_at r = None) (d_token d))) s = (Inr rows, sA)"
      and k: "chk time_Now (\<lambda>now. case filter (\<lambda>(i, r). tk_hash r = hashToken (st_prims s) plain \<and> now < tk_expires_at r) rows of
          [] \<Rightarrow> fail ErrTokenInvalid
        | (i, r) # _ \<Rightarrow> chk (exec (upd_token i now)) (\<lambda>n. if n \<noteq> 1 then fail ErrTokenInvalid else ret ())) sA = (Inr (), s')"
      by (rule chk_InrE)
    from query_InrD [OF q] have "rows = ?rows" "sA = ?s" by auto
    then show ?thesis using k by (auto simp: chk_run time_Now_def split: list.splits)
  qed
  then obtain i r rest where ok: "?ok = (i, r) # rest" by (cases ?ok) auto
  then have "(i, r) \<in> set ?ok" by simp
  then have ir: "tbl_get ?t i = Some r" "tk_user_id r = u" "tk_used_at r = None"
    "tk_hash r = hashToken (st_prims s) plain" "?now < tk_expires_at r"
    using assms(2) by (auto simp: tbl_select_get)
  let ?t' = "snd (tbl_update (\<lambda>j r. j = i \<and> tk_used_at r = None) (\<lambda>r. r\<lparr>tk_used_at := Some ?now\<rparr>) ?t)"
  have "st_db s' = (st_db s)\<lparr>d_token := ?t'\<rparr>"
    using run ok by (auto simp: upd_token_def Let_def elim!: chk_InrE exec_InrD split: if_splits)
  moreover have "tbl_get ?t' = (tbl_get ?t)(i \<mapsto> r\<lparr>tk_used_at := Some ?now\<rparr>)"
    using ir by (auto simp: tbl_update_get fun_eq_iff map_option_case split: option.splits)
  ultimately show ?thesis using ir by blast
qed

lemma Issue_ok:
  assumes "sound s" "fk (d_user (st_db s)) u"
  obtains plain s1 where "tokens_Issue u s = (Inr plain, s1)" "sound s1" "st_prims s1 = st_prims s"
    "e_step s1 = e_step s + 2" "e_clock s1 = e_clock s"
    "st_db s1 = (st_db s)\<lparr>d_token := snd (tbl_insert \<lparr>tk_user_id = u, tk_hash = hashToken (st_prims s) plain,
        tk_expires_at = e_clock s (e_step s + 1) + TokenTTL, tk_used_at = None\<rparr> (d_token (st_db s)))\<rparr>"
  using assms that
  by (simp add: tokens_Issue_def chk_run rand_Read_ok Let_def time_Now_def exec_ok ins_token_def)

lemma Redeem_run:
  assumes "sound s"
  shows "tokens_Redeem u plain s =
    (case filter (\<lambda>(i, r). tk_hash r = hashToken (st_prims s) plain \<and> e_clock s (e_step s + 1) < tk_expires_at r)
        (tbl_select (\<lambda>i r. tk_user_id r = u \<and> tk_used_at r = None) (d_token (st_db s))) of
       [] \<Rightarrow> (Inl ErrTokenInvalid, s\<lparr>e_step := e_step s + 1\<rparr>)
     | (i, r) # _ \<Rightarrow> chk (exec (upd_token i (e_clock s (e_step s + 1)))) (\<lambda>n. if n \<noteq> 1 then fail ErrTokenInvalid else ret ())
          (s\<lparr>e_step := e_step s + 1\<rparr>))"
  using assms by (simp add: tokens_Redeem_def chk_run query_ok time_Now_def split: list.splits prod.splits)

text \<open>
  C31: an issued token works once. With a working disk, for an existing user and while no
  other unused token of that user has the same hash, \<open>Issue\<close> returns a token whose
  redemption before 72 hours have passed succeeds, and whose second redemption fails
  with \<open>ErrTokenInvalid\<close>.
\<close>

theorem issued_token_works_once:
  assumes "sound s" "db_inv (st_db s)" "fk (d_user (st_db s)) u"
    and "tokens_Issue u s = (Inr plain, s1)"
    and "\<not> has (\<lambda>r. tk_user_id r = u \<and> tk_hash r = hashToken (st_prims s) plain) (d_token (st_db s))"
    and "e_clock s (e_step s + 3) < e_clock s (e_step s + 1) + TokenTTL"
    and "tokens_Redeem u plain s1 = (r2, s2)" "tokens_Redeem u plain s2 = (r3, s3)"
  shows "r2 = Inr () \<and> r3 = Inl ErrTokenInvalid"
proof -
  define row where "row = \<lparr>tk_user_id = u, tk_hash = hashToken (st_prims s) plain,
    tk_expires_at = e_clock s (e_step s + 1) + TokenTTL, tk_used_at = None\<rparr>"
  let ?t = "d_token (st_db s)" and ?i = "t_seq (d_token (st_db s)) + 1" and ?now = "e_clock s (e_step s + 3)"
  have s1: "sound s1" "st_prims s1 = st_prims s" "e_step s1 = e_step s + 2" "e_clock s1 = e_clock s"
    "st_db s1 = (st_db s)\<lparr>d_token := snd (tbl_insert row ?t)\<rparr>"
    using Issue_ok [OF assms(1,3)] assms(4) by (auto simp: row_def)
  have wf: "wf_tbl ?t" using db_inv_token [OF assms(2)] by simp
  have old: "filter (\<lambda>(i, r). tk_hash r = hashToken (st_prims s) plain \<and> P r)
      (tbl_select (\<lambda>i r. tk_user_id r = u \<and> tk_used_at r = None) ?t) = []" for P
    using assms(5) by (auto simp: filter_empty_conv tbl_select_def has_def)
  let ?t1 = "snd (tbl_insert row ?t)"
  have rows1: "filter (\<lambda>(i, r). tk_hash r = hashToken (st_prims s) plain \<and> ?now < tk_expires_at r)
      (tbl_select (\<lambda>i r. tk_user_id r = u \<and> tk_used_at r = None) ?t1) = [(?i, row)]"
    using old [of "\<lambda>r. ?now < tk_expires_at r"] assms(6)
    by (simp add: tbl_insert_def tbl_select_def row_def)
  let ?t2 = "snd (tbl_update (\<lambda>j r. j = ?i \<and> tk_used_at r = None) (\<lambda>r. r\<lparr>tk_used_at := Some ?now\<rparr>) ?t1)"
  have cnt: "fst (tbl_update (\<lambda>j r. j = ?i \<and> tk_used_at r = None) (\<lambda>r. r\<lparr>tk_used_at := Some ?now\<rparr>) ?t1) = 1"
    using wf by (simp add: tbl_update_by_id tbl_insert_get row_def)
  have st: "r2 = Inr ()" "s2 = s1\<lparr>e_step := e_step s1 + 2, st_db := (st_db s)\<lparr>d_token := ?t2\<rparr>\<rparr>"
    using assms(7) Redeem_run [OF s1(1), of u plain] rows1 s1 cnt
    by (auto simp: chk_run exec_ok upd_token_def Let_def numeral_3_eq_3)
  have none: "filter (\<lambda>(i, r). tk_hash r = hashToken (st_prims s) plain \<and> Q r)
      (tbl_select (\<lambda>i r. tk_user_id r = u \<and> tk_used_at r = None) ?t2) = []" for Q
  proof -
    have "\<not> (tk_user_id r = u \<and> tk_used_at r = None \<and> tk_hash r = hashToken (st_prims s) plain)"
      if "(j, r) \<in> set (t_rows ?t2)" for j r
    proof -
      have "r = row\<lparr>tk_used_at := Some ?now\<rparr> \<or> (\<exists>j' q. (j', q) \<in> set (t_rows ?t) \<and>
          tk_user_id r = tk_user_id q \<and> tk_hash r = tk_hash q)"
        using that by (force simp: tbl_update_def tbl_insert_def row_def split: if_splits)
      then show ?thesis using assms(5) by (auto simp: has_def)
    qed
    then show ?thesis by (fastforce simp: filter_empty_conv tbl_select_def)
  qed
  have "r3 = Inl ErrTokenInvalid"
    using assms(8) Redeem_run [of s2 u plain] none s1 st(2) by simp
  then show ?thesis using st(1) by simp
qed

lemma redeem_consumes_witness:
  "\<exists>i r. tbl_get (d_token (demo_db\<lparr>d_token := snd (tbl_insert \<lparr>tk_user_id = 1, tk_hash = hashToken clear_prims [9],
      tk_expires_at = 100, tk_used_at = None\<rparr> tbl_empty)\<rparr>)) i = Some r \<and> tk_used_at r = None"
proof -
  let ?row = "\<lparr>tk_user_id = 1, tk_hash = hashToken clear_prims [9], tk_expires_at = 100, tk_used_at = None\<rparr>"
  let ?s = "calm_store (demo_db\<lparr>d_token := snd (tbl_insert ?row tbl_empty)\<rparr>)"
  have "fst (tokens_Redeem 1 [9] ?s) = Inr ()"
    by (simp add: Redeem_run tbl_insert_def tbl_empty_def tbl_select_def chk_run exec_ok upd_token_def
        tbl_update_def Let_def)
  then have run: "tokens_Redeem 1 [9] ?s = (Inr (), snd (tokens_Redeem 1 [9] ?s))" by (metis prod.collapse)
  have wf: "wf_tbl (d_token (st_db ?s))" by simp
  from redeem_consumes [OF run wf] show ?thesis by auto
qed

lemma issued_token_works_once_witness:
  "fst (tokens_Redeem 1 (b64_encode url_alphabet (replicate 32 7)) (snd (tokens_Issue 1 (calm_store demo_db)))) = Inr ()"
proof -
  let ?p = "b64_encode url_alphabet (replicate 32 7)" and ?s = "calm_store demo_db"
  have "map (e_rand ?s) [e_rpos ?s ..< e_rpos ?s + 32] = replicate 32 7"
    by (simp add: calm_store_def calm_env_def store.defs env.defs map_replicate_const)
  then have "tokens_Issue 1 ?s = (Inr ?p, snd (tokens_Issue 1 ?s))"
    by (simp add: tokens_Issue_def chk_run rand_Read_ok Let_def time_Now_def exec_ok ins_token_def fk_iff)
  moreover have "fk (d_user (st_db ?s)) 1" by (simp add: fk_iff)
  ultimately show ?thesis
    using issued_token_works_once [of ?s 1 ?p "snd (tokens_Issue 1 ?s)" _ _ _ _] 
    by (simp add: has_def tbl_empty_def TokenTTL_def) (metis prod.collapse)
qed

section \<open>Passwords\<close>

lemma kdf_text: "split_on 36 (pw_prefix @ x @ 36 # y)
    = [[], str ''argon2id'', str ''v=19'', str ''m=65536,t=3,p=2''] @ split_on 36 (x @ 36 # y)"
  by (simp add: pw_prefix_def str_def)

lemma no_dollar: "36 \<notin> set (b64_encode std_alphabet x)"
  using std_enc.encode_syms [of 36 x] by (auto simp: alnum_def std_alphabet_def)

lemma scan_constants:
  "scan_version (str ''v=19'') = Some 19"
  "scan_params (str ''m=65536,t=3,p=2'') = Some (65536, 3, 2)"
  by (simp_all add: scan_version_def scan_params_def scan_digits_def read_digits_def skip_blanks_def str_def
      is_digit_def digits_val_def Let_def)

lemma VerifyPassword_text:
  "VerifyPassword P (pw_prefix @ b64_encode std_alphabet salt @ [36] @ b64_encode std_alphabet k) pw
     = Inr (p_kdf P pw salt 3 65536 2 (length k) = k)"
proof -
  have "split_on 36 (pw_prefix @ b64_encode std_alphabet salt @ [36] @ b64_encode std_alphabet k) = [[], str ''argon2id'',
      str ''v=19'', str ''m=65536,t=3,p=2'', b64_encode std_alphabet salt, b64_encode std_alphabet k]"
    using kdf_text [of "b64_encode std_alphabet salt" "b64_encode std_alphabet k"]
    by (simp add: split_on_append [OF no_dollar] split_on_no_sep [OF no_dollar])
  then show ?thesis by (simp add: VerifyPassword_def scan_constants std_enc.decode_encode)
qed

text \<open>
  A password verifies against its own hash and against nothing it should not. When
  \<open>HashPassword\<close> returns (it fails only with the entropy source), \<open>VerifyPassword\<close> on the
  encoded string never reports a malformed hash and answers exactly whether the
  candidate derives the same key from the stored salt; for the password itself it
  answers yes.
\<close>

theorem password_roundtrip:
  assumes "prims_ok P" "HashPassword P pw s = (Inr h, s')"
  shows "VerifyPassword P h pw = Inr True \<and>
    (\<exists>salt. length salt = 16 \<and> (\<forall>pw'. VerifyPassword P h pw' =
      Inr (p_kdf P pw' salt 3 65536 2 32 = p_kdf P pw salt 3 65536 2 32)))"
proof (rule conjI)
  obtain salt s1 where r: "rand_Read 16 s = (Inr salt, s1)"
    and h: "h = pw_prefix @ b64_encode std_alphabet salt @ [36] @ b64_encode std_alphabet (p_kdf P pw salt 3 65536 2 32)"
    using assms(2) unfolding HashPassword_def by (auto elim: chk_InrE)
  let ?k = "p_kdf P pw salt 3 65536 2 32"
  have "length ?k = 32" using assms(1) by (simp add: prims_ok_def)
  then have v: "VerifyPassword P h pw' = Inr (p_kdf P pw' salt 3 65536 2 32 = ?k)" for pw'
    using VerifyPassword_text [of P salt ?k pw'] by (simp add: h)
  then show "VerifyPassword P h pw = Inr True" by simp
  show "\<exists>salt. length salt = 16 \<and> (\<forall>pw'. VerifyPassword P h pw' =
      Inr (p_kdf P pw' salt 3 65536 2 32 = p_kdf P pw salt 3 65536 2 32))"
    using v rand_Read_length [OF r] by blast
qed

lemma password_roundtrip_witness:
  "VerifyPassword clear_prims (case fst (HashPassword clear_prims [1, 2] calm_env) of Inr h \<Rightarrow> h | Inl e \<Rightarrow> []) [1, 2] = Inr True"
proof -
  obtain h s' where "HashPassword clear_prims [1, 2] calm_env = (Inr h, s')"
    by (simp add: HashPassword_def chk_run rand_Read_ok)
  then show ?thesis using password_roundtrip [OF clear_prims_ok, of "[1, 2]" calm_env h s'] by simp
qed

section \<open>One account per tier and key\<close>

definition tier :: "db \<Rightarrow> int \<Rightarrow> bool" where
  "tier d u = (case tbl_get (d_user d) u of None \<Rightarrow> False | Some r \<Rightarrow> SysOpLevel \<le> u_access_level r)"

definition active_key :: "db \<Rightarrow> int \<Rightarrow> key_row \<Rightarrow> bool" where
  "active_key d i k \<longleftrightarrow> tbl_get (d_key d) i = Some k \<and> k_revoked_at k = None"

definition tier_ok :: "db \<Rightarrow> bool" where
  "tier_ok d \<longleftrightarrow> (\<forall>i k j l. active_key d i k \<longrightarrow> active_key d j l \<longrightarrow> k_fingerprint k = k_fingerprint l \<longrightarrow>
     k_user_id k \<noteq> k_user_id l \<longrightarrow> tier d (k_user_id k) \<noteq> tier d (k_user_id l))"

lemma holder_levels_tier:
  assumes "db_inv d" "active_key d i k" "k_fingerprint k = fp" "k_user_id k \<noteq> u"
  shows "\<exists>l \<in> set (holder_levels d fp u). (SysOpLevel \<le> l) = tier d (k_user_id k)"
proof -
  have wf: "wf_tbl (d_user d)" "wf_tbl (d_key d)" "fk (d_user d) (k_user_id k)"
    using db_inv_user [OF assms(1)] db_inv_key [OF assms(1)] assms(2) all_rowsD
    by (auto simp: active_key_def)
  then obtain r where r: "tbl_get (d_user d) (k_user_id k) = Some r" by (auto simp: fk_def)
  have "(i, k) \<in> set (tbl_select (\<lambda>i k. k_fingerprint k = fp \<and> k_revoked_at k = None \<and> k_user_id k \<noteq> u) (d_key d))"
    using assms wf(2) by (simp add: tbl_select_get active_key_def)
  moreover have "sel_id (d_user d) (k_user_id k) = [(k_user_id k, r)]" using wf(1) r by (simp add: sel_id_get)
  ultimately have "u_access_level r \<in> set (holder_levels d fp u)"
    by (force simp: holder_levels_def)
  then show ?thesis using r by (auto simp: tier_def)
qed

lemma ins_key_tier:
  assumes "db_inv d" "tier_ok d" "ins_key k d = Inr (x, d')"
    and "\<not> (\<exists>l \<in> set (holder_levels d (k_fingerprint k) (k_user_id k)). (SysOpLevel \<le> l) = tier d (k_user_id k))"
  shows "tier_ok d'"
proof -
  have d': "d' = d\<lparr>d_key := snd (tbl_insert k (d_key d))\<rparr>" using assms(3) by (auto simp: ins_key_def split: if_splits)
  have act: "active_key d' i l \<longleftrightarrow> (if i = t_seq (d_key d) + 1 then l = k \<and> k_revoked_at k = None else active_key d i l)" for i l
    using db_inv_key [OF assms(1)] by (auto simp: active_key_def d' tbl_insert_get)
  have t: "tier d' u = tier d u" for u by (simp add: tier_def d')
  have new: "tier d (k_user_id l) \<noteq> tier d (k_user_id k)"
    if "active_key d i l" "k_fingerprint l = k_fingerprint k" "k_user_id l \<noteq> k_user_id k" for i l
    using holder_levels_tier [OF assms(1) that] assms(4) by auto
  show ?thesis
    unfolding tier_ok_def t
  proof (intro allI impI)
    fix i a j b
    assume ab: "active_key d' i a" "active_key d' j b" "k_fingerprint a = k_fingerprint b" "k_user_id a \<noteq> k_user_id b"
    let ?n = "t_seq (d_key d) + 1"
    consider "i = ?n" "j = ?n" | "i = ?n" "j \<noteq> ?n" | "i \<noteq> ?n" "j = ?n" | "i \<noteq> ?n" "j \<noteq> ?n" by blast
    then show "tier d (k_user_id a) \<noteq> tier d (k_user_id b)"
    proof cases
      case 1
      then show ?thesis using ab by (simp add: act)
    next
      case 2
      then have "a = k" "active_key d j b" using ab by (simp_all add: act)
      then show ?thesis using new [of j b] ab(3,4) by simp
    next
      case 3
      then have "b = k" "active_key d i a" using ab by (simp_all add: act)
      then show ?thesis using new [of i a] ab(3,4) by simp
    next
      case 4
      then have "active_key d i a" "active_key d j b" using ab by (simp_all add: act)
      then show ?thesis using assms(2) ab(3,4) unfolding tier_ok_def by blast
    qed
  qed
qed

lemma keys_Add_cases:
  obtains "st_db (snd (keys_Add K u line s)) = st_db s"
  | k x d' where "ins_key k (st_db s) = Inr (x, d')" "st_db (snd (keys_Add K u line s)) = d'" "k_user_id k = u"
      "\<exists>r. first_row (sel_id (d_user (st_db s)) u) = Inr r \<and>
        \<not> (\<exists>l \<in> set (holder_levels (st_db s) (k_fingerprint k) u). (SysOpLevel \<le> l) = (SysOpLevel \<le> u_access_level (snd r)))"
proof (cases "ssh_parse K line")
  case None
  then show thesis using that by (simp add: keys_Add_def)
next
  case (Some pc)
  obtain pub comment where pc: "pc = (pub, comment)" by fastforce
  define fp where "fp = ssh_fingerprint K pub"
  define k where "k = \<lparr>k_user_id = u, k_public_key = TrimSpace (ssh_marshal K pub), k_fingerprint = fp,
    k_comment = comment, k_added_at = e_clock s (e_step s), k_revoked_at = None\<rparr>"
  let ?q1 = "query (\<lambda>d. bind_err (first_row (sel_id (d_user d) u)) (\<lambda>(j, r). Inr (u_access_level r)))"
  let ?q2 = "query (\<lambda>d. Inr (holder_levels d fp u))"
  have run: "keys_Add K u line s = chk ?q1 (\<lambda>lvl. chk ?q2 (\<lambda>lvls.
      if \<exists>l \<in> set lvls. (SysOpLevel \<le> l) = (SysOpLevel \<le> lvl) then fail ErrKeyTaken
      else chk (exec (ins_key k)) keys_byID)) s"
    unfolding k_def fp_def using Some pc by (simp add: keys_Add_def Let_def chk_run time_Now_def)
  obtain r1 s1 where q1: "?q1 s = (r1, s1)" by fastforce
  then obtain n1 where s1: "s1 = s\<lparr>e_step := n1\<rparr>" using query_db by blast
  obtain r2 s2 where q2: "?q2 s1 = (r2, s2)" by fastforce
  then obtain n2 where s2: "s2 = s1\<lparr>e_step := n2\<rparr>" using query_db by blast
  obtain r3 s3 where e3: "exec (ins_key k) s2 = (r3, s3)" by fastforce
  show thesis
  proof (cases "\<exists>lvl lvls i. r1 = Inr lvl \<and> r2 = Inr lvls \<and> r3 = Inr i \<and>
      \<not> (\<exists>l \<in> set lvls. (SysOpLevel \<le> l) = (SysOpLevel \<le> lvl))")
    case True
    then obtain lvl lvls i where ok: "r1 = Inr lvl" "r2 = Inr lvls" "r3 = Inr i"
      "\<not> (\<exists>l \<in> set lvls. (SysOpLevel \<le> l) = (SysOpLevel \<le> lvl))" by blast
    obtain d' where d': "ins_key k (st_db s2) = Inr (i, d')" "s3 = s2\<lparr>e_step := e_step s2 + 1, st_db := d'\<rparr>"
      using e3 ok(3) by (auto elim: exec_InrD)
    obtain r4 s4 where q4: "keys_byID i s3 = (r4, s4)" by fastforce
    then have "st_db s4 = d'" using d'(2) query_db [of _ s3] by (fastforce simp: keys_byID_def)
    then have "st_db (snd (keys_Add K u line s)) = d'"
      using run q1 q2 e3 ok q4 by (simp add: chk_run)
    moreover have "lvls = holder_levels (st_db s) fp u" using q2 ok(2) s1 by (auto dest!: query_InrD)
    moreover obtain r where "first_row (sel_id (d_user (st_db s)) u) = Inr r" "lvl = u_access_level (snd r)"
      using q1 ok(1) by (auto dest!: query_InrD simp: bind_err_def split: sum.splits prod.splits)
    ultimately show thesis
      using that(2) [of k i d'] d'(1) ok(4) s1 s2 by (auto simp: k_def)
  next
    case False
    have "st_db s3 = st_db s" if "r3 = Inl e" for e using e3 that s1 s2 by (auto dest!: exec_InlD)
    then have "st_db (snd (keys_Add K u line s)) = st_db s"
      using run q1 q2 e3 s1 s2 False by (cases r1; cases r2; cases r3) (auto simp: chk_run)
    then show thesis by (rule that(1))
  qed
qed

text \<open>
  C32: registering and revoking keys keeps the anti-sockpuppet rule. If no key is active
  on two accounts of one tier, then after any \<open>Add\<close> (successful or not, whatever fails)
  and after any \<open>Revoke\<close> still none is.
\<close>

theorem key_per_tier_kept:
  assumes "db_inv (st_db s)" "tier_ok (st_db s)"
  shows "tier_ok (st_db (snd (keys_Add K u line s))) \<and> tier_ok (st_db (snd (keys_Revoke i s)))"
proof (rule conjI)
  let ?d = "st_db s"
  have wf: "wf_tbl (d_user ?d)" "wf_tbl (d_key ?d)" using db_inv_user [OF assms(1)] db_inv_key [OF assms(1)] by auto
  show "tier_ok (st_db (snd (keys_Add K u line s)))"
  proof (cases rule: keys_Add_cases [of K u line s])
    case (2 k x d')
    obtain r where "first_row (sel_id (d_user ?d) u) = Inr r"
      "\<not> (\<exists>l \<in> set (holder_levels ?d (k_fingerprint k) u). (SysOpLevel \<le> l) = (SysOpLevel \<le> u_access_level (snd r)))"
      using 2(4) by blast
    moreover from this(1) have "tier ?d u = (SysOpLevel \<le> u_access_level (snd r))"
      using wf(1) by (auto simp: first_sel_id tier_def split: option.splits)
    ultimately show ?thesis using ins_key_tier [OF assms 2(1)] 2(2,3) by simp
  qed (use assms in simp)
  show "tier_ok (st_db (snd (keys_Revoke i s)))"
  proof -
    obtain now where "st_db (snd (keys_Revoke i s)) = ?d \<or>
        upd_revoke i now ?d = Inr ((), st_db (snd (keys_Revoke i s)))"
      by (cases "e_fault s (e_step s)")
         (auto simp: keys_Revoke_def chk_run time_Now_def exec_def ext_def upd_revoke_def)
    moreover have "tier_ok d'" if "upd_revoke i now ?d = Inr ((), d')" for d'
    proof -
      have d': "d' = ?d\<lparr>d_key := snd (tbl_update (\<lambda>j k. j = i \<and> k_revoked_at k = None)
          (\<lambda>k. k\<lparr>k_revoked_at := Some now\<rparr>) (d_key ?d))\<rparr>" using that by (simp add: upd_revoke_def)
      then have "active_key d' j l \<Longrightarrow> active_key ?d j l" for j l
        by (auto simp: active_key_def tbl_update_get split: if_splits)
      moreover have "tier d' = tier ?d" by (simp add: tier_def d' fun_eq_iff)
      ultimately show ?thesis using assms(2) unfolding tier_ok_def by metis
    qed
    ultimately show ?thesis using assms(2) by auto
  qed
qed

lemma key_per_tier_kept_witness:
  "tier_ok (st_db (snd (keys_Add \<lparr>ssh_parse = (\<lambda>l. Some (l, [])), ssh_marshal = id, ssh_fingerprint = id\<rparr>
     1 [75] (calm_store demo_db))))"
  by (rule key_per_tier_kept [THEN conjunct1]) (simp_all add: tier_ok_def active_key_def tbl_get_def tbl_empty_def)

definition shared_key_db :: db where
  "shared_key_db = demo_db\<lparr>d_user := \<lparr>t_rows = [(1, demo_user [98] 90), (2, demo_user [99] 10)], t_seq = 2\<rparr>,
     d_key := \<lparr>t_rows = [(1, \<lparr>k_user_id = 1, k_public_key = [75], k_fingerprint = [75], k_comment = [], k_added_at = 0, k_revoked_at = None\<rparr>),
       (2, \<lparr>k_user_id = 2, k_public_key = [75], k_fingerprint = [75], k_comment = [], k_added_at = 0, k_revoked_at = None\<rparr>)], t_seq = 2\<rparr>\<rparr>"

text \<open>
  Changing an access level can break the anti-sockpuppet rule. On a board where an
  operator's account and a member's account share a key, as the rule allows, lowering
  the operator's level with \<open>SetStatus\<close> leaves one key active on two accounts of the same
  tier; no later check removes it.
\<close>

theorem demotion_breaks_key_rule:
  "tier_ok shared_key_db \<and>
   \<not> tier_ok (st_db (snd (users_SetStatus 1 StatusApproved 10 (calm_store shared_key_db))))"
proof
  have get: "tbl_get (d_key shared_key_db) = [1 \<mapsto> \<lparr>k_user_id = 1, k_public_key = [75], k_fingerprint = [75], k_comment = [], k_added_at = 0, k_revoked_at = None\<rparr>,
      2 \<mapsto> \<lparr>k_user_id = 2, k_public_key = [75], k_fingerprint = [75], k_comment = [], k_added_at = 0, k_revoked_at = None\<rparr>]"
    by (simp add: shared_key_db_def tbl_get_def fun_eq_iff)
  show "tier_ok shared_key_db"
    by (auto simp: tier_ok_def active_key_def get tier_def split: if_splits)
       (simp_all add: shared_key_db_def tbl_get_def demo_user_def SysOpLevel_def)
  let ?d = "st_db (snd (users_SetStatus 1 StatusApproved 10 (calm_store shared_key_db)))"
  have d: "d_key ?d = d_key shared_key_db" "\<not> tier ?d 1" "\<not> tier ?d 2"
    by (simp_all add: users_SetStatus_def exec_ok upd_user_def tier_def tbl_update_get)
       (simp_all add: shared_key_db_def tbl_get_def demo_user_def SysOpLevel_def)
  then have "active_key ?d 1 \<lparr>k_user_id = 1, k_public_key = [75], k_fingerprint = [75], k_comment = [], k_added_at = 0, k_revoked_at = None\<rparr>"
    "active_key ?d 2 \<lparr>k_user_id = 2, k_public_key = [75], k_fingerprint = [75], k_comment = [], k_added_at = 0, k_revoked_at = None\<rparr>"
    by (simp_all add: active_key_def get)
  then show "\<not> tier_ok ?d" unfolding tier_ok_def using d(2,3) by fastforce
qed

section \<open>Authorisation by key, and login records\<close>

text \<open>
  A key opens the door only while it is active. With a working disk \<open>Authorizes\<close>
  answers exactly whether the user has an active key with the offered key's
  fingerprint; after \<open>Revoke\<close> of a key, that key no longer counts.
\<close>

theorem authorizes_active_only:
  assumes "sound s" "wf_tbl (d_key (st_db s))"
  shows "fst (keys_Authorizes K u offered s) =
      Inr (\<exists>i k. active_key (st_db s) i k \<and> k_user_id k = u \<and> k_fingerprint k = ssh_fingerprint K offered) \<and>
    \<not> active_key (st_db (snd (keys_Revoke j s))) j k"
proof (rule conjI)
  show "fst (keys_Authorizes K u offered s) =
      Inr (\<exists>i k. active_key (st_db s) i k \<and> k_user_id k = u \<and> k_fingerprint k = ssh_fingerprint K offered)"
  proof -
    let ?l = "tbl_select (\<lambda>i k. k_user_id k = u \<and> k_revoked_at k = None) (d_key (st_db s))"
    have "(\<exists>x \<in> set ?l. k_fingerprint (snd x) = ssh_fingerprint K offered) \<longleftrightarrow>
        (\<exists>i k. (i, k) \<in> set ?l \<and> k_fingerprint k = ssh_fingerprint K offered)" by force
    also have "\<dots> \<longleftrightarrow> (\<exists>i k. active_key (st_db s) i k \<and> k_user_id k = u \<and> k_fingerprint k = ssh_fingerprint K offered)"
      by (simp add: tbl_select_get [OF assms(2)] active_key_def conj_ac)
    finally show ?thesis
      using assms(1) by (simp add: keys_Authorizes_def chk_run keys_Active_def query_ok)
  qed
  show "\<not> active_key (st_db (snd (keys_Revoke j s))) j k"
    using assms(1)
    by (auto simp: keys_Revoke_def chk_run time_Now_def exec_ok upd_revoke_def active_key_def tbl_update_get split: if_splits)
qed

lemma authorizes_active_only_witness:
  "fst (keys_Authorizes \<lparr>ssh_parse = (\<lambda>l. Some (l, [])), ssh_marshal = id, ssh_fingerprint = id\<rparr> 1 [75] (calm_store demo_db))
     = Inr False"
  using authorizes_active_only [of "calm_store demo_db" "\<lparr>ssh_parse = (\<lambda>l. Some (l, [])), ssh_marshal = id, ssh_fingerprint = id\<rparr>" 1 "[75]"]
  by (simp add: active_key_def tbl_get_def tbl_empty_def [THEN arg_cong [of _ _ t_rows]])

text \<open>
  The rapid-IP-change flag. With a working disk, \<open>RecordLogin\<close> of an existing user
  flags the login exactly when the previous one is recorded from another, known address
  less than 15 minutes earlier (and not later); then and only then one anomaly is added,
  and in every case the time and address of this login are stored.
\<close>

theorem record_login_flag:
  assumes "sound s" "db_inv (st_db s)" "tbl_get (d_user (st_db s)) i = Some r"
  shows "case users_RecordLogin i ip now s of (Inl e, s') \<Rightarrow> False | (Inr flagged, s') \<Rightarrow>
    flagged = (u_last_login_ip r \<noteq> [] \<and> ip \<noteq> [] \<and> u_last_login_ip r \<noteq> ip \<and>
      (\<exists>t. u_last_login_at r = Some t \<and> t \<le> now \<and> now < t + RapidLoginWindow)) \<and>
    tbl_get (d_user (st_db s')) i = Some (r\<lparr>u_last_login_at := Some now, u_last_login_ip := ip\<rparr>) \<and>
    length (t_rows (d_anomaly (st_db s'))) = length (t_rows (d_anomaly (st_db s))) + (if flagged then 1 else 0)"
proof -
  have wf: "wf_tbl (d_user (st_db s))" "fk (d_user (st_db s)) i"
    using db_inv_user [OF assms(2)] assms(3) by (simp_all add: fk_def)
  define gap where "gap = (case u_last_login_at r of None \<Rightarrow> -1 | Some t \<Rightarrow> now - t)"
  define rapid where "rapid = (u_last_login_ip r \<noteq> [] \<and> ip \<noteq> [] \<and> u_last_login_ip r \<noteq> ip \<and> 0 \<le> gap \<and> gap < RapidLoginWindow)"
  have flag: "rapid = (u_last_login_ip r \<noteq> [] \<and> ip \<noteq> [] \<and> u_last_login_ip r \<noteq> ip \<and>
      (\<exists>t. u_last_login_at r = Some t \<and> t \<le> now \<and> now < t + RapidLoginWindow))"
    by (auto simp: rapid_def gap_def split: option.splits)
  have run: "users_RecordLogin i ip now s = chk (if rapid
      then exec (ins_anomaly \<lparr>an_user_id = i, an_prev_ip = u_last_login_ip r, an_new_ip = ip, an_gap = gap div 10 ^ 9, an_at = now\<rparr>)
      else ret ()) (\<lambda>_. chk (exec (upd_user i (\<lambda>r. r\<lparr>u_last_login_at := Some now, u_last_login_ip := ip\<rparr>))) (\<lambda>_. ret rapid))
      (s\<lparr>e_step := e_step s + 1\<rparr>)"
    unfolding rapid_def gap_def
    using assms(1,3) wf(1) by (simp add: users_RecordLogin_def chk_run query_ok first_sel_id bind_err_def Let_def)
  show ?thesis
    unfolding run flag [symmetric] using assms wf
    by (cases rapid) (simp_all add: chk_run exec_ok ins_anomaly_def upd_user_def tbl_update_get tbl_insert_def)
qed

lemma record_login_flag_witness:
  "case users_RecordLogin 1 [9] 5 (calm_store demo_db) of (Inl e, s') \<Rightarrow> False | (Inr flagged, s') \<Rightarrow>
    \<not> flagged \<and> tbl_get (d_user (st_db s')) 1 = Some ((demo_user [98] 10)\<lparr>u_last_login_at := Some 5, u_last_login_ip := [9]\<rparr>)"
  using record_login_flag [of "calm_store demo_db" 1 "demo_user [98] 10" "[9]" 5]
  by (auto simp: tbl_get_def demo_user_def split: prod.splits sum.splits)

end
