(* ===== verification/Repos.thy ===== *)
theory Repos
  imports Accounts
begin

text \<open>
  Two contracts that several repositories of \<open>store/\<close> share. \<open>gated\<close>: a listing and a
  lookup by id that both hide what lies above the caller's access level (message areas,
  file areas, doors). \<open>registry\<close>: entries that are closed by a time stamp and never
  removed (SSH keys, bans, abuse reports). The repositories interpret them in their own
  theories.
\<close>

locale gated =
  fixes ok :: "'s \<Rightarrow> bool"
    and row_of :: "'s \<Rightarrow> int \<Rightarrow> 'r option"
    and level :: "'r \<Rightarrow> int"
    and visible :: "int \<Rightarrow> 's \<Rightarrow> (int \<times> 'r) list"
    and by_id :: "int \<Rightarrow> int \<Rightarrow> 's \<Rightarrow> gerr + (int \<times> 'r)"
  assumes visible_iff: "ok s \<Longrightarrow> (i, r) \<in> set (visible lvl s) \<longleftrightarrow> row_of s i = Some r \<and> level r \<le> lvl"
    and by_id_eq: "ok s \<Longrightarrow> by_id i lvl s = (case row_of s i of
       None \<Rightarrow> Inl ErrNotFound | Some r \<Rightarrow> if lvl < level r then Inl ErrNotFound else Inr (i, r))"
begin

lemma listed_iff_reachable: "ok s \<Longrightarrow> (i, r) \<in> set (visible lvl s) \<longleftrightarrow> by_id i lvl s = Inr (i, r)"
  by (auto simp: visible_iff by_id_eq split: option.splits)

lemma hidden_like_missing:
  "ok s \<Longrightarrow> row_of s i = Some r \<Longrightarrow> lvl < level r \<Longrightarrow> row_of t j = None \<Longrightarrow> ok t \<Longrightarrow> by_id i lvl s = by_id j lvl t"
  by (simp add: by_id_eq)

lemma visible_mono: "ok s \<Longrightarrow> lvl \<le> lvl' \<Longrightarrow> set (visible lvl s) \<subseteq> set (visible lvl' s)"
  by (auto simp: visible_iff)

end

locale registry =
  fixes ok :: "'s \<Rightarrow> bool"
    and row_of :: "'s \<Rightarrow> int \<Rightarrow> 'r option"
    and closed :: "'r \<Rightarrow> bool"
    and stamp :: "'c \<Rightarrow> 'r \<Rightarrow> 'r"
    and close :: "int \<Rightarrow> 'c \<Rightarrow> 's \<Rightarrow> 's"
    and open_rows :: "'s \<Rightarrow> (int \<times> 'r) list"
  assumes close_row: "row_of (close i c s) j
      = map_option (\<lambda>r. if j = i \<and> \<not> closed r then stamp c r else r) (row_of s j)"
    and stamp_closed: "closed (stamp c r)"
    and open_iff: "ok s \<Longrightarrow> (i, r) \<in> set (open_rows s) \<longleftrightarrow> row_of s i = Some r \<and> \<not> closed r"
    and close_ok: "ok s \<Longrightarrow> ok (close i c s)"
begin

lemma close_takes_off: "ok s \<Longrightarrow> set (open_rows (close i c s)) = {x \<in> set (open_rows s). fst x \<noteq> i}"
proof -
  assume ok: "ok s"
  have "(j, r) \<in> set (open_rows (close i c s)) \<longleftrightarrow> (j, r) \<in> set (open_rows s) \<and> j \<noteq> i" for j r
    unfolding open_iff [OF ok] open_iff [OF close_ok [OF ok]]
    by (auto simp: close_row split: if_splits) (metis stamp_closed)+
  then show ?thesis by auto
qed

lemma history_kept: "row_of (close i c s) j = None \<longleftrightarrow> row_of s j = None"
  by (simp add: close_row)

lemma close_once: "row_of (close i c' (close i c s)) = row_of (close i c s)"
  by (rule ext) (auto simp: close_row stamp_closed map_option_case split: option.splits)

end

section \<open>Two sealed fields\<close>

text \<open>Board posts and private mail seal a subject and a body before the statement that
  stores them.\<close>

lemma seal2_cases:
  assumes "chk (st_seal a) (\<lambda>x. chk (st_seal b) (m x)) s = (r, s')"
  obtains (err) e where "r = Inl e" "st_db s' = st_db s" "\<not> sound s"
  | (ok) x y k p where "m x y (s\<lparr>e_step := k, e_rpos := p\<rparr>) = (r, s')"
      "prims_ok (st_prims s) \<Longrightarrow> unseal (st_prims s) (st_vault s) x = Inr a"
      "prims_ok (st_prims s) \<Longrightarrow> unseal (st_prims s) (st_vault s) y = Inr b"
proof -
  obtain r1 s1 where a: "st_seal a s = (r1, s1)" by fastforce
  then obtain k1 p1 where s1: "s1 = s\<lparr>e_step := k1, e_rpos := p1\<rparr>" by (rule st_seal_state)
  obtain r2 s2 where b: "st_seal b s1 = (r2, s2)" by fastforce
  then obtain k2 p2 where s2: "s2 = s1\<lparr>e_step := k2, e_rpos := p2\<rparr>" by (rule st_seal_state)
  show thesis
  proof (cases r1)
    case (Inl e)
    then have "\<not> sound s" using a by (metis st_seal_ok Inl_Inr_False prod.inject)
    then show thesis using assms a Inl s1 by (intro err [of e]) auto
  next
    case r1: (Inr x)
    show thesis
    proof (cases r2)
      case (Inl e)
      then have "\<not> sound s1" using b by (metis st_seal_ok Inl_Inr_False prod.inject)
      then show thesis using assms a b r1 Inl s1 s2 by (intro err [of e]) auto
    next
      case (Inr y)
      have s2': "s2 = s\<lparr>e_step := k2, e_rpos := p2\<rparr>" using s1 s2 by simp
      show thesis
      proof (rule ok)
        show "m x y (s\<lparr>e_step := k2, e_rpos := p2\<rparr>) = (r, s')" using assms a b r1 Inr s2' by simp
        show "unseal (st_prims s) (st_vault s) x = Inr a" if "prims_ok (st_prims s)"
          using unseal_seal [OF that a [unfolded r1]] .
        show "unseal (st_prims s) (st_vault s) y = Inr b" if "prims_ok (st_prims s)"
          using unseal_seal [of s1 b y s2] that b Inr s1 by simp
      qed
    qed
  qed
qed

text \<open>Keys: \<open>Revoke\<close> and the active keys of all accounts.\<close>

definition revoke_db :: "int \<Rightarrow> int \<Rightarrow> db \<Rightarrow> db" where
  "revoke_db i now d = d\<lparr>d_key := snd (tbl_update (\<lambda>j k. j = i \<and> k_revoked_at k = None)
     (\<lambda>k. k\<lparr>k_revoked_at := Some now\<rparr>) (d_key d))\<rparr>"

lemma upd_revoke_db: "upd_revoke i now d = Inr ((), revoke_db i now d)"
  by (simp add: upd_revoke_def revoke_db_def)

interpretation key_reg: registry "\<lambda>d. wf_tbl (d_key d)" "\<lambda>d. tbl_get (d_key d)" "\<lambda>k. k_revoked_at k \<noteq> None"
  "\<lambda>now k. k\<lparr>k_revoked_at := Some now\<rparr>" revoke_db "\<lambda>d. tbl_select (\<lambda>i k. k_revoked_at k = None) (d_key d)"
  by unfold_locales (auto simp: revoke_db_def tbl_update_get tbl_select_get map_option_case split: option.splits)

end
