(* ===== verification/GoText.thy ===== *)
theory GoText
  imports GoStd
begin

text \<open>
  The rest of Go's standard library that the screens use: instants in UTC and the layouts
  the sources format them with, runes (\<open>[]rune(s)\<close>, \<open>utf8.RuneCountInString\<close>), and the
  verbs \<open>%-Ns\<close>, \<open>%-Nd\<close>, \<open>%+d\<close> and \<open>%.1f\<close> of \<open>fmt\<close>; and \<open>encoding/base64\<close>.
\<close>

section \<open>Runes\<close>

definition cont :: "byte \<Rightarrow> bool" where
  "cont b \<longleftrightarrow> 0x80 \<le> b \<and> b \<le> 0xBF"

text \<open>The length of the valid encoding a string starts with, 0 if it starts with none.\<close>

fun rune_len :: "bytes \<Rightarrow> nat" where
  "rune_len (a # s) =
     (if a < 0x80 then 1
      else if 0xC2 \<le> a \<and> a \<le> 0xDF then (case s of b # _ \<Rightarrow> if cont b then 2 else 0 | [] \<Rightarrow> 0)
      else if 0xE0 \<le> a \<and> a \<le> 0xEF then (case s of
          b # c # _ \<Rightarrow> if cont b \<and> cont c \<and> (a = 0xE0 \<longrightarrow> 0xA0 \<le> b) \<and> (a = 0xED \<longrightarrow> b \<le> 0x9F) then 3 else 0
        | _ \<Rightarrow> 0)
      else if 0xF0 \<le> a \<and> a \<le> 0xF4 then (case s of
          b # c # d # _ \<Rightarrow> if cont b \<and> cont c \<and> cont d \<and> (a = 0xF0 \<longrightarrow> 0x90 \<le> b) \<and> (a = 0xF4 \<longrightarrow> b \<le> 0x8F)
            then 4 else 0
        | _ \<Rightarrow> 0)
      else 0)"
| "rune_len [] = 0"

text \<open>The runes of a string, each as its encoding; a byte that starts none is U+FFFD.\<close>

function runes :: "bytes \<Rightarrow> bytes list" where
  "runes [] = []"
| "runes (a # s) = (let n = rune_len (a # s) in
     if n = 0 then [0xEF, 0xBF, 0xBD] # runes s else take n (a # s) # runes (drop n (a # s)))"
  by pat_completeness auto
termination
  by (relation "measure length") auto

section \<open>Formatting\<close>

text \<open>\<open>zpad n i\<close>: a number with at least \<open>n\<close> digits, as the layouts of \<open>time\<close> print it.\<close>

definition zpad :: "nat \<Rightarrow> int \<Rightarrow> bytes" where
  "zpad n i = (let d = nat_digits (nat \<bar>i\<bar>) in (if i < 0 then [45] else []) @ replicate (n - length d) 48 @ d)"

text \<open>\<open>%-Ns\<close> pads to a number of runes, \<open>%-Nd\<close> to a number of digits; \<open>%+d\<close> always signs.\<close>

definition pad_right :: "nat \<Rightarrow> bytes \<Rightarrow> bytes" where
  "pad_right n s = s @ replicate (n - length (runes s)) 32"

definition plus_d :: "int \<Rightarrow> bytes" where
  "plus_d i = (if 0 \<le> i then [43] else []) @ itoa i"

text \<open>\<open>%.1f\<close> of \<open>float64(b) / 2^k\<close>: the quotient is exact in binary for the sizes in use, and
  its decimal is rounded to the nearest tenth, a tie to the even one.\<close>

definition tenths :: "int \<Rightarrow> nat \<Rightarrow> int" where
  "tenths b k = (let q = (b * 10) div 2 ^ k; r = (b * 10) mod 2 ^ k in
     if 2 ^ k < 2 * r \<or> (2 ^ k = 2 * r \<and> odd q) then q + 1 else q)"

definition fixed1 :: "int \<Rightarrow> nat \<Rightarrow> bytes" where
  "fixed1 b k = (let t = tenths b k in itoa (t div 10) @ [46] @ itoa (t mod 10))"

section \<open>Instants\<close>

text \<open>The proleptic Gregorian date of a number of days since 1970-01-01.\<close>

definition civil :: "int \<Rightarrow> int \<times> int \<times> int" where
  "civil days = (let z = days + 719468; era = z div 146097; doe = z mod 146097;
     yoe = (doe - doe div 1460 + doe div 36524 - doe div 146096) div 365;
     doy = doe - (365 * yoe + yoe div 4 - yoe div 100); mp = (5 * doy + 2) div 153;
     m = (if mp < 10 then mp + 3 else mp - 9) in
     (yoe + era * 400 + (if m \<le> 2 then 1 else 0), m, doy - (153 * mp + 2) div 5 + 1))"

definition secs :: "int \<Rightarrow> int" where
  "secs t = (t div 10 ^ 9) mod 86400"

definition fmt_date :: "int \<Rightarrow> bytes" where
  "fmt_date t = (case civil (t div (86400 * 10 ^ 9)) of (y, m, d) \<Rightarrow> zpad 4 y @ [45] @ zpad 2 m @ [45] @ zpad 2 d)"

definition fmt_hm :: "int \<Rightarrow> bytes" where
  "fmt_hm t = zpad 2 (secs t div 3600) @ [58] @ zpad 2 (secs t div 60 mod 60)"

text \<open>The layouts \<open>2006-01-02 15:04\<close>, \<open>01-02 15:04\<close> and \<open>time.RFC3339Nano\<close>.\<close>

definition fmt_datetime :: "int \<Rightarrow> bytes" where
  "fmt_datetime t = fmt_date t @ [32] @ fmt_hm t"

definition fmt_short :: "int \<Rightarrow> bytes" where
  "fmt_short t = (case civil (t div (86400 * 10 ^ 9)) of (y, m, d) \<Rightarrow>
     zpad 2 m @ [45] @ zpad 2 d @ [32] @ fmt_hm t)"

definition fmtTime :: "int \<Rightarrow> bytes" where
  "fmtTime t = (let frac = rev (dropWhile (\<lambda>b. b = 48) (rev (zpad 9 (t mod 10 ^ 9)))) in
     fmt_date t @ [84] @ fmt_hm t @ [58] @ zpad 2 (secs t mod 60) @
     (if frac = [] then [] else 46 # frac) @ [90])"

text \<open>Leap days, the turn of a century that has none, and the days before the epoch.\<close>

lemma civil_examples:
  "civil 0 = (1970, 1, 1)" "civil 11016 = (2000, 2, 29)" "civil 20454 = (2026, 1, 1)"
  "civil 47541 = (2100, 3, 1)" "civil (- 1) = (1969, 12, 31)"
  by code_simp+

section \<open>Base64 with padding\<close>

text \<open>\<open>base64.StdEncoding.DecodeString\<close>, with the position its error reports: line breaks are
  skipped, padding is required and nothing may follow it. \<open>j\<close> counts the digits of the
  current group of four.\<close>

definition is_newline :: "byte \<Rightarrow> bool" where
  "is_newline c \<longleftrightarrow> c = 10 \<or> c = 13"

definition pad_end :: "nat \<Rightarrow> bytes \<Rightarrow> nat + nat list" where
  "pad_end n src = (let rest = dropWhile is_newline src in
     if rest \<noteq> [] then Inl (n + (length src - length rest)) else Inr [])"

definition second_pad :: "nat \<Rightarrow> bytes \<Rightarrow> nat + nat list" where
  "second_pad n src = (let rest = dropWhile is_newline src; k = n + (length src - length rest) in
     case rest of [] \<Rightarrow> Inl k | c # cs \<Rightarrow> if c \<noteq> 61 then Inl (k - 1) else pad_end (k + 1) cs)"

fun std_scan :: "nat \<Rightarrow> nat \<Rightarrow> bytes \<Rightarrow> nat + nat list" where
  "std_scan n j [] = (if j = 0 then Inr [] else Inl (n - j))"
| "std_scan n j (c # cs) = (case b64_val std_alphabet c of
     Some v \<Rightarrow> map_sum id ((#) v) (std_scan (n + 1) ((j + 1) mod 4) cs)
   | None \<Rightarrow>
       if is_newline c then std_scan (n + 1) j cs
       else if c \<noteq> 61 \<or> j < 2 then Inl n
       else if j = 2 then second_pad (n + 1) cs
       else pad_end (n + 1) cs)"

definition DecodeString :: "bytes \<Rightarrow> nat + bytes" where
  "DecodeString src = map_sum id (\<lambda>vs. the (unsextets vs)) (std_scan 0 0 src)"

text \<open>The encoder callers paste from: \<open>base64 file\<close>.\<close>

definition EncodeToString :: "bytes \<Rightarrow> bytes" where
  "EncodeToString s = b64_encode std_alphabet s @ replicate ((3 - length s mod 3) mod 3) 61"

lemma std_scan_syms:
  assumes "\<forall>v \<in> set vs. v < 64" "j < 4"
  shows "std_scan n j (map (b64_sym std_alphabet) vs @ t) =
    map_sum id ((@) vs) (std_scan (n + length vs) ((j + length vs) mod 4) t)"
  using assms
proof (induction vs arbitrary: n j)
  case Nil
  then show ?case by (cases "std_scan n j t") simp_all
next
  case (Cons v vs)
  then have "b64_val std_alphabet (b64_sym std_alphabet v) = Some v" by (simp add: std_enc.sym_cases(2))
  moreover have "((j + 1) mod 4 + length vs) mod 4 = (j + Suc (length vs)) mod 4" by presburger
  ultimately show ?case using Cons.IH [of "(j + 1) mod 4" "n + 1"] Cons.prems
    by (cases "std_scan (Suc (n + length vs)) ((j + Suc (length vs)) mod 4) t") simp_all
qed

lemma length_sextets: "length (sextets s) mod 4 = (length s mod 3 + (if length s mod 3 = 0 then 0 else 1))"
  by (induction s rule: sextets.induct) auto

lemma DecodeString_Encode: "DecodeString (EncodeToString s) = Inr s"
proof -
  let ?k = "length s mod 3"
  have pad: "std_scan n (?k + (if ?k = 0 then 0 else 1)) (replicate ((3 - ?k) mod 3) 61) = Inr []" for n
  proof -
    have eq: "b64_val std_alphabet 61 = None" "\<not> is_newline 61"
      by (simp_all add: b64_val_def std_alphabet_def is_newline_def)
    consider "?k = 0" | "?k = 1" | "?k = 2" by linarith
    then show ?thesis
      by cases (simp_all add: eq second_pad_def pad_end_def numeral_2_eq_2)
  qed
  have "std_scan 0 0 (EncodeToString s) = Inr (sextets s)"
    using std_scan_syms [of "sextets s" 0 0 "replicate ((3 - ?k) mod 3) 61"] sextets_bound pad [of "length (sextets s)"]
    by (simp add: EncodeToString_def b64_encode_def length_sextets)
  then show ?thesis by (simp add: DecodeString_def unsextets_sextets)
qed

end
