(* ===== verification/Boards.thy ===== *)
theory Boards
  imports Repos GoText "HOL-Library.List_Lexorder"
begin

text \<open>
  Message boards and what users do to each other on them: \<open>store/messages.go\<close>,
  \<open>store/readptr.go\<close>, \<open>store/blocks.go\<close>, \<open>store/reports.go\<close>. \<open>ulow\<close> is the Unicode part of
  \<open>strings.ToLower\<close>.
\<close>

section \<open>Areas\<close>

definition ins_area :: "area_row \<Rightarrow> db \<Rightarrow> gerr + int \<times> db" where
  "ins_area r d = (if has (\<lambda>x. a_name x = a_name r) (d_area d) then Inl ErrUnique
     else Inr (fst (tbl_insert r (d_area d)), d\<lparr>d_area := snd (tbl_insert r (d_area d))\<rparr>))"

definition areas_Create :: "bytes \<Rightarrow> bytes \<Rightarrow> int \<Rightarrow> ('a store_scheme, int \<times> area_row) prog" where
  "areas_Create name desc lvl = (let r = \<lparr>a_name = name, a_description = desc, a_min = lvl\<rparr> in
     chk (exec (ins_area r)) (\<lambda>i. ret (i, r)))"

definition vis_areas :: "int \<Rightarrow> db \<Rightarrow> (int \<times> area_row) list" where
  "vis_areas lvl d = sort_key (a_name \<circ> snd) (tbl_select (\<lambda>i r. a_min r \<le> lvl) (d_area d))"

definition areas_Visible :: "int \<Rightarrow> ('a store_scheme, (int \<times> area_row) list) prog" where
  "areas_Visible lvl = query (\<lambda>d. Inr (vis_areas lvl d))"

definition areas_Count :: "('a store_scheme, nat) prog" where
  "areas_Count = query (\<lambda>d. Inr (length (t_rows (d_area d))))"

definition area_by_id :: "int \<Rightarrow> int \<Rightarrow> db \<Rightarrow> gerr + (int \<times> area_row)" where
  "area_by_id i lvl d = bind_err (norows_notfound (first_row (sel_id (d_area d) i)))
     (\<lambda>(j, r). if lvl < a_min r then Inl ErrNotFound else Inr (j, r))"

definition areas_ByID :: "int \<Rightarrow> int \<Rightarrow> ('a store_scheme, int \<times> area_row) prog" where
  "areas_ByID i lvl = query (area_by_id i lvl)"

interpretation area_gate: gated "\<lambda>d. wf_tbl (d_area d)" "\<lambda>d. tbl_get (d_area d)" a_min vis_areas area_by_id
  by unfold_locales (auto simp: vis_areas_def area_by_id_def tbl_select_get first_sel_id norows_notfound_def
      bind_err_def split: option.splits)

section \<open>Messages\<close>

record Message =
  Ms_ID :: int
  Ms_AreaID :: int
  Ms_AuthorID :: int
  Ms_ParentID :: "int option"
  Ms_Subject :: bytes
  Ms_Body :: bytes
  Ms_PostedAt :: int

definition ins_message :: "message_row \<Rightarrow> db \<Rightarrow> gerr + int \<times> db" where
  "ins_message r d = (if fk (d_area d) (m_area r) \<and> fk (d_user d) (m_author r) \<and> fk_opt (d_message d) (m_parent r)
     then Inr (fst (tbl_insert r (d_message d)), d\<lparr>d_message := snd (tbl_insert r (d_message d))\<rparr>)
     else Inl ErrForeignKey)"

definition messages_Post :: "int \<Rightarrow> int \<Rightarrow> int option \<Rightarrow> bytes \<Rightarrow> bytes \<Rightarrow> ('a store_scheme, Message) prog" where
  "messages_Post area author parent subject body =
     chk (st_seal subject) (\<lambda>encSubj.
     chk (st_seal body) (\<lambda>encBody.
     chk time_Now (\<lambda>now.
     chk (exec (ins_message \<lparr>m_area = area, m_author = author, m_parent = parent, m_subject = encSubj,
         m_body = encBody, m_posted_at = now\<rparr>)) (\<lambda>i.
     ret \<lparr>Ms_ID = i, Ms_AreaID = area, Ms_AuthorID = author, Ms_ParentID = parent, Ms_Subject = subject,
       Ms_Body = body, Ms_PostedAt = now\<rparr>))))"

definition upd_message :: "int \<Rightarrow> int \<Rightarrow> bytes \<Rightarrow> bytes \<Rightarrow> db \<Rightarrow> gerr + nat \<times> db" where
  "upd_message i author subj body d = (let u = tbl_update (\<lambda>j r. j = i \<and> m_author r = author)
     (\<lambda>r. r\<lparr>m_subject := subj, m_body := body\<rparr>) (d_message d) in Inr (fst u, d\<lparr>d_message := snd u\<rparr>))"

definition messages_Edit :: "int \<Rightarrow> int \<Rightarrow> bytes \<Rightarrow> bytes \<Rightarrow> ('a store_scheme, unit) prog" where
  "messages_Edit i author subject body =
     chk (st_seal subject) (\<lambda>encSubj. chk (st_seal body) (\<lambda>encBody.
     chk (exec (upd_message i author encSubj encBody)) (\<lambda>n. if n = 0 then fail ErrNotOwner else ret ())))"

text \<open>\<open>DELETE FROM message WHERE id = ? OR parent_id = ?\<close>: SQLite checks the references when
  the statement ends, and undoes it if a remaining reply would lose its parent.\<close>

definition del_message :: "int \<Rightarrow> db \<Rightarrow> gerr + unit \<times> db" where
  "del_message i d = (let t = snd (tbl_delete (\<lambda>j r. j = i \<or> m_parent r = Some i) (d_message d)) in
     if has (\<lambda>r. \<not> fk_opt t (m_parent r)) t then Inl ErrForeignKey else Inr ((), d\<lparr>d_message := t\<rparr>))"

definition messages_Delete :: "int \<Rightarrow> ('a store_scheme, unit) prog" where
  "messages_Delete i = exec (del_message i)"

definition messages_scan :: "prims \<Rightarrow> vault \<Rightarrow> int \<times> message_row \<Rightarrow> gerr + Message" where
  "messages_scan P v x = (case x of (i, r) \<Rightarrow>
     (case unseal P v (m_subject r) of Inl e \<Rightarrow> Inl e | Inr subj \<Rightarrow>
     (case unseal P v (m_body r) of Inl e \<Rightarrow> Inl e | Inr body \<Rightarrow>
        Inr \<lparr>Ms_ID = i, Ms_AreaID = m_area r, Ms_AuthorID = m_author r, Ms_ParentID = m_parent r,
          Ms_Subject = subj, Ms_Body = body, Ms_PostedAt = m_posted_at r\<rparr>)))"

text \<open>\<open>list\<close>: run a query and scan its rows.\<close>

definition messages_list :: "(db \<Rightarrow> (int \<times> message_row) list) \<Rightarrow> ('a store_scheme, Message list) prog" where
  "messages_list sel s = query (\<lambda>d. scan_rows (messages_scan (st_prims s) (st_vault s)) (sel d)) s"

definition messages_Thread :: "int \<Rightarrow> ('a store_scheme, Message list) prog" where
  "messages_Thread area = messages_list (\<lambda>d. tbl_select (\<lambda>i r. m_area r = area \<and> m_parent r = None) (d_message d))"

definition messages_ThreadSorted :: "int \<Rightarrow> bool \<Rightarrow> ('a store_scheme, Message list) prog" where
  "messages_ThreadSorted area newestFirst = messages_list (\<lambda>d.
     (if newestFirst then rev else id) (tbl_select (\<lambda>i r. m_area r = area \<and> m_parent r = None) (d_message d)))"

definition messages_ByAuthor :: "int \<Rightarrow> int \<Rightarrow> ('a store_scheme, Message list) prog" where
  "messages_ByAuthor area author = messages_list (\<lambda>d. tbl_select (\<lambda>i r. m_area r = area \<and> m_author r = author) (d_message d))"

definition messages_Search :: "(bytes \<Rightarrow> bytes) \<Rightarrow> int \<Rightarrow> bytes \<Rightarrow> ('a store_scheme, Message list) prog" where
  "messages_Search ulow area q = chk (messages_list (\<lambda>d. tbl_select (\<lambda>i r. m_area r = area) (d_message d))) (\<lambda>all.
     ret (filter (\<lambda>m. contains (ToLower ulow (Ms_Subject m)) (ToLower ulow q) \<or>
       contains (ToLower ulow (Ms_Body m)) (ToLower ulow q)) all))"

definition messages_Replies :: "int \<Rightarrow> ('a store_scheme, Message list) prog" where
  "messages_Replies p = messages_list (\<lambda>d. tbl_select (\<lambda>i r. m_parent r = Some p) (d_message d))"

definition messages_ByID :: "int \<Rightarrow> ('a store_scheme, Message) prog" where
  "messages_ByID i s = query (\<lambda>d. norows_notfound (bind_err (first_row (sel_id (d_message d) i))
     (messages_scan (st_prims s) (st_vault s)))) s"

definition EnsureSeedAreas :: "('a store_scheme, unit) prog" where
  "EnsureSeedAreas = chk areas_Count (\<lambda>n. if 0 < n then ret () else
     chk (areas_Create (str ''General'') (str ''General chatter and introductions'') 0) (\<lambda>_.
     chk (areas_Create (str ''Retro Computing'') (str ''BBSes, ANSI art, old iron'') 0) (\<lambda>_. ret ())))"

section \<open>Read pointers\<close>

definition last_seen :: "db \<Rightarrow> int \<Rightarrow> int \<Rightarrow> int" where
  "last_seen d u a = (case map_of (d_read d) (u, a) of None \<Rightarrow> 0 | Some (l, t) \<Rightarrow> l)"

definition readptr_LastSeen :: "int \<Rightarrow> int \<Rightarrow> ('a store_scheme, int) prog" where
  "readptr_LastSeen u a = query (\<lambda>d. Inr (last_seen d u a))"

definition upsert :: "'k \<Rightarrow> ('v option \<Rightarrow> 'v) \<Rightarrow> ('k \<times> 'v) list \<Rightarrow> ('k \<times> 'v) list" where
  "upsert k f l = (case map_of l k of
     None \<Rightarrow> l @ [(k, f None)]
   | Some v \<Rightarrow> map (\<lambda>(k', v'). (k', if k' = k then f (Some v') else v')) l)"

definition up_read :: "int \<Rightarrow> int \<Rightarrow> int \<Rightarrow> int \<Rightarrow> db \<Rightarrow> gerr + unit \<times> db" where
  "up_read u a m now d = (if fk (d_user d) u \<and> fk (d_area d) a
     then Inr ((), d\<lparr>d_read := upsert (u, a) (\<lambda>old. case old of None \<Rightarrow> (m, now) | Some (l, t) \<Rightarrow> (max l m, now)) (d_read d)\<rparr>)
     else Inl ErrForeignKey)"

definition readptr_Mark :: "int \<Rightarrow> int \<Rightarrow> int \<Rightarrow> ('a store_scheme, unit) prog" where
  "readptr_Mark u a m = chk time_Now (\<lambda>now. exec (up_read u a m now))"

definition readptr_NewCount :: "int \<Rightarrow> int \<Rightarrow> ('a store_scheme, nat) prog" where
  "readptr_NewCount u a = chk (readptr_LastSeen u a) (\<lambda>last.
     query (\<lambda>d. Inr (length (tbl_select (\<lambda>i r. m_area r = a \<and> last < i) (d_message d)))))"

definition readptr_MaxMessageID :: "int \<Rightarrow> ('a store_scheme, int) prog" where
  "readptr_MaxMessageID a = query (\<lambda>d. Inr (foldl max 0 (map fst (tbl_select (\<lambda>i r. m_area r = a) (d_message d)))))"

section \<open>Blocks\<close>

definition ins_block :: "int \<Rightarrow> int \<Rightarrow> int \<Rightarrow> db \<Rightarrow> gerr + unit \<times> db" where
  "ins_block a b now d = (if map_of (d_block d) (a, b) \<noteq> None then Inr ((), d)
     else if fk (d_user d) a \<and> fk (d_user d) b then Inr ((), d\<lparr>d_block := d_block d @ [((a, b), now)]\<rparr>)
     else Inl ErrForeignKey)"

definition blocks_Block :: "int \<Rightarrow> int \<Rightarrow> ('a store_scheme, unit) prog" where
  "blocks_Block a b = (if a = b then ret () else chk time_Now (\<lambda>now. exec (ins_block a b now)))"

definition del_block :: "int \<Rightarrow> int \<Rightarrow> db \<Rightarrow> gerr + unit \<times> db" where
  "del_block a b d = Inr ((), d\<lparr>d_block := filter (\<lambda>x. fst x \<noteq> (a, b)) (d_block d)\<rparr>)"

definition blocks_Unblock :: "int \<Rightarrow> int \<Rightarrow> ('a store_scheme, unit) prog" where
  "blocks_Unblock a b = exec (del_block a b)"

definition blocks_IsBlocked :: "int \<Rightarrow> int \<Rightarrow> ('a store_scheme, bool) prog" where
  "blocks_IsBlocked a b = query (\<lambda>d. Inr (0 < length (filter (\<lambda>x. fst x = (a, b)) (d_block d))))"

definition blocks_BlockedSet :: "int \<Rightarrow> ('a store_scheme, int set) prog" where
  "blocks_BlockedSet a = query (\<lambda>d. Inr (set (map (snd \<circ> fst) (filter (\<lambda>x. fst (fst x) = a) (d_block d)))))"

text \<open>\<open>ORDER BY created_at\<close> compares the texts the times are stored as.\<close>

definition blocks_List :: "int \<Rightarrow> ('a store_scheme, int list) prog" where
  "blocks_List a = query (\<lambda>d. Inr (map (snd \<circ> fst) (sort_key (fmtTime \<circ> snd) (filter (\<lambda>x. fst (fst x) = a) (d_block d)))))"

section \<open>Abuse reports\<close>

definition ins_report :: "report_row \<Rightarrow> db \<Rightarrow> gerr + int \<times> db" where
  "ins_report r d = (if fk (d_user d) (rp_reporter r) \<and> fk (d_user d) (rp_target r) \<and> fk_opt (d_user d) (rp_resolved_by r)
     then Inr (fst (tbl_insert r (d_report d)), d\<lparr>d_report := snd (tbl_insert r (d_report d))\<rparr>) else Inl ErrForeignKey)"

definition reports_byID :: "int \<Rightarrow> ('a store_scheme, int \<times> report_row) prog" where
  "reports_byID i = query (\<lambda>d. first_row (sel_id (d_report d) i))"

definition reports_File :: "int \<Rightarrow> int \<Rightarrow> bytes \<Rightarrow> bytes \<Rightarrow> ('a store_scheme, int \<times> report_row) prog" where
  "reports_File reporter target ctx note = chk time_Now (\<lambda>now.
     chk (exec (ins_report \<lparr>rp_reporter = reporter, rp_target = target, rp_context = TrimSpace ctx,
       rp_note = TrimSpace note, rp_created_at = now, rp_resolved_at = None, rp_resolved_by = None\<rparr>)) reports_byID)"

definition reports_Open :: "('a store_scheme, (int \<times> report_row) list) prog" where
  "reports_Open = query (\<lambda>d. Inr (tbl_select (\<lambda>i r. rp_resolved_at r = None) (d_report d)))"

definition reports_OpenCount :: "('a store_scheme, nat) prog" where
  "reports_OpenCount = query (\<lambda>d. Inr (length (tbl_select (\<lambda>i r. rp_resolved_at r = None) (d_report d))))"

definition resolve_db :: "int \<Rightarrow> int \<times> int \<Rightarrow> db \<Rightarrow> db" where
  "resolve_db i c d = d\<lparr>d_report := snd (tbl_update (\<lambda>j r. j = i \<and> rp_resolved_at r = None)
     (\<lambda>r. r\<lparr>rp_resolved_at := Some (fst c), rp_resolved_by := Some (snd c)\<rparr>) (d_report d))\<rparr>"

definition upd_resolve :: "int \<Rightarrow> int \<Rightarrow> int \<Rightarrow> db \<Rightarrow> gerr + unit \<times> db" where
  "upd_resolve i now by d =
     (if has (\<lambda>x. True) \<lparr>t_rows = tbl_select (\<lambda>j r. j = i \<and> rp_resolved_at r = None) (d_report d), t_seq = 0\<rparr>
         \<and> \<not> fk (d_user d) by
      then Inl ErrForeignKey else Inr ((), resolve_db i (now, by) d))"

definition reports_Resolve :: "int \<Rightarrow> int \<Rightarrow> ('a store_scheme, unit) prog" where
  "reports_Resolve i sysop = chk time_Now (\<lambda>now. exec (upd_resolve i now sysop))"

interpretation report_reg: registry "\<lambda>d. wf_tbl (d_report d)" "\<lambda>d. tbl_get (d_report d)" "\<lambda>r. rp_resolved_at r \<noteq> None"
  "\<lambda>c r. r\<lparr>rp_resolved_at := Some (fst c), rp_resolved_by := Some (snd c)\<rparr>" resolve_db
  "\<lambda>d. tbl_select (\<lambda>i r. rp_resolved_at r = None) (d_report d)"
  by unfold_locales (auto simp: resolve_db_def tbl_update_get tbl_select_get map_option_case split: option.splits)

section \<open>The database invariant\<close>

lemma ins_area_inv: "ins_area r d = Inr (x, d') \<Longrightarrow> inv_rel d d'"
  using db_inv_area [of d]
  by (auto simp: ins_area_def inv_rel_def tbl_inv split: if_splits intro!: db_set)

lemma fk_opt_mono': "fk_opt t r \<Longrightarrow> (\<And>i. fk t i \<Longrightarrow> fk t' i) \<Longrightarrow> fk_opt t' r"
  by (rule fk_opt_mono)

lemma ins_message_inv: "ins_message r d = Inr (x, d') \<Longrightarrow> inv_rel d d'"
proof -
  assume "ins_message r d = Inr (x, d')"
  then have d': "d' = d\<lparr>d_message := snd (tbl_insert r (d_message d))\<rparr>"
    and ok: "fk (d_area d) (m_area r)" "fk (d_user d) (m_author r)" "fk_opt (d_message d) (m_parent r)"
    by (auto simp: ins_message_def split: if_splits)
  show "inv_rel d d'"
    unfolding inv_rel_def d'
  proof
    assume inv: "db_inv d"
    show "db_inv (d\<lparr>d_message := snd (tbl_insert r (d_message d))\<rparr>)"
      using db_inv_message [OF inv] ok
      by (intro db_set_message inv) (auto simp: all_rows_insert fk_opt_insert elim!: all_rows_mono)
  qed
qed

lemma upd_message_inv: "upd_message i a s b d = Inr (x, d') \<Longrightarrow> inv_rel d d'"
  using db_inv_message [of d]
  by (auto simp: upd_message_def Let_def inv_rel_def tbl_inv intro!: db_set all_rows_update)

lemma del_message_inv: "del_message i d = Inr (x, d') \<Longrightarrow> inv_rel d d'"
proof -
  assume "del_message i d = Inr (x, d')"
  then obtain t where t: "t = snd (tbl_delete (\<lambda>j r. j = i \<or> m_parent r = Some i) (d_message d))"
    "d' = d\<lparr>d_message := t\<rparr>" "\<not> has (\<lambda>r. \<not> fk_opt t (m_parent r)) t"
    by (auto simp: del_message_def Let_def split: if_splits)
  show "inv_rel d d'"
    unfolding inv_rel_def t(2)
  proof
    assume inv: "db_inv d"
    have "all_rows (\<lambda>r. fk (d_area d) (m_area r) \<and> fk (d_user d) (m_author r)) t"
      using db_inv_message [OF inv] unfolding t(1) by (intro all_rows_delete) (auto elim: all_rows_mono)
    then have "all_rows (\<lambda>r. fk (d_area d) (m_area r) \<and> fk (d_user d) (m_author r) \<and> fk_opt t (m_parent r)) t"
      using t(3) by (auto simp: all_rows_def has_def)
    then show "db_inv (d\<lparr>d_message := t\<rparr>)"
      using db_inv_message [OF inv] by (intro db_set_message inv) (simp_all add: t(1))
  qed
qed

lemma upsert_keys: "distinct (map fst l) \<Longrightarrow> distinct (map fst (upsert k f l)) \<and> fst ` set (upsert k f l) = insert k (fst ` set l)"
proof (cases "map_of l k")
  case None
  assume "distinct (map fst l)"
  moreover have "k \<notin> fst ` set l" using None by (simp add: map_of_eq_None_iff)
  ultimately show ?thesis using None by (simp add: upsert_def)
next
  case (Some v)
  assume d: "distinct (map fst l)"
  let ?m = "map (\<lambda>(k', v'). (k', if k' = k then f (Some v') else v')) l"
  have keys: "map fst ?m = map fst l" by auto
  have "fst ` set ?m = set (map fst ?m)" by (rule set_map [symmetric])
  then have "fst ` set ?m = fst ` set l" unfolding keys by simp
  moreover have "k \<in> fst ` set l" using Some by (force dest: map_of_SomeD)
  ultimately show ?thesis
    using d keys Some by (simp only: upsert_def option.case) (simp only: insert_absorb simp_thms)
qed

lemma up_read_inv: "up_read u a m now d = Inr (x, d') \<Longrightarrow> inv_rel d d'"
proof -
  assume "up_read u a m now d = Inr (x, d')"
  then obtain f where d': "d' = d\<lparr>d_read := upsert (u, a) f (d_read d)\<rparr>" and ok: "fk (d_user d) u" "fk (d_area d) a"
    by (auto simp: up_read_def split: if_splits)
  have "db_inv d'" if inv: "db_inv d"
  proof -
    have "fst x \<in> insert (u, a) (fst ` set (d_read d))" if "x \<in> set (upsert (u, a) f (d_read d))" for x
      using that upsert_keys [of "d_read d" "(u, a)" f] db_inv_read [OF inv] by auto
    then show ?thesis
      unfolding d' using db_inv_read [OF inv] upsert_keys [of "d_read d" "(u, a)" f] ok
      by (intro db_set_read inv) force+
  qed
  then show "inv_rel d d'" by (simp add: inv_rel_def)
qed

lemma ins_block_inv: "ins_block a b now d = Inr (x, d') \<Longrightarrow> inv_rel d d'"
proof (cases "map_of (d_block d) (a, b)")
  case None
  assume "ins_block a b now d = Inr (x, d')"
  then have "d' = d\<lparr>d_block := d_block d @ [((a, b), now)]\<rparr>" "fk (d_user d) a" "fk (d_user d) b"
    using None by (auto simp: ins_block_def split: if_splits)
  moreover have "(a, b) \<notin> fst ` set (d_block d)" using None by (simp add: map_of_eq_None_iff)
  ultimately show ?thesis
    using db_inv_block [of d] unfolding inv_rel_def by (intro impI) (clarsimp, intro db_set_block; simp)
qed (auto simp: ins_block_def inv_rel_def)

lemma del_block_inv: "del_block a b d = Inr (x, d') \<Longrightarrow> inv_rel d d'"
proof -
  assume "del_block a b d = Inr (x, d')"
  then have d': "d' = d\<lparr>d_block := filter (\<lambda>x. fst x \<noteq> (a, b)) (d_block d)\<rparr>" by (simp add: del_block_def)
  show "inv_rel d d'"
    unfolding inv_rel_def d'
    using db_inv_block [of d] by (intro impI db_set_block) (simp_all add: distinct_map_filter)
qed

lemma ins_report_inv: "ins_report r d = Inr (x, d') \<Longrightarrow> inv_rel d d'"
  using db_inv_report [of d]
  by (auto simp: ins_report_def inv_rel_def tbl_inv split: if_splits intro!: db_set)

lemma upd_resolve_inv: "upd_resolve i now by d = Inr (x, d') \<Longrightarrow> inv_rel d d'"
  using db_inv_report [of d]
  by (auto simp: upd_resolve_def resolve_db_def inv_rel_def has_def tbl_select_def split: if_splits
      intro!: db_set all_rows_update)

section \<open>Properties\<close>

text \<open>
  Posting. With a working disk \<open>Post\<close> fails only with a foreign-key error, exactly
  when the area, the author or the parent message does not exist, and then stores
  nothing; otherwise it adds one row, changes no other, and \<open>ByID\<close> reads the message back,
  decrypted, exactly as \<open>Post\<close> returned it.
\<close>

theorem post_read_back:
  assumes "sound s" "prims_ok (st_prims s)" "db_inv (st_db s)"
  shows "let d = st_db s; ok = fk (d_area d) area \<and> fk (d_user d) author \<and> fk_opt (d_message d) parent in
     case messages_Post area author parent subj body s of
       (Inl e, s') \<Rightarrow> \<not> ok \<and> e = ErrForeignKey \<and> st_db s' = d
     | (Inr m, s') \<Rightarrow> ok \<and> Ms_AreaID m = area \<and> Ms_AuthorID m = author \<and> Ms_ParentID m = parent \<and>
         Ms_Subject m = subj \<and> Ms_Body m = body \<and> fst (messages_ByID (Ms_ID m) s') = Inr m \<and>
         tbl_get (d_message d) (Ms_ID m) = None \<and>
         (\<forall>j. j \<noteq> Ms_ID m \<longrightarrow> tbl_get (d_message (st_db s')) j = tbl_get (d_message d) j)"
proof -
  obtain r s' where run: "messages_Post area author parent subj body s = (r, s')" by fastforce
  from run [unfolded messages_Post_def] show ?thesis
  proof (cases rule: seal2_cases)
    case (ok x y k p)
    have wf: "wf_tbl (d_message (st_db s))" using db_inv_message [OF assms(3)] by simp
    have "messages_scan (st_prims s) (st_vault s) (i, \<lparr>m_area = area, m_author = author, m_parent = parent,
        m_subject = x, m_body = y, m_posted_at = t\<rparr>) = Inr \<lparr>Ms_ID = i, Ms_AreaID = area, Ms_AuthorID = author,
        Ms_ParentID = parent, Ms_Subject = subj, Ms_Body = body, Ms_PostedAt = t\<rparr>" for i t
      using ok(2,3) assms(2) by (simp add: messages_scan_def)
    then show ?thesis
      using ok(1) assms(1) run wf tbl_get_fresh [OF wf]
      by (auto simp: time_Now_def exec_ok chk_run ins_message_def messages_ByID_def query_ok first_sel_id
          tbl_insert_get bind_err_def norows_notfound_def Let_def split: if_splits)
  qed (use assms(1) in simp)
qed

text \<open>
  Only the author edits. \<open>Edit\<close> by \<open>author\<close> succeeds only on a message of that author, and
  then changes its subject and body to the given text and nothing else in the table; in
  every other case - whatever fails - it returns an error and the database is as before;
  with a working disk it succeeds exactly on the author's own messages and says
  \<open>ErrNotOwner\<close> otherwise.
\<close>

theorem edit_owner_only:
  assumes "prims_ok (st_prims s)" "db_inv (st_db s)" "messages_Edit i author subj body s = (r, s')"
  shows "case r of
      Inl e \<Rightarrow> st_db s' = st_db s \<and> (sound s \<longrightarrow> e = ErrNotOwner \<and>
        (\<forall>row. tbl_get (d_message (st_db s)) i = Some row \<longrightarrow> m_author row \<noteq> author))
    | Inr u \<Rightarrow> \<exists>row row'. tbl_get (d_message (st_db s)) i = Some row \<and> m_author row = author \<and>
        tbl_get (d_message (st_db s')) = (tbl_get (d_message (st_db s)))(i \<mapsto> row') \<and>
        messages_scan (st_prims s) (st_vault s) (i, row') = Inr \<lparr>Ms_ID = i, Ms_AreaID = m_area row,
          Ms_AuthorID = author, Ms_ParentID = m_parent row, Ms_Subject = subj, Ms_Body = body,
          Ms_PostedAt = m_posted_at row\<rparr>"
  using assms(3) [unfolded messages_Edit_def]
proof (cases rule: seal2_cases)
  case (ok x y k p)
  let ?d = "st_db s" and ?f = "\<lambda>r. r\<lparr>m_subject := x, m_body := y\<rparr>"
  have wf: "wf_tbl (d_message ?d)" using db_inv_message [OF assms(2)] by simp
  note cnt = tbl_update_by_id [OF wf, of i "\<lambda>r. m_author r = author" ?f]
  have same: "snd (tbl_update (\<lambda>j r. j = i \<and> m_author r = author) ?f (d_message ?d)) = d_message ?d"
    if "fst (tbl_update (\<lambda>j r. j = i \<and> m_author r = author) ?f (d_message ?d)) = 0"
    using that by (rule tbl_update_none)
  have upd: "tbl_get (snd (tbl_update (\<lambda>j r. j = i \<and> m_author r = author) ?f (d_message ?d)))
      = (tbl_get (d_message ?d))(i \<mapsto> ?f row)" if "tbl_get (d_message ?d) i = Some row" "m_author row = author" for row
    using that by (auto simp: tbl_update_get map_option_case split: option.splits)
  have sc: "messages_scan (st_prims s) (st_vault s) (i, ?f row) = Inr \<lparr>Ms_ID = i, Ms_AreaID = m_area row,
      Ms_AuthorID = m_author row, Ms_ParentID = m_parent row, Ms_Subject = subj, Ms_Body = body,
      Ms_PostedAt = m_posted_at row\<rparr>" for row
    using ok(2,3) assms(1) by (simp add: messages_scan_def)
  have ex: "\<exists>row'. tbl_get (snd (tbl_update (\<lambda>j r. j = i \<and> m_author r = author) ?f (d_message ?d)))
        = (tbl_get (d_message ?d))(i \<mapsto> row') \<and>
      messages_scan (st_prims s) (st_vault s) (i, row') = Inr \<lparr>Ms_ID = i, Ms_AreaID = m_area row,
        Ms_AuthorID = author, Ms_ParentID = m_parent row, Ms_Subject = subj, Ms_Body = body,
        Ms_PostedAt = m_posted_at row\<rparr>" if "tbl_get (d_message ?d) i = Some row" "m_author row = author" for row
    using upd [OF that] sc [of row] that(2) by blast
  show ?thesis
  proof (cases "e_fault s k")
    case True
    then show ?thesis using ok(1) by (auto simp: exec_def ext_def chk_run sound_def)
  next
    case False
    then have run: "(if fst (tbl_update (\<lambda>j r. j = i \<and> m_author r = author) ?f (d_message ?d)) = 0
        then (Inl ErrNotOwner) else Inr ()) = r"
      "st_db s' = ?d\<lparr>d_message := snd (tbl_update (\<lambda>j r. j = i \<and> m_author r = author) ?f (d_message ?d))\<rparr>"
      using ok(1) by (auto simp: exec_def ext_def chk_run upd_message_def Let_def split: if_splits)
    show ?thesis
      using run cnt same ex by (auto split: option.splits if_splits)
  qed
qed simp

text \<open>
  Deleting a message takes its direct replies along, and only works one level deep.
  With a working disk \<open>Delete\<close> removes exactly the message and its direct replies, provided
  no other message answers one of those; if one does, the whole statement fails with a
  foreign-key error and nothing is deleted.
\<close>

theorem delete_thread:
  assumes "sound s" "db_inv (st_db s)"
  shows "let d = st_db s; gone = {j. j = i \<and> fk (d_message d) i \<or> (\<exists>r. tbl_get (d_message d) j = Some r \<and> m_parent r = Some i)};
       stuck = (\<exists>j r p. tbl_get (d_message d) j = Some r \<and> j \<notin> gone \<and> m_parent r = Some p \<and> p \<in> gone) in
     case messages_Delete i s of
       (Inl e, s') \<Rightarrow> stuck \<and> e = ErrForeignKey \<and> st_db s' = d
     | (Inr u, s') \<Rightarrow> \<not> stuck \<and> (\<forall>j. tbl_get (d_message (st_db s')) j = (if j \<in> gone then None else tbl_get (d_message d) j))"
proof -
  let ?t = "d_message (st_db s)"
  let ?t' = "snd (tbl_delete (\<lambda>j r. j = i \<or> m_parent r = Some i) ?t)"
  define gone where "gone = {j. j = i \<and> fk ?t i \<or> (\<exists>r. tbl_get ?t j = Some r \<and> m_parent r = Some i)}"
  have wf: "wf_tbl ?t" and par: "all_rows (\<lambda>r. fk_opt ?t (m_parent r)) ?t"
    using db_inv_message [OF assms(2)] by (auto elim: all_rows_mono)
  have get: "tbl_get ?t' j = (if j \<in> gone then None else tbl_get ?t j)" for j
    unfolding tbl_delete_get [OF wf] gone_def fk_def by (auto split: option.splits)
  have fk': "fk ?t' p \<longleftrightarrow> fk ?t p \<and> p \<notin> gone" for p by (simp add: fk_def get)
  have "has (\<lambda>r. \<not> fk_opt ?t' (m_parent r)) ?t' \<longleftrightarrow>
      (\<exists>j r p. tbl_get ?t' j = Some r \<and> m_parent r = Some p \<and> \<not> fk ?t' p)"
    unfolding has_def tbl_get_iff [OF wf_tbl_delete [OF wf]] fk_opt_def by (force split: option.splits)
  also have "\<dots> \<longleftrightarrow> (\<exists>j r p. tbl_get ?t j = Some r \<and> j \<notin> gone \<and> m_parent r = Some p \<and> p \<in> gone)"
    unfolding get fk' using all_rowsD [OF par] by (auto split: if_splits) (metis fk_opt_simps(2))+
  finally have stuck: "has (\<lambda>r. \<not> fk_opt ?t' (m_parent r)) ?t' \<longleftrightarrow>
      (\<exists>j r p. tbl_get ?t j = Some r \<and> j \<notin> gone \<and> m_parent r = Some p \<and> p \<in> gone)" .
  show ?thesis
    unfolding Let_def gone_def [symmetric] stuck [symmetric]
    using assms(1) get by (simp add: messages_Delete_def exec_ok del_message_def Let_def split: sum.splits)
qed

lemma map_of_upsert: "map_of (upsert k f l) k' = (if k' = k then Some (f (map_of l k)) else map_of l k')"
proof (cases "map_of l k")
  case None
  then show ?thesis by (auto simp: upsert_def map_add_def split: option.splits)
next
  case (Some v)
  have "map_of (map (\<lambda>(k', v'). (k', if k' = k then f (Some v') else v')) l) k'
      = map_option (\<lambda>v'. if k' = k then f (Some v') else v') (map_of l k')"
    by (induction l) auto
  then show ?thesis using Some by (simp add: upsert_def) (simp add: option.map_ident)
qed

lemma up_read_last_seen:
  assumes "up_read u a m now d = Inr (x, d')" "0 \<le> m"
  shows "(if (u', a') = (u, a) then last_seen d u a \<le> last_seen d' u a \<and> m \<le> last_seen d' u a
     else last_seen d' u' a' = last_seen d u' a') \<and> d_message d' = d_message d"
proof -
  have d': "d' = d\<lparr>d_read := upsert (u, a) (\<lambda>old. case old of None \<Rightarrow> (m, now) | Some (l, t) \<Rightarrow> (max l m, now)) (d_read d)\<rparr>"
    using assms(1) by (auto simp: up_read_def split: if_splits)
  show ?thesis
    using assms(2) by (auto simp: d' last_seen_def map_of_upsert split: option.splits)
qed

lemma foldl_max_ge: "x \<in> insert (b :: int) (set l) \<Longrightarrow> x \<le> foldl max b l"
proof (induction l arbitrary: b x)
  case (Cons a l)
  show ?case
  proof (cases "x \<in> set l")
    case True
    then show ?thesis using Cons.IH [of x "max b a"] by simp
  next
    case False
    then have "x \<le> max b a" using Cons.prems by auto
    also have "max b a \<le> foldl max (max b a) l" by (rule Cons.IH) simp
    finally show ?thesis by simp
  qed
qed simp

text \<open>
  Catching up on a board. With a working disk and an existing user and area, marking
  the newest message as seen (as the board menu does) brings the user's count of new
  messages in that area to zero; no read pointer of anyone ever moves back, and the
  pointers and counts of other users and areas do not change.
\<close>

theorem mark_reads_all:
  assumes "sound s" "fk (d_user (st_db s)) u" "fk (d_area (st_db s)) a"
  shows "\<exists>m s1 s2. readptr_MaxMessageID a s = (Inr m, s1) \<and> readptr_Mark u a m s1 = (Inr (), s2) \<and>
     fst (readptr_NewCount u a s2) = Inr 0 \<and>
     (\<forall>u' a'. last_seen (st_db s) u' a' \<le> last_seen (st_db s2) u' a') \<and>
     (\<forall>u' a'. (u', a') \<noteq> (u, a) \<longrightarrow> fst (readptr_NewCount u' a' s2) = fst (readptr_NewCount u' a' s))"
proof -
  let ?d = "st_db s"
  define m where "m = foldl max 0 (map fst (tbl_select (\<lambda>i r. m_area r = a) (d_message ?d)))"
  define now where "now = e_clock s (e_step s + 1)"
  define f where "f = (\<lambda>old. case old of None \<Rightarrow> (m, now) | Some (l, t :: int) \<Rightarrow> (max l m, now))"
  define d' where "d' = ?d\<lparr>d_read := upsert (u, a) f (d_read ?d)\<rparr>"
  have m0: "0 \<le> m" unfolding m_def by (rule foldl_max_ge) simp
  have mi: "i \<le> m" if "(i, r) \<in> set (t_rows (d_message ?d))" "m_area r = a" for i r
  proof -
    have "(i, r) \<in> set (tbl_select (\<lambda>i r. m_area r = a) (d_message ?d))" using that by (simp add: tbl_select_iff)
    then have "fst (i, r) \<in> set (map fst (tbl_select (\<lambda>i r. m_area r = a) (d_message ?d)))" by (metis image_eqI set_map)
    then show ?thesis unfolding m_def by (intro foldl_max_ge) simp
  qed
  have up: "up_read u a m now ?d = Inr ((), d')"
    using assms(2,3) by (simp add: up_read_def d'_def f_def)
  note seen = up_read_last_seen [OF up m0]
  let ?s1 = "s\<lparr>e_step := e_step s + 1\<rparr>" and ?s2 = "s\<lparr>e_step := e_step s + 2, st_db := d'\<rparr>"
  have max: "readptr_MaxMessageID a s = (Inr m, ?s1)"
    using assms(1) by (simp add: readptr_MaxMessageID_def query_ok m_def)
  have mark: "readptr_Mark u a m ?s1 = (Inr (), ?s2)"
    using assms(1) up by (simp add: readptr_Mark_def time_Now_def chk_run exec_ok now_def)
  have cnt: "fst (readptr_NewCount u' a' t) = Inr (length (tbl_select (\<lambda>i r. m_area r = a' \<and>
      last_seen (st_db t) u' a' < i) (d_message (st_db t))))" if "sound t" for u' a' and t :: "'a store_scheme"
    using that by (simp add: readptr_NewCount_def readptr_LastSeen_def query_ok chk_run)
  have s2: "sound ?s2" "st_db ?s2 = d'" "d_message d' = d_message ?d" using assms(1) by (simp_all add: d'_def)
  have "m \<le> last_seen d' u a" using seen [of u a] by simp
  then have "tbl_select (\<lambda>i r. m_area r = a \<and> last_seen d' u a < i) (d_message ?d) = []"
    using mi by (fastforce simp: tbl_select_def filter_empty_conv)
  then have "fst (readptr_NewCount u a ?s2) = Inr 0" using cnt [OF s2(1), of u a] s2 by simp
  moreover have "last_seen ?d u' a' \<le> last_seen d' u' a'" for u' a'
    using seen [of u' a'] by (auto split: if_splits)
  moreover have "fst (readptr_NewCount u' a' ?s2) = fst (readptr_NewCount u' a' s)" if "(u', a') \<noteq> (u, a)" for u' a'
    using cnt [OF s2(1), of u' a'] cnt [OF assms(1), of u' a'] s2 seen [of u' a'] that by (auto split: if_splits)
  ultimately show ?thesis using max mark s2(2) by (intro exI [of _ m] exI [of _ ?s1] exI [of _ ?s2]) auto
qed

text \<open>A small board: one area, a message of user 1, a reply of user 2, a reply to the reply.\<close>

definition demo_message :: "int \<Rightarrow> int option \<Rightarrow> message_row" where
  "demo_message author parent = \<lparr>m_area = 1, m_author = author, m_parent = parent, m_subject = [], m_body = [], m_posted_at = 0\<rparr>"

definition demo_board :: db where
  "demo_board = demo_db\<lparr>d_area := \<lparr>t_rows = [(1, \<lparr>a_name = str ''General'', a_description = [], a_min = 0\<rparr>)], t_seq = 1\<rparr>,
     d_message := \<lparr>t_rows = [(1, demo_message 1 None), (2, demo_message 2 (Some 1)), (3, demo_message 1 (Some 2))], t_seq = 3\<rparr>\<rparr>"

lemma demo_board_tables [simp]:
  "d_user demo_board = d_user demo_db"
  "d_area demo_board = \<lparr>t_rows = [(1, \<lparr>a_name = str ''General'', a_description = [], a_min = 0\<rparr>)], t_seq = 1\<rparr>"
  "d_message demo_board
     = \<lparr>t_rows = [(1, demo_message 1 None), (2, demo_message 2 (Some 1)), (3, demo_message 1 (Some 2))], t_seq = 3\<rparr>"
  by (simp_all add: demo_board_def)

lemma demo_board_inv [simp]: "db_inv demo_board"
  unfolding demo_board_def
  by (intro db_set_message db_set_area demo_db_inv)
     (simp_all add: wf_tbl_def uniq_def all_rows_def fk_def tbl_get_def demo_message_def demo_db_def empty_db_def tbl_empty_def)

lemma post_read_back_witness:
  "case messages_Post 1 2 (Some 1) [104] [105] (calm_store demo_board) of
     (Inr m, s') \<Rightarrow> Ms_Body m = [105] \<and> fst (messages_ByID (Ms_ID m) s') = Inr m | _ \<Rightarrow> False"
proof -
  have "fk (d_area demo_board) 1" "fk (d_user demo_board) 2" "fk (d_message demo_board) 1"
    by (simp_all add: fk_def tbl_get_def)
  then show ?thesis
    using post_read_back [of "calm_store demo_board" 1 2 "Some 1" "[104]" "[105]"] clear_prims_ok
    by (auto simp: Let_def split: prod.splits sum.splits)
qed

lemma edit_owner_only_witness:
  "fst (messages_Edit 2 1 [104] [105] (calm_store demo_board)) = Inl ErrNotOwner \<and>
   st_db (snd (messages_Edit 2 1 [104] [105] (calm_store demo_board))) = demo_board"
proof -
  let ?x = "messages_Edit 2 1 [104] [105] (calm_store demo_board)"
  have get: "tbl_get (d_message demo_board) 2 = Some (demo_message 2 (Some 1))" by (simp add: tbl_get_def)
  have "?x = (fst ?x, snd ?x)" by simp
  then show ?thesis
    using edit_owner_only [of "calm_store demo_board" 2 1 "[104]" "[105]" "fst ?x" "snd ?x"] clear_prims_ok get
    by (auto simp: demo_message_def split: sum.splits)
qed

lemma delete_thread_witness:
  "fst (messages_Delete 1 (calm_store demo_board)) = Inl ErrForeignKey \<and> fst (messages_Delete 2 (calm_store demo_board)) = Inr ()"
proof -
  have get: "tbl_get (d_message demo_board) j = (if j = 1 then Some (demo_message 1 None) else if j = 2
      then Some (demo_message 2 (Some 1)) else if j = 3 then Some (demo_message 1 (Some 2)) else None)" for j
    by (simp add: tbl_get_def)
  have par: "m_parent (demo_message a p) = p" for a p by (simp add: demo_message_def)
  show ?thesis
    using delete_thread [of "calm_store demo_board" 1] delete_thread [of "calm_store demo_board" 2]
    unfolding Let_def calm_store_simps(2) get fk_def
    by (force simp: par split: prod.splits sum.splits if_splits)
qed

lemma mark_reads_all_witness:
  "\<exists>m s1 s2. readptr_MaxMessageID 1 (calm_store demo_board) = (Inr m, s1) \<and> readptr_Mark 2 1 m s1 = (Inr (), s2) \<and>
     fst (readptr_NewCount 2 1 s2) = Inr 0"
proof -
  have "fk (d_area demo_board) 1" "fk (d_user demo_board) 2" by (simp_all add: fk_def tbl_get_def)
  then show ?thesis using mark_reads_all [of "calm_store demo_board" 2 1] by auto
qed

end
