(* ===== verification/MailFiles.thy ===== *)
theory MailFiles
  imports Boards
begin

text \<open>
  Private mail and the file library: \<open>store/mail.go\<close> and \<open>store/files.go\<close>. An uploaded file
  is a row and a sealed blob \<open><filesDir>/<id>.bin\<close>; \<open>st_filesDir\<close> is the clean path that
  \<open>Open\<close> computes. \<open>like pattern text\<close> is SQLite's LIKE.
\<close>

section \<open>Private mail\<close>

record PrivateMessage =
  Pm_ID :: int
  Pm_FromID :: int
  Pm_ToID :: int
  Pm_Subject :: bytes
  Pm_Body :: bytes
  Pm_SentAt :: int
  Pm_ReadAt :: "int option"

definition ins_pm :: "pm_row \<Rightarrow> db \<Rightarrow> gerr + int \<times> db" where
  "ins_pm r d = (if fk (d_user d) (pm_from r) \<and> fk (d_user d) (pm_to r)
     then Inr (fst (tbl_insert r (d_pm d)), d\<lparr>d_pm := snd (tbl_insert r (d_pm d))\<rparr>) else Inl ErrForeignKey)"

definition mail_Send :: "int \<Rightarrow> int \<Rightarrow> bytes \<Rightarrow> bytes \<Rightarrow> ('a store_scheme, PrivateMessage) prog" where
  "mail_Send from to subject body =
     chk (st_seal subject) (\<lambda>encSubj.
     chk (st_seal body) (\<lambda>encBody.
     chk time_Now (\<lambda>now.
     chk (exec (ins_pm \<lparr>pm_from = from, pm_to = to, pm_subject = encSubj, pm_body = encBody, pm_sent_at = now,
         pm_read_at = None\<rparr>)) (\<lambda>i.
     ret \<lparr>Pm_ID = i, Pm_FromID = from, Pm_ToID = to, Pm_Subject = subject, Pm_Body = body, Pm_SentAt = now,
       Pm_ReadAt = None\<rparr>))))"

definition mail_scan :: "prims \<Rightarrow> vault \<Rightarrow> int \<times> pm_row \<Rightarrow> gerr + PrivateMessage" where
  "mail_scan P v x = (case x of (i, r) \<Rightarrow>
     (case unseal P v (pm_subject r) of Inl e \<Rightarrow> Inl e | Inr subj \<Rightarrow>
     (case unseal P v (pm_body r) of Inl e \<Rightarrow> Inl e | Inr body \<Rightarrow>
        Inr \<lparr>Pm_ID = i, Pm_FromID = pm_from r, Pm_ToID = pm_to r, Pm_Subject = subj, Pm_Body = body,
          Pm_SentAt = pm_sent_at r, Pm_ReadAt = pm_read_at r\<rparr>)))"

definition mail_Inbox :: "int \<Rightarrow> ('a store_scheme, PrivateMessage list) prog" where
  "mail_Inbox u s = query (\<lambda>d. scan_rows (mail_scan (st_prims s) (st_vault s))
     (rev (tbl_select (\<lambda>i r. pm_to r = u) (d_pm d)))) s"

definition mail_UnreadCount :: "int \<Rightarrow> ('a store_scheme, nat) prog" where
  "mail_UnreadCount u = query (\<lambda>d. Inr (length (tbl_select (\<lambda>i r. pm_to r = u \<and> pm_read_at r = None) (d_pm d))))"

definition upd_read :: "int \<Rightarrow> int \<Rightarrow> db \<Rightarrow> gerr + unit \<times> db" where
  "upd_read i now d = Inr ((), d\<lparr>d_pm := snd (tbl_update (\<lambda>j r. j = i) (\<lambda>r. r\<lparr>pm_read_at := Some now\<rparr>) (d_pm d))\<rparr>)"

definition mail_Get :: "int \<Rightarrow> int \<Rightarrow> ('a store_scheme, PrivateMessage) prog" where
  "mail_Get i u s = chk (query (\<lambda>d. norows_notfound (bind_err (first_row (sel_id (d_pm d) i))
       (mail_scan (st_prims s) (st_vault s))))) (\<lambda>m.
     if Pm_ToID m \<noteq> u \<and> Pm_FromID m \<noteq> u then fail ErrNotFound
     else if Pm_ToID m = u \<and> Pm_ReadAt m = None
     then chk time_Now (\<lambda>now. att (exec (upd_read i now)) (\<lambda>r. case r of
            Inl e \<Rightarrow> ret m | Inr _ \<Rightarrow> ret (m\<lparr>Pm_ReadAt := Some now\<rparr>)))
     else ret m) s"

definition del_pm :: "int \<Rightarrow> int \<Rightarrow> db \<Rightarrow> gerr + nat \<times> db" where
  "del_pm i u d = (let x = tbl_delete (\<lambda>j r. j = i \<and> pm_to r = u) (d_pm d) in Inr (fst x, d\<lparr>d_pm := snd x\<rparr>))"

definition mail_Delete :: "int \<Rightarrow> int \<Rightarrow> ('a store_scheme, unit) prog" where
  "mail_Delete i u = chk (exec (del_pm i u)) (\<lambda>n. if n = 0 then fail ErrNotFound else ret ())"

section \<open>File areas\<close>

definition ins_file_area :: "area_row \<Rightarrow> db \<Rightarrow> gerr + int \<times> db" where
  "ins_file_area r d = (if has (\<lambda>x. a_name x = a_name r) (d_file_area d) then Inl ErrUnique
     else Inr (fst (tbl_insert r (d_file_area d)), d\<lparr>d_file_area := snd (tbl_insert r (d_file_area d))\<rparr>))"

definition fareas_Create :: "bytes \<Rightarrow> int \<Rightarrow> ('a store_scheme, int \<times> area_row) prog" where
  "fareas_Create name lvl = (let r = \<lparr>a_name = name, a_description = [], a_min = lvl\<rparr> in
     chk (exec (ins_file_area r)) (\<lambda>i. ret (i, r)))"

definition fareas_Count :: "('a store_scheme, nat) prog" where
  "fareas_Count = query (\<lambda>d. Inr (length (t_rows (d_file_area d))))"

definition vis_fareas :: "int \<Rightarrow> db \<Rightarrow> (int \<times> area_row) list" where
  "vis_fareas lvl d = sort_key (a_name \<circ> snd) (tbl_select (\<lambda>i r. a_min r \<le> lvl) (d_file_area d))"

definition fareas_Visible :: "int \<Rightarrow> ('a store_scheme, (int \<times> area_row) list) prog" where
  "fareas_Visible lvl = query (\<lambda>d. Inr (vis_fareas lvl d))"

definition farea_by_id :: "int \<Rightarrow> int \<Rightarrow> db \<Rightarrow> gerr + (int \<times> area_row)" where
  "farea_by_id i lvl d = (case first_row (sel_id (d_file_area d) i) of
     Inl e \<Rightarrow> if e = ErrNoRows then Inl ErrNotFound else Inl e
   | Inr (j, r) \<Rightarrow> if lvl < a_min r then Inl ErrNotFound else Inr (j, r))"

definition fareas_ByID :: "int \<Rightarrow> int \<Rightarrow> ('a store_scheme, int \<times> area_row) prog" where
  "fareas_ByID i lvl = query (farea_by_id i lvl)"

definition EnsureSeedFileAreas :: "('a store_scheme, unit) prog" where
  "EnsureSeedFileAreas = chk fareas_Count (\<lambda>n. if 0 < n then ret () else
     chk (fareas_Create (str ''General Files'') 0) (\<lambda>_. ret ()))"

interpretation farea_gate: gated "\<lambda>d. wf_tbl (d_file_area d)" "\<lambda>d. tbl_get (d_file_area d)" a_min vis_fareas farea_by_id
  by unfold_locales (auto simp: vis_fareas_def farea_by_id_def tbl_select_get first_sel_id
      split: option.splits)

section \<open>Files\<close>

record FileEntry =
  Fe_ID :: int
  Fe_AreaID :: int
  Fe_Filename :: bytes
  Fe_SizeBytes :: int
  Fe_Description :: bytes
  Fe_UploaderID :: int
  Fe_DownloadCount :: int
  Fe_UploadedAt :: int

definition blobName :: "int \<Rightarrow> bytes" where
  "blobName i = itoa i @ str ''.bin''"

definition blobPath :: "bytes \<Rightarrow> int \<Rightarrow> bytes" where
  "blobPath filesDir i = filesDir @ str ''/'' @ blobName i"

definition files_UserBytes :: "int \<Rightarrow> ('a store_scheme, int) prog" where
  "files_UserBytes u = query (\<lambda>d. Inr (user_bytes (d_file d) u))"

definition ins_file :: "file_row \<Rightarrow> db \<Rightarrow> gerr + int \<times> db" where
  "ins_file r d = (if fk (d_file_area d) (f_area r) \<and> fk (d_user d) (f_uploader r)
     then Inr (fst (tbl_insert r (d_file d)), d\<lparr>d_file := snd (tbl_insert r (d_file d))\<rparr>) else Inl ErrForeignKey)"

definition upd_file :: "int \<Rightarrow> (file_row \<Rightarrow> file_row) \<Rightarrow> db \<Rightarrow> gerr + unit \<times> db" where
  "upd_file i f d = Inr ((), d\<lparr>d_file := snd (tbl_update (\<lambda>j r. j = i) f (d_file d))\<rparr>)"

text \<open>The second half of \<open>Add\<close>: seal the content, write the blob, record its name.\<close>

definition files_blob :: "int \<Rightarrow> bytes \<Rightarrow> ('a store_scheme, unit) prog" where
  "files_blob i content s =
     chk (Seal (st_prims s) (st_vault s) content) (\<lambda>sealed.
     chk (os_WriteFile (blobPath (st_filesDir s) i) sealed) (\<lambda>_.
     exec (upd_file i (\<lambda>r. r\<lparr>f_path := blobName i\<rparr>)))) s"

definition same_name :: "int \<Rightarrow> bytes \<Rightarrow> file_row \<Rightarrow> bool" where
  "same_name area name r \<longleftrightarrow> f_area r = area \<and> nocase (f_filename r) = nocase name"

definition files_Add :: "int \<Rightarrow> int \<Rightarrow> bytes \<Rightarrow> bytes \<Rightarrow> bytes \<Rightarrow> ('a store_scheme, FileEntry) prog" where
  "files_Add area uploader name desc content =
     (if MaxFileBytes < int (length content) then fail ErrTooLarge else
      chk (query (\<lambda>d. Inr (length (tbl_select (\<lambda>i r. same_name area name r) (d_file d))))) (\<lambda>dup.
      if 0 < dup then fail ErrDuplicateName else
      chk (files_UserBytes uploader) (\<lambda>used.
      if MaxUserBytes < used + int (length content) then fail ErrQuotaExceeded else
      chk time_Now (\<lambda>now.
      chk (exec (ins_file \<lparr>f_area = area, f_filename = name, f_path = [], f_size = int (length content),
          f_description = desc, f_uploader = uploader, f_downloads = 0, f_uploaded_at = now\<rparr>)) (\<lambda>i.
      chk (files_blob i content) (\<lambda>_.
      ret \<lparr>Fe_ID = i, Fe_AreaID = area, Fe_Filename = name, Fe_SizeBytes = int (length content),
        Fe_Description = desc, Fe_UploaderID = uploader, Fe_DownloadCount = 0, Fe_UploadedAt = now\<rparr>))))))"

definition files_scan :: "int \<times> file_row \<Rightarrow> FileEntry" where
  "files_scan x = (case x of (i, r) \<Rightarrow> \<lparr>Fe_ID = i, Fe_AreaID = f_area r, Fe_Filename = f_filename r,
     Fe_SizeBytes = f_size r, Fe_Description = f_description r, Fe_UploaderID = f_uploader r,
     Fe_DownloadCount = f_downloads r, Fe_UploadedAt = f_uploaded_at r\<rparr>)"

definition listFiles :: "(db \<Rightarrow> (int \<times> file_row) list) \<Rightarrow> ('a store_scheme, FileEntry list) prog" where
  "listFiles sel = query (\<lambda>d. Inr (map files_scan (sel d)))"

definition files_ListByArea :: "int \<Rightarrow> ('a store_scheme, FileEntry list) prog" where
  "files_ListByArea area = listFiles (\<lambda>d. rev (tbl_select (\<lambda>i r. f_area r = area) (d_file d)))"

text \<open>\<open>ListSorted\<close>; rows that tie come in the order of their ids, which is how SQLite scans them.\<close>

definition file_order :: "bytes \<Rightarrow> (int \<times> file_row) list \<Rightarrow> (int \<times> file_row) list" where
  "file_order by_what l = (if by_what = str ''name'' then sort_key (\<lambda>(i, r). nocase (f_filename r)) l
     else if by_what = str ''size'' then sort_key (\<lambda>(i, r). - f_size r) l
     else if by_what = str ''downloads'' then sort_key (\<lambda>(i, r). - f_downloads r) l
     else if by_what = str ''oldest'' then l else rev l)"

definition files_ListSorted :: "int \<Rightarrow> bytes \<Rightarrow> ('a store_scheme, FileEntry list) prog" where
  "files_ListSorted area by_what = listFiles (\<lambda>d. file_order by_what (tbl_select (\<lambda>i r. f_area r = area) (d_file d)))"

definition files_Search :: "(bytes \<Rightarrow> bytes \<Rightarrow> bool) \<Rightarrow> int \<Rightarrow> bytes \<Rightarrow> ('a store_scheme, FileEntry list) prog" where
  "files_Search like area q = (let pat = str ''%'' @ q @ str ''%'' in
     listFiles (\<lambda>d. rev (tbl_select (\<lambda>i r. f_area r = area \<and> (like pat (f_filename r) \<or> like pat (f_description r))) (d_file d))))"

definition files_ByUploader :: "int \<Rightarrow> int \<Rightarrow> ('a store_scheme, FileEntry list) prog" where
  "files_ByUploader area u = listFiles (\<lambda>d. rev (tbl_select (\<lambda>i r. f_area r = area \<and> f_uploader r = u) (d_file d)))"

definition del_file :: "int \<Rightarrow> db \<Rightarrow> gerr + unit \<times> db" where
  "del_file i d = Inr ((), d\<lparr>d_file := snd (tbl_delete (\<lambda>j r. j = i) (d_file d))\<rparr>)"

definition files_Delete :: "int \<Rightarrow> ('a store_scheme, unit) prog" where
  "files_Delete i s = chk (exec (del_file i)) (\<lambda>_. os_Remove (blobPath (st_filesDir s) i)) s"

definition files_ByID :: "int \<Rightarrow> ('a store_scheme, FileEntry) prog" where
  "files_ByID i = query (\<lambda>d. norows_notfound (bind_err (first_row (sel_id (d_file d) i)) (Inr \<circ> files_scan)))"

definition files_Content :: "int \<Rightarrow> ('a store_scheme, bytes) prog" where
  "files_Content i s =
     chk (os_ReadFile (blobPath (st_filesDir s) i)) (\<lambda>sealed.
     chk (lift_err (Open (st_prims s) (st_vault s) sealed)) (\<lambda>plain.
     att (exec (upd_file i (\<lambda>r. r\<lparr>f_downloads := f_downloads r + 1\<rparr>))) (\<lambda>_. ret plain))) s"

section \<open>The database invariant\<close>

lemma ins_pm_inv: "ins_pm r d = Inr (x, d') \<Longrightarrow> inv_rel d d'"
  using db_inv_pm [of d] by (auto simp: ins_pm_def inv_rel_def tbl_inv split: if_splits intro!: db_set)

lemma upd_read_inv: "upd_read i now d = Inr (x, d') \<Longrightarrow> inv_rel d d'"
  using db_inv_pm [of d] by (auto simp: upd_read_def inv_rel_def intro!: db_set all_rows_update)

lemma del_pm_inv: "del_pm i u d = Inr (x, d') \<Longrightarrow> inv_rel d d'"
  using db_inv_pm [of d] by (auto simp: del_pm_def Let_def inv_rel_def intro!: db_set all_rows_delete)

lemma ins_file_area_inv: "ins_file_area r d = Inr (x, d') \<Longrightarrow> inv_rel d d'"
  using db_inv_file_area [of d]
  by (auto simp: ins_file_area_def inv_rel_def tbl_inv split: if_splits intro!: db_set)

lemma user_bytes_insert:
  "user_bytes (snd (tbl_insert r t)) u = user_bytes t u + (if f_uploader r = u then f_size r else 0)"
  by (simp add: user_bytes_def tbl_insert_def)

lemma user_bytes_update:
  assumes "\<And>r. f_uploader (f r) = f_uploader r \<and> f_size (f r) = f_size r"
  shows "user_bytes (snd (tbl_update p f t)) u = user_bytes t u"
proof -
  have "map (\<lambda>(i, r). if f_uploader r = u then f_size r else 0) (map (\<lambda>(i, r). (i, if p i r then f r else r)) l)
      = map (\<lambda>(i, r). if f_uploader r = u then f_size r else 0) l" for l
    using assms by (induction l) auto
  moreover have "t_rows (snd (tbl_update p f t)) = map (\<lambda>(i, r). (i, if p i r then f r else r)) (t_rows t)"
    by (simp add: tbl_update_def)
  ultimately show ?thesis by (simp only: user_bytes_def)
qed

lemma user_bytes_delete:
  assumes "all_rows (\<lambda>r. 0 \<le> f_size r) t"
  shows "user_bytes (snd (tbl_delete p t)) u \<le> user_bytes t u"
proof -
  have "sum_list (map (\<lambda>(i, r). if f_uploader r = u then f_size r else 0) (filter (\<lambda>(i, r). \<not> p i r) l))
      \<le> sum_list (map (\<lambda>(i, r). if f_uploader r = u then f_size r else 0) l)"
    if "\<forall>r \<in> snd ` set l. 0 \<le> f_size r" for l
    using that
  proof (induction l)
    case (Cons x l)
    obtain a b where x: "x = (a, b)" by fastforce
    then have "0 \<le> (if f_uploader b = u then f_size b else 0)" using Cons.prems by simp
    then show ?case using Cons x by (cases "p a b") auto
  qed simp
  then show ?thesis using assms by (simp add: user_bytes_def tbl_delete_def all_rows_def)
qed

lemma ins_file_inv:
  assumes "ins_file r d = Inr (x, d')" "\<not> has (same_name (f_area r) (f_filename r)) (d_file d)"
    "0 \<le> f_size r" "f_size r \<le> MaxFileBytes" "user_bytes (d_file d) (f_uploader r) + f_size r \<le> MaxUserBytes"
  shows "inv_rel d d'"
proof -
  have d': "d' = d\<lparr>d_file := snd (tbl_insert r (d_file d))\<rparr>" "fk (d_file_area d) (f_area r)" "fk (d_user d) (f_uploader r)"
    using assms(1) by (auto simp: ins_file_def split: if_splits)
  show ?thesis
    unfolding inv_rel_def d'(1)
  proof
    assume inv: "db_inv d"
    show "db_inv (d\<lparr>d_file := snd (tbl_insert r (d_file d))\<rparr>)"
      using db_inv_file [OF inv] d'(2,3) assms(2-5)
      by (intro db_set_file inv) (auto simp: tbl_inv user_bytes_insert same_name_def has_def)
  qed
qed

lemma upd_file_inv:
  assumes "upd_file i f d = Inr (x, d')"
    and f: "\<And>r. f_uploader (f r) = f_uploader r \<and> f_size (f r) = f_size r \<and> f_area (f r) = f_area r \<and>
      f_filename (f r) = f_filename r"
  shows "inv_rel d d'"
proof -
  have d': "d' = d\<lparr>d_file := snd (tbl_update (\<lambda>j r. j = i) f (d_file d))\<rparr>" using assms(1) by (simp add: upd_file_def)
  have "db_inv d'" if inv: "db_inv d"
    unfolding d' using db_inv_file [OF inv] f
    by (intro db_set_file inv) (auto simp: user_bytes_update uniq_update intro!: all_rows_update)
  then show ?thesis by (simp add: inv_rel_def)
qed

lemma del_file_inv: "del_file i d = Inr (x, d') \<Longrightarrow> inv_rel d d'"
proof -
  assume "del_file i d = Inr (x, d')"
  then have d': "d' = d\<lparr>d_file := snd (tbl_delete (\<lambda>j r. j = i) (d_file d))\<rparr>" by (simp add: del_file_def)
  have "db_inv d'" if inv: "db_inv d"
  proof -
    have "all_rows (\<lambda>r. 0 \<le> f_size r) (d_file d)" using db_inv_file [OF inv] by (auto elim: all_rows_mono)
    then have "user_bytes (snd (tbl_delete (\<lambda>j r. j = i) (d_file d))) u \<le> MaxUserBytes" for u
      using user_bytes_delete [of "d_file d" "\<lambda>j r. j = i" u] db_inv_file [OF inv] by (meson order_trans)
    then show ?thesis
      unfolding d' using db_inv_file [OF inv]
      by (intro db_set_file inv) (auto simp: uniq_delete intro!: all_rows_delete)
  qed
  then show "inv_rel d d'" by (simp add: inv_rel_def)
qed

section \<open>Properties of private mail\<close>

lemma tbl_delete_none:
  assumes "\<And>i r. (i, r) \<in> set (t_rows t) \<Longrightarrow> \<not> p i r"
  shows "tbl_delete p t = (0, t)"
proof -
  have "filter (\<lambda>(i, r). p i r) (t_rows t) = []" "filter (\<lambda>(i, r). \<not> p i r) (t_rows t) = t_rows t"
    using assms by (auto simp: filter_empty_conv intro!: filter_True)
  then show ?thesis by (simp add: tbl_delete_def tbl_select_def)
qed

text \<open>
  Delivery. With a working disk and existing accounts, what \<open>Send\<close> stores raises the
  recipient's unread count by one; the recipient's \<open>Get\<close> returns exactly the text that was
  sent, marked as read, and brings the unread count back to what it was.
\<close>

theorem mail_delivery:
  assumes "sound s" "prims_ok (st_prims s)" "db_inv (st_db s)" "fk (d_user (st_db s)) from" "fk (d_user (st_db s)) to"
  shows "\<exists>m s1 now s2 n. mail_Send from to subj body s = (Inr m, s1) \<and>
     Pm_FromID m = from \<and> Pm_ToID m = to \<and> Pm_Subject m = subj \<and> Pm_Body m = body \<and>
     fst (mail_UnreadCount to s) = Inr n \<and> fst (mail_UnreadCount to s1) = Inr (n + 1) \<and>
     mail_Get (Pm_ID m) to s1 = (Inr (m\<lparr>Pm_ReadAt := Some now\<rparr>), s2) \<and> fst (mail_UnreadCount to s2) = Inr n"
proof -
  obtain r s1 where run: "mail_Send from to subj body s = (r, s1)" by fastforce
  from run [unfolded mail_Send_def] show ?thesis
  proof (cases rule: seal2_cases)
    case (ok x y k p)
    let ?d = "st_db s"
    define i where "i = t_seq (d_pm ?d) + 1"
    define row where "row = \<lparr>pm_from = from, pm_to = to, pm_subject = x, pm_body = y, pm_sent_at = e_clock s k, pm_read_at = None\<rparr>"
    define m where "m = \<lparr>Pm_ID = i, Pm_FromID = from, Pm_ToID = to, Pm_Subject = subj, Pm_Body = body,
      Pm_SentAt = e_clock s k, Pm_ReadAt = None\<rparr>"
    have wf: "wf_tbl (d_pm ?d)" using db_inv_pm [OF assms(3)] by simp
    have sc: "mail_scan (st_prims s) (st_vault s) (i, row) = Inr m"
      using ok(2,3) assms(2) by (simp add: mail_scan_def row_def m_def)
    let ?s1 = "s\<lparr>e_step := k + 1, e_rpos := p, st_db := ?d\<lparr>d_pm := snd (tbl_insert row (d_pm ?d))\<rparr>\<rparr>"
    have r: "r = Inr m" "s1 = ?s1"
      using ok(1) assms by (auto simp: time_Now_def chk_run exec_ok ins_pm_def i_def row_def m_def)
    let ?row' = "row\<lparr>pm_read_at := Some (e_clock s (k + 2))\<rparr>"
    let ?s2 = "s\<lparr>e_step := k + 3, e_rpos := p, st_db := ?d\<lparr>d_pm := snd (tbl_insert ?row' (d_pm ?d))\<rparr>\<rparr>"
    have get: "mail_Get i to ?s1 = (Inr (m\<lparr>Pm_ReadAt := Some (e_clock s (k + 2))\<rparr>), ?s2)"
      using assms(1) wf sc tbl_update_inserted [OF wf]
      by (simp add: mail_Get_def query_ok chk_run first_sel_id tbl_insert_get i_def bind_err_def norows_notfound_def
          time_Now_def att_run exec_ok upd_read_def) (simp add: m_def)
    have cnt: "fst (mail_UnreadCount to t) = Inr (length (tbl_select (\<lambda>i r. pm_to r = to \<and> pm_read_at r = None) (d_pm (st_db t))))"
      if "sound t" for t :: "'a store_scheme"
      using that by (simp add: mail_UnreadCount_def query_ok)
    have "fst (mail_UnreadCount to ?s1) = Inr (length (tbl_select (\<lambda>i r. pm_to r = to \<and> pm_read_at r = None) (d_pm ?d)) + 1)"
      "fst (mail_UnreadCount to ?s2) = Inr (length (tbl_select (\<lambda>i r. pm_to r = to \<and> pm_read_at r = None) (d_pm ?d)))"
      using assms(1) by (simp_all add: cnt tbl_select_insert row_def)
    then show ?thesis
      using run r get cnt [OF assms(1)] unfolding r
      by (intro exI [of _ m] exI [of _ ?s1] exI [of _ "e_clock s (k + 2)"] exI [of _ ?s2]) (simp add: m_def)
  qed (use assms(1) in simp)
qed

text \<open>
  C33: mail is private, whatever fails. \<open>Get\<close> returns a message only to its sender or its
  recipient; it changes nothing unless the caller is the recipient, and then at most the
  time it was read; \<open>Delete\<close> by anyone but the recipient fails and deletes nothing.
\<close>

theorem mail_private:
  assumes "db_inv (st_db s)" "tbl_get (d_pm (st_db s)) i = Some row"
  shows "(case mail_Get i u s of (r, s') \<Rightarrow>
      (pm_to row \<noteq> u \<and> pm_from row \<noteq> u \<longrightarrow> (\<exists>e. r = Inl e)) \<and>
      (pm_to row \<noteq> u \<longrightarrow> st_db s' = st_db s) \<and>
      (\<exists>t. tbl_get (d_pm (st_db s')) = (tbl_get (d_pm (st_db s)))(i \<mapsto> row\<lparr>pm_read_at := t\<rparr>))) \<and>
    (case mail_Delete i u s of (r, s') \<Rightarrow> pm_to row \<noteq> u \<longrightarrow> (\<exists>e. r = Inl e) \<and> st_db s' = st_db s)"
proof (rule conjI, goal_cases)
  case 1
  let ?t = "d_pm (st_db s)"
  have wf: "wf_tbl ?t" using db_inv_pm [OF assms(1)] by simp
  have same: "\<exists>t. tbl_get ?t = (tbl_get ?t)(i \<mapsto> row\<lparr>pm_read_at := t\<rparr>)"
    using assms(2) by (intro exI [of _ "pm_read_at row"]) auto
  have upd: "tbl_get (snd (tbl_update (\<lambda>j r. j = i) (\<lambda>r. r\<lparr>pm_read_at := Some now\<rparr>) ?t))
      = (tbl_get ?t)(i \<mapsto> row\<lparr>pm_read_at := Some now\<rparr>)" for now
    using assms(2) by (auto simp: tbl_update_get map_option_case split: option.splits)
  have sc: "mail_scan P v (i, row) = Inr m \<Longrightarrow> Pm_ToID m = pm_to row \<and> Pm_FromID m = pm_from row" for P v m
    by (auto simp: mail_scan_def split: sum.splits)
  show ?case
  proof (cases "e_fault s (e_step s)")
    case True
    then show ?thesis using same by (simp add: mail_Get_def query_def chk_run ext_def)
  next
    case ok: False
    show ?thesis
    proof (cases "mail_scan (st_prims s) (st_vault s) (i, row)")
      case (Inl e)
      then show ?thesis
        using ok same wf assms(2)
        by (simp add: mail_Get_def query_def chk_run ext_def first_sel_id bind_err_def norows_notfound_def split: if_splits)
    next
      case (Inr m)
      then show ?thesis
        using ok same upd sc [OF Inr] wf assms(2)
        by (auto simp: mail_Get_def query_def chk_run ext_def first_sel_id bind_err_def norows_notfound_def
            time_Now_def att_run exec_def upd_read_def)
    qed
  qed
next
  case 2
  have wf: "wf_tbl (d_pm (st_db s))" using db_inv_pm [OF assms(1)] by simp
  have "\<not> (j = i \<and> pm_to r = u)" if "(j, r) \<in> set (t_rows (d_pm (st_db s)))" "pm_to row \<noteq> u" for j r
    using that assms(2) tbl_get_iff [OF wf, of j r] by auto
  then have none: "pm_to row \<noteq> u \<Longrightarrow> tbl_delete (\<lambda>j r. j = i \<and> pm_to r = u) (d_pm (st_db s)) = (0, d_pm (st_db s))"
    by (intro tbl_delete_none) auto
  show ?case
  proof (cases "pm_to row = u")
    case False
    then show ?thesis using none by (simp add: mail_Delete_def exec_def chk_run ext_def del_pm_def Let_def)
  qed (simp split: prod.splits)
qed

text \<open>A mailbox with one message from user 1 to user 2.\<close>

definition demo_mail :: db where
  "demo_mail = demo_db\<lparr>d_pm := \<lparr>t_rows = [(1, \<lparr>pm_from = 1, pm_to = 2, pm_subject = [], pm_body = [], pm_sent_at = 0,
     pm_read_at = None\<rparr>)], t_seq = 1\<rparr>\<rparr>"

lemma demo_mail_inv [simp]: "db_inv demo_mail"
  unfolding demo_mail_def
  by (intro db_set_pm demo_db_inv) (simp_all add: wf_tbl_def all_rows_def fk_def tbl_get_def)

lemma mail_delivery_witness:
  "\<exists>m s1 s2 now. mail_Send 1 2 [104] [105] (calm_store demo_db) = (Inr m, s1) \<and>
     mail_Get (Pm_ID m) 2 s1 = (Inr (m\<lparr>Pm_ReadAt := Some now\<rparr>), s2) \<and> Pm_Body m = [105]"
proof -
  have "fk (d_user demo_db) 1" "fk (d_user demo_db) 2" by (simp_all add: fk_def tbl_get_def)
  then show ?thesis
    using mail_delivery [of "calm_store demo_db" 1 2 "[104]" "[105]"] clear_prims_ok by auto
qed

lemma mail_private_witness:
  "st_db (snd (mail_Delete 1 1 (calm_store demo_mail))) = demo_mail \<and>
   (\<exists>e. fst (mail_Get 1 3 (calm_store demo_mail)) = Inl e)"
proof -
  have "tbl_get (d_pm demo_mail) 1 = Some \<lparr>pm_from = 1, pm_to = 2, pm_subject = [], pm_body = [], pm_sent_at = 0, pm_read_at = None\<rparr>"
    by (simp add: demo_mail_def tbl_get_def)
  then show ?thesis
    using mail_private [of "calm_store demo_mail" 1 _ 1] mail_private [of "calm_store demo_mail" 1 _ 3]
    by (auto split: prod.splits)
qed

section \<open>Properties of the file library\<close>

lemma files_blob_ok:
  assumes "sound s" "prims_ok (st_prims s)" "wf_tbl t" "d_file (st_db s) = snd (tbl_insert r t)" "i = t_seq t + 1"
  obtains sealed k p where "Open (st_prims s) (st_vault s) sealed = Inr content"
    "files_blob i content s = (Inr (), s\<lparr>e_step := k, e_rpos := p, e_fs := (e_fs s)(blobPath (st_filesDir s) i \<mapsto> sealed),
       st_db := (st_db s)\<lparr>d_file := snd (tbl_insert (r\<lparr>f_path := blobName i\<rparr>) t)\<rparr>\<rparr>)"
proof -
  obtain ct n where seal: "Seal (st_prims s) (st_vault s) content s = (Inr ct, s\<lparr>e_step := e_step s + 1, e_rpos := n\<rparr>)"
    using Seal_ok [OF assms(1)] by blast
  have "files_blob i content s = (Inr (), s\<lparr>e_step := e_step s + 3, e_rpos := n, e_fs := (e_fs s)(blobPath (st_filesDir s) i \<mapsto> ct),
       st_db := (st_db s)\<lparr>d_file := snd (tbl_insert (r\<lparr>f_path := blobName i\<rparr>) t)\<rparr>\<rparr>)"
    using seal assms(1,4,5) tbl_update_inserted [OF assms(3), of "\<lambda>q. q\<lparr>f_path := blobName i\<rparr>" r]
    by (simp add: files_blob_def os_WriteFile_ok exec_ok upd_file_def)
  then show thesis using that Open_Seal [OF assms(2) seal] by blast
qed

lemma dup_none: "tbl_select (\<lambda>i. p) t = [] \<longleftrightarrow> \<not> has p t"
  by (force simp: tbl_select_def has_def filter_empty_conv)

text \<open>
  C13: uploading. With a working disk \<open>Add\<close> refuses, in this order, a file over 10 MiB, a
  name the area already has in any capitalisation, an upload over the uploader's quota
  and a missing area or account, and then changes neither database nor disk; otherwise
  the entry can be looked up as returned, and \<open>Content\<close> decrypts exactly the bytes uploaded.
\<close>

theorem upload_contract:
  assumes "sound s" "prims_ok (st_prims s)" "db_inv (st_db s)"
  shows "let d = st_db s; size = int (length content);
      too_large = (MaxFileBytes < size); dup = has (same_name area name) (d_file d);
      over = (MaxUserBytes < user_bytes (d_file d) uploader + size);
      refs = (fk (d_file_area d) area \<and> fk (d_user d) uploader) in
    case files_Add area uploader name desc content s of
      (Inl e, s') \<Rightarrow> (too_large \<or> dup \<or> over \<or> \<not> refs) \<and> st_db s' = d \<and> e_fs s' = e_fs s \<and>
        e = (if too_large then ErrTooLarge else if dup then ErrDuplicateName else if over then ErrQuotaExceeded
             else ErrForeignKey)
    | (Inr f, s') \<Rightarrow> \<not> (too_large \<or> dup \<or> over \<or> \<not> refs) \<and>
        Fe_AreaID f = area \<and> Fe_Filename f = name \<and> Fe_SizeBytes f = size \<and> Fe_UploaderID f = uploader \<and>
        fst (files_ByID (Fe_ID f) s') = Inr f \<and> fst (files_Content (Fe_ID f) s') = Inr content"
proof (cases "MaxFileBytes < int (length content) \<or> has (same_name area name) (d_file (st_db s)) \<or>
    MaxUserBytes < user_bytes (d_file (st_db s)) uploader + int (length content) \<or>
    \<not> (fk (d_file_area (st_db s)) area \<and> fk (d_user (st_db s)) uploader)")
  case True
  then show ?thesis
    unfolding files_Add_def files_UserBytes_def Let_def
    using assms(1) by (auto simp: query_ok chk_run time_Now_def exec_ok ins_file_def dup_none)
next
  case ok: False
  define row where "row = \<lparr>f_area = area, f_filename = name, f_path = [], f_size = int (length content),
    f_description = desc, f_uploader = uploader, f_downloads = 0, f_uploaded_at = e_clock s (Suc (Suc (e_step s)))\<rparr>"
  let ?t = "d_file (st_db s)" and ?i = "t_seq (d_file (st_db s)) + 1"
  have wf: "wf_tbl ?t" using db_inv_file [OF assms(3)] by simp
  let ?s1 = "s\<lparr>e_step := Suc (Suc (Suc (e_step s))), st_db := (st_db s)\<lparr>d_file := snd (tbl_insert row ?t)\<rparr>\<rparr>"
  have s1: "sound ?s1" "prims_ok (st_prims ?s1)" "d_file (st_db ?s1) = snd (tbl_insert row ?t)"
    using assms by simp_all
  obtain sealed k p where blob: "Open (st_prims ?s1) (st_vault ?s1) sealed = Inr content"
    "files_blob ?i content ?s1 = (Inr (), ?s1\<lparr>e_step := k, e_rpos := p,
       e_fs := (e_fs ?s1)(blobPath (st_filesDir ?s1) ?i \<mapsto> sealed),
       st_db := (st_db ?s1)\<lparr>d_file := snd (tbl_insert (row\<lparr>f_path := blobName ?i\<rparr>) ?t)\<rparr>\<rparr>)"
    using files_blob_ok [OF s1(1,2) wf s1(3) refl] by blast
  have run: "files_Add area uploader name desc content s = chk (files_blob ?i content) (\<lambda>_. ret (files_scan (?i, row))) ?s1"
    using ok assms(1)
    by (simp add: files_Add_def files_UserBytes_def query_ok chk_run time_Now_def exec_ok ins_file_def dup_none
        row_def files_scan_def not_less)
  show ?thesis
    unfolding run using ok blob assms(1) wf
    by (simp add: Let_def files_ByID_def query_ok first_sel_id tbl_insert_get bind_err_def norows_notfound_def
        files_scan_def row_def files_Content_def os_ReadFile_ok chk_run att_run exec_ok upd_file_def)
qed

lemma files_blob_fs: "q \<noteq> blobPath (st_filesDir s) i \<Longrightarrow> e_fs (snd (files_blob i content s)) q = e_fs s q"
proof -
  assume q: "q \<noteq> blobPath (st_filesDir s) i"
  obtain r1 s1 where seal: "Seal (st_prims s) (st_vault s) content s = (r1, s1)" by fastforce
  then obtain k p where s1: "s1 = s\<lparr>e_step := k, e_rpos := p\<rparr>" using Seal_state by blast
  have ex: "e_fs (snd (exec f t)) = e_fs t" for f and t :: "'a store_scheme"
    by (simp add: exec_def chk_run ext_def split: sum.splits prod.splits)
  show ?thesis
  proof (cases r1)
    case (Inr ct)
    obtain r2 s2 where w: "os_WriteFile (blobPath (st_filesDir s) i) ct s1 = (r2, s2)" by fastforce
    then have "e_fs s2 q = e_fs s q" using os_other_files(1) [OF q, of ct s1] s1 by simp
    then show ?thesis using seal Inr w by (cases r2) (simp_all add: files_blob_def ex)
  qed (use seal s1 in \<open>simp add: files_blob_def\<close>)
qed

text \<open>
  C14: an upload stays in its place. Whatever fails and whatever the file is called, \<open>Add\<close>
  writes at most the one file \<open><filesDir>/<id>.bin\<close> for an id that no entry had before: no
  other file on the disk is created, changed or removed, so a hostile file name cannot
  leave the directory and no earlier upload is overwritten.
\<close>

theorem upload_confined:
  assumes "db_inv (st_db s)" "files_Add area uploader name desc content s = (r, s')" "e_fs s' q \<noteq> e_fs s q"
  shows "\<exists>i. tbl_get (d_file (st_db s)) i = None \<and> q = st_filesDir s @ str ''/'' @ itoa i @ str ''.bin''"
proof -
  let ?i = "t_seq (d_file (st_db s)) + 1"
  have "e_fs s' = e_fs s \<or> (\<exists>k d. e_fs s' = e_fs (snd (files_blob ?i content (s\<lparr>e_step := k, st_db := d\<rparr>))))"
    using assms(2) unfolding files_Add_def files_UserBytes_def
    by (auto simp: query_def chk_run ext_def time_Now_def exec_def ins_file_def split: if_splits prod.splits sum.splits)
       (metis snd_conv)+
  then have "q = blobPath (st_filesDir s) ?i"
    using assms(3) files_blob_fs [of q "s\<lparr>e_step := k, st_db := d\<rparr>" ?i content for k d] by fastforce
  moreover have "tbl_get (d_file (st_db s)) ?i = None"
    using db_inv_file [OF assms(1)] by (intro tbl_get_fresh) simp_all
  ultimately show ?thesis by (intro exI [of _ ?i]) (simp add: blobPath_def blobName_def)
qed

definition demo_files :: db where
  "demo_files = demo_db\<lparr>d_file_area := \<lparr>t_rows = [(1, \<lparr>a_name = [70], a_description = [], a_min = 0\<rparr>)], t_seq = 1\<rparr>\<rparr>"

lemma demo_files_tables [simp]:
  "d_user demo_files = d_user demo_db" "d_file demo_files = tbl_empty"
  "d_file_area demo_files = \<lparr>t_rows = [(1, \<lparr>a_name = [70], a_description = [], a_min = 0\<rparr>)], t_seq = 1\<rparr>"
  by (simp_all add: demo_files_def demo_db_def empty_db_def)

lemma demo_files_inv [simp]: "db_inv demo_files"
  unfolding demo_files_def
  by (intro db_set_file_area demo_db_inv)
     (simp_all add: wf_tbl_def uniq_def fk_def tbl_get_def demo_db_def empty_db_def tbl_empty_def)

lemma demo_files_facts:
  "fk (d_file_area demo_files) 1" "fk (d_user demo_files) 2" "\<not> has p (d_file demo_files)"
  "user_bytes (d_file demo_files) u = 0" "\<not> MaxFileBytes < 2" "\<not> MaxUserBytes < 2"
  by (simp_all add: fk_def tbl_get_def has_def tbl_empty_def user_bytes_def MaxFileBytes_def MaxUserBytes_def)

lemma upload_contract_witness:
  "case files_Add 1 2 [97] [] [7, 9] (calm_store demo_files) of
     (Inr f, s') \<Rightarrow> fst (files_Content (Fe_ID f) s') = Inr [7, 9] | _ \<Rightarrow> False"
  using upload_contract [of "calm_store demo_files" "[7, 9]" 1 "[97]" 2 "[]"] clear_prims_ok demo_files_facts
  by (auto simp: Let_def split: prod.splits sum.splits)

lemma upload_confined_witness:
  "\<exists>i. tbl_get (d_file demo_files) i = None \<and> blobPath (str ''files'') 1 = str ''files'' @ str ''/'' @ itoa i @ str ''.bin''"
proof -
  let ?x = "files_Add 1 2 [97] [] [7, 9] (calm_store demo_files)"
  have "\<exists>c. e_fs (snd ?x) (blobPath (str ''files'') 1) = Some c"
    using demo_files_facts
    by (simp add: files_Add_def files_UserBytes_def query_ok chk_run time_Now_def exec_ok ins_file_def dup_none
        files_blob_def Seal_def rand_Read_ok os_WriteFile_ok upd_file_def tbl_empty_def)
  then have "e_fs (snd ?x) (blobPath (str ''files'') 1) \<noteq> e_fs (calm_store demo_files) (blobPath (str ''files'') 1)" by auto
  from upload_confined [OF _ prod.collapse [symmetric] this] show ?thesis by simp
qed

end
