(* ===== verification/AuditLog.thy ===== *)
theory AuditLog
  imports Vault Float64
begin

text \<open>
  The audit trail, \<open>audit/log.go\<close>: sealed events, one per line, each line carrying an
  HMAC that commits to the previous line's. \<open>New\<close> and \<open>chainTip\<close> recover the chain's
  tip, \<open>Emit\<close> appends, \<open>ReadAll\<close> verifies and decrypts, \<open>Rekey\<close> re-seals the file under
  another key. The JSON encoding of an event is an argument (\<open>json\<close>).
\<close>

section \<open>Events and the file\<close>

record event =
  ev_Time :: int
  ev_Type :: bytes
  ev_SessionID :: bytes
  ev_RemoteIP :: bytes
  ev_Transport :: bytes
  ev_Username :: bytes
  ev_Action :: bytes
  ev_Detail :: bytes
  ev_Minutes :: float64

definition TypeConnect :: bytes where "TypeConnect = str ''connect''"
definition TypeActivity :: bytes where "TypeActivity = str ''activity''"
definition TypeDisconnect :: bytes where "TypeDisconnect = str ''disconnect''"

record json =
  j_marshal :: "event \<Rightarrow> bytes option"
  j_unmarshal :: "bytes \<Rightarrow> event option"

definition genesis :: bytes where
  "genesis = str ''admiralbbs/audit-genesis/v1''"

definition audit_line :: "bytes \<Rightarrow> bytes \<Rightarrow> bytes" where
  "audit_line ct mac = b64_encode url_alphabet ct @ [46] @ b64_encode url_alphabet mac @ [10]"

definition hmacEqual :: "bytes \<Rightarrow> bytes \<Rightarrow> bool" where
  "hmacEqual a b = (if length a \<noteq> length b then False
     else foldl (\<lambda>v (x, y). or v (xor x y)) 0 (zip a b) = 0)"

definition splitLine :: "bytes \<Rightarrow> gerr + bytes \<times> bytes" where
  "splitLine line = (case index_byte line 46 of
     None \<Rightarrow> Inl ErrMalformed
   | Some i \<Rightarrow> if i = 0 then Inl ErrMalformed
       else (case b64_decode url_alphabet (take i line) of
           None \<Rightarrow> Inl ErrBase64
         | Some ct \<Rightarrow> (case b64_decode url_alphabet (drop (i + 1) line) of
             None \<Rightarrow> Inl ErrBase64
           | Some mac \<Rightarrow> Inr (ct, mac))))"

section \<open>Writing\<close>

record logger =
  lg_path :: bytes
  lg_vault :: vault
  lg_prevMAC :: bytes

definition chainTip :: "prims \<Rightarrow> bytes \<Rightarrow> vault \<Rightarrow> ('a env_scheme, bytes) prog" where
  "chainTip P path v = att (os_ReadFile path) (\<lambda>r. case r of
     Inl e \<Rightarrow> if e = ErrNotExist then ret (MAC P v [] genesis) else fail e
   | Inr data \<Rightarrow>
       if TrimSpace data = [] then ret (MAC P v [] genesis)
       else (case splitLine (last (split_on 10 (TrimSpace data))) of
           Inl e \<Rightarrow> fail e
         | Inr (ct, mac) \<Rightarrow> ret mac))"

definition audit_New :: "prims \<Rightarrow> bytes \<Rightarrow> vault option \<Rightarrow> ('a env_scheme, logger) prog" where
  "audit_New P path vo = (case vo of
     None \<Rightarrow> fail ErrVault
   | Some v \<Rightarrow> chk (chainTip P path v) (\<lambda>tip.
       chk (os_OpenCreate path) (\<lambda>_.
         ret \<lparr>lg_path = path, lg_vault = v, lg_prevMAC = tip\<rparr>)))"

text \<open>The part of \<open>Emit\<close> under the lock: seal, link, append; the tip advances only when
  the write succeeded.\<close>

definition emit_locked :: "prims \<Rightarrow> bytes \<Rightarrow> logger \<Rightarrow> 'a env_scheme \<Rightarrow> logger \<times> 'a env_scheme" where
  "emit_locked P plain l s = (case Seal P (lg_vault l) plain s of
     (Inl e, s1) \<Rightarrow> (l, s1)
   | (Inr ct, s1) \<Rightarrow>
       (let mac = MAC P (lg_vault l) (lg_prevMAC l) ct in
        case os_Append (lg_path l) (audit_line ct mac) s1 of
          (Inl e, s2) \<Rightarrow> (l, s2)
        | (Inr u, s2) \<Rightarrow> (l\<lparr>lg_prevMAC := mac\<rparr>, snd (ext ErrIO s2))))"

definition Emit :: "prims \<Rightarrow> json \<Rightarrow> (event \<Rightarrow> ('a env_scheme, unit) prog) list \<Rightarrow> event
    \<Rightarrow> logger \<Rightarrow> 'a env_scheme \<Rightarrow> logger \<times> 'a env_scheme" where
  "Emit P J sinks e l s = (case j_marshal J e of
     None \<Rightarrow> (l, s)
   | Some plain \<Rightarrow> (case emit_locked P plain l s of
       (l', s') \<Rightarrow> (l', fold (\<lambda>sink st. snd (sink e st)) sinks s')))"

section \<open>Reading\<close>

definition maxToken :: nat where "maxToken = 8 * 1024 * 1024"

text \<open>The scanner's lines: the text between newlines, an unterminated last line included.\<close>

definition scan_lines :: "bytes \<Rightarrow> bytes list" where
  "scan_lines data = (let ls = split_on 10 data in if last ls = [] then butlast ls else ls)"

text \<open>\<open>ReadAll\<close> returns both the events read so far and the error, as the code does.\<close>

fun read_lines :: "prims \<Rightarrow> json \<Rightarrow> vault \<Rightarrow> bytes \<Rightarrow> event list \<Rightarrow> bytes list \<Rightarrow> event list \<times> gerr option" where
  "read_lines P J v prev events [] = (events, None)"
| "read_lines P J v prev events (raw # ls) =
     (if maxToken \<le> length raw then (events, Some ErrTooBig)
      else let line = TrimSpace raw in
        if line = [] then read_lines P J v prev events ls
        else (case splitLine line of
            Inl e \<Rightarrow> ([], Some e)
          | Inr (ct, mac) \<Rightarrow>
              if \<not> hmacEqual (MAC P v prev ct) mac then (events, Some ErrChainBroken)
              else (case Open P v ct of
                  Inl e \<Rightarrow> (events, Some ErrChainBroken)
                | Inr plain \<Rightarrow> (case j_unmarshal J plain of
                    None \<Rightarrow> ([], Some ErrJson)
                  | Some ev \<Rightarrow> read_lines P J v mac (events @ [ev]) ls))))"

definition ReadAll :: "prims \<Rightarrow> json \<Rightarrow> bytes \<Rightarrow> vault \<Rightarrow> 'a env_scheme \<Rightarrow> (event list \<times> gerr option) \<times> 'a env_scheme" where
  "ReadAll P J path v s = (case os_ReadFile path s of
     (Inl e, s') \<Rightarrow> (([], if e = ErrNotExist then None else Some e), s')
   | (Inr data, s') \<Rightarrow> (read_lines P J v (MAC P v [] genesis) [] (scan_lines data), s'))"

section \<open>Rotating the key\<close>

fun rekey_lines :: "prims \<Rightarrow> vault \<Rightarrow> vault \<Rightarrow> bytes \<Rightarrow> bytes \<Rightarrow> bytes list \<Rightarrow> ('a env_scheme, bytes) prog" where
  "rekey_lines P oldV newV prev out [] = ret out"
| "rekey_lines P oldV newV prev out (raw # ls) =
     (let line = TrimSpace raw in
      if line = [] then rekey_lines P oldV newV prev out ls
      else (case splitLine line of
          Inl e \<Rightarrow> fail e
        | Inr (ct, mac) \<Rightarrow> (case Open P oldV ct of
            Inl e \<Rightarrow> fail e
          | Inr plain \<Rightarrow> chk (Seal P newV plain) (\<lambda>nct.
              let nmac = MAC P newV prev nct
              in rekey_lines P oldV newV nmac (out @ audit_line nct nmac) ls))))"

definition audit_Rekey :: "prims \<Rightarrow> bytes \<Rightarrow> vault \<Rightarrow> vault \<Rightarrow> ('a env_scheme, unit) prog" where
  "audit_Rekey P path oldV newV = att (os_ReadFile path) (\<lambda>r. case r of
     Inl e \<Rightarrow> if e = ErrNotExist then ret () else fail e
   | Inr data \<Rightarrow>
       chk (rekey_lines P oldV newV (MAC P newV [] genesis) [] (split_on 10 (TrimSpace data))) (\<lambda>out.
         chk (os_WriteFile (path @ str ''.rekey.tmp'') out) (\<lambda>_.
           os_Rename (path @ str ''.rekey.tmp'') path)))"

section \<open>Lines\<close>

lemma or_xor_zero: "or v (xor x y) = (0 :: byte) \<longleftrightarrow> v = 0 \<and> x = y"
  by (auto simp: bit_eq_iff bit_or_iff bit_xor_iff)

lemma foldl_or_zero:
  "length a = length b \<Longrightarrow>
   foldl (\<lambda>v (x, y). or v (xor x y)) w (zip a b) = (0 :: byte) \<longleftrightarrow> w = 0 \<and> a = b"
  by (induction a b arbitrary: w rule: list_induct2) (simp_all add: or_xor_zero)

lemma hmacEqual_iff [simp]: "hmacEqual a b \<longleftrightarrow> a = b"
  by (auto simp: hmacEqual_def foldl_or_zero)

definition okb :: "byte \<Rightarrow> bool" where
  "okb b \<longleftrightarrow> 32 < b \<and> b < 127"

lemma first_strip_None:
  "\<forall>r \<in> set rs. r \<noteq> [] \<and> (s = [] \<or> hd r \<noteq> hd s) \<Longrightarrow> first_strip rs s = None"
proof (induction rs)
  case (Cons r rs)
  then have "strip_prefix r s = None"
    by (cases r; cases s) auto
  then show ?case using Cons by simp
qed simp

lemma okb_not_rune:
  assumes "okb b"
  shows "\<forall>r \<in> set space_runes. r \<noteq> [] \<and> hd r \<noteq> b"
    and "\<forall>r \<in> set (map rev space_runes). r \<noteq> [] \<and> hd r \<noteq> b"
  using assms by (auto simp: space_runes_def okb_def)

lemma trim_front_id:
  "s = [] \<or> okb (hd s) \<Longrightarrow> trim_front space_runes s = s"
  "s = [] \<or> okb (hd s) \<Longrightarrow> trim_front (map rev space_runes) s = s"
  using okb_not_rune [of "hd s"] space_runes_nonempty rev_space_runes_nonempty
  by (cases "s = []"; subst trim_front.simps; subst first_strip_None; force)+

lemma trim_front_newline:
  "trim_front (map rev space_runes) (10 # s) = trim_front (map rev space_runes) s"
  by (subst trim_front.simps) (simp add: space_runes_def)

lemma TrimSpace_text:
  assumes "l \<noteq> []" "okb (hd l)" "okb (last l)"
  shows "TrimSpace l = l" "TrimSpace (l @ [10]) = l"
  using assms by (simp_all add: TrimSpace_def trim_front_id hd_rev trim_front_newline)

lemma TrimSpace_Nil [simp]: "TrimSpace [] = []"
  by (simp add: TrimSpace_def trim_front_id)

text \<open>A line of the file, without its newline.\<close>

definition line_text :: "bytes \<times> bytes \<Rightarrow> bytes" where
  "line_text p = b64_encode url_alphabet (fst p) @ [46] @ b64_encode url_alphabet (snd p)"

definition trail_text :: "(bytes \<times> bytes) list \<Rightarrow> bytes" where
  "trail_text ls = concat (map (\<lambda>p. line_text p @ [10]) ls)"

lemma audit_line_text: "audit_line ct mac = line_text (ct, mac) @ [10]"
  by (simp add: audit_line_def line_text_def)

lemma alnum_okb: "alnum b \<Longrightarrow> okb b"
  unfolding alnum_def okb_def word_le_nat_alt word_less_nat_alt by auto

lemma okb_newline: "okb b \<Longrightarrow> b \<noteq> 10"
  by (auto simp: okb_def)

lemma enc_okb: "b \<in> set (b64_encode url_alphabet x) \<Longrightarrow> okb b"
  using url_enc.encode_syms [of b x] alnum_okb [of b] by (auto simp: url_alphabet_def okb_def)

lemma line_bytes: "b \<in> set (line_text p) \<Longrightarrow> okb b"
  using enc_okb by (auto simp: line_text_def) (simp add: okb_def)

lemma line_text_Nil [simp]: "line_text p \<noteq> []"
  by (simp add: line_text_def)

lemma line_trim [simp]: "TrimSpace (line_text p) = line_text p"
  using line_bytes [of "hd (line_text p)" p] line_bytes [of "last (line_text p)" p]
  by (intro TrimSpace_text) auto

lemma encode_Nil_iff: "b64_encode url_alphabet ct = [] \<longleftrightarrow> ct = []"
  by (metis b64_encode_Nil url_enc.encode_inj)

lemma no_dot: "46 \<notin> set (b64_encode url_alphabet x)"
  using url_enc.encode_syms [of 46 x] by (auto simp: alnum_def url_alphabet_def)

lemma splitLine_line: "ct \<noteq> [] \<Longrightarrow> splitLine (line_text (ct, mac)) = Inr (ct, mac)"
  using index_byte_append [OF no_dot [of ct], of "b64_encode url_alphabet mac"]
  by (simp add: splitLine_def line_text_def url_enc.decode_encode encode_Nil_iff)

lemma split_trail: "split_on 10 (trail_text ls) = map line_text ls @ [[]]"
proof (induction ls)
  case (Cons p ls)
  have "10 \<notin> set (line_text p)" using line_bytes okb_newline by blast
  then show ?case using Cons split_on_append [of 10 "line_text p"] by (simp add: trail_text_def)
qed (simp add: trail_text_def)

lemma scan_trail: "scan_lines (trail_text ls) = map line_text ls"
  by (simp add: scan_lines_def split_trail)

lemma trail_snoc: "trail_text (ls @ [p]) = trail_text ls @ line_text p @ [10]"
  by (simp add: trail_text_def)

lemma trim_trail:
  "ls \<noteq> [] \<Longrightarrow> TrimSpace (trail_text ls) = butlast (trail_text ls)"
proof (induction ls rule: rev_induct)
  case (snoc p ls)
  let ?t = "trail_text ls @ line_text p"
  have "okb (hd ?t)"
    using line_bytes [of "hd (line_text q)" q for q] by (cases ls) (auto simp: trail_text_def hd_append)
  moreover have "okb (last ?t)" using line_bytes [of "last (line_text p)" p] by simp
  ultimately have "TrimSpace (?t @ [10]) = ?t" by (intro TrimSpace_text(2)) auto
  then show ?case by (simp add: trail_snoc butlast_append)
qed simp

lemma split_trim_trail: "ls \<noteq> [] \<Longrightarrow> split_on 10 (TrimSpace (trail_text ls)) = map line_text ls"
proof -
  assume ne: "ls \<noteq> []"
  have "butlast (trail_text ls) = join [10] (map line_text ls)"
    using ne
  proof (induction ls rule: list_nonempty_induct)
    case (cons p ls)
    then obtain q ls' where "ls = q # ls'" by (cases ls) auto
    moreover have "trail_text ls \<noteq> []" using cons by (cases ls) (auto simp: trail_text_def)
    ultimately show ?case using cons by (simp add: trail_text_def butlast_append)
  qed (simp add: trail_text_def butlast_append)
  then show ?thesis
    using ne line_bytes okb_newline by (subst trim_trail, simp, simp, intro split_join) force+
qed

section \<open>The chain\<close>

text \<open>The lines an honest writer produces for the ciphertexts \<open>cs\<close> after \<open>prev\<close>.\<close>

fun chain :: "prims \<Rightarrow> vault \<Rightarrow> bytes \<Rightarrow> bytes list \<Rightarrow> (bytes \<times> bytes) list" where
  "chain P v prev [] = []"
| "chain P v prev (c # cs) = (c, MAC P v prev c) # chain P v (MAC P v prev c) cs"

definition chain_end :: "prims \<Rightarrow> vault \<Rightarrow> bytes \<Rightarrow> bytes list \<Rightarrow> bytes" where
  "chain_end P v prev cs = foldl (MAC P v) prev cs"

definition opens :: "prims \<Rightarrow> json \<Rightarrow> vault \<Rightarrow> bytes \<Rightarrow> event option" where
  "opens P J v ct = (case Open P v ct of Inl e \<Rightarrow> None | Inr plain \<Rightarrow> j_unmarshal J plain)"

abbreviation tip0 :: "prims \<Rightarrow> vault \<Rightarrow> bytes" where
  "tip0 P v \<equiv> MAC P v [] genesis"

definition fits :: "bytes \<Rightarrow> bool" where
  "fits data \<longleftrightarrow> list_all (\<lambda>l. length l < maxToken) (scan_lines data)"

lemma opens_ne: "opens P J v ct = Some e \<Longrightarrow> ct \<noteq> []"
  by (auto simp: opens_def Open_def nonceSize_def)

lemma chain_append:
  "chain P v prev (cs @ ds) = chain P v prev cs @ chain P v (chain_end P v prev cs) ds"
  by (induction cs arbitrary: prev) (simp_all add: chain_end_def)

lemma chain_end_snoc [simp]: "chain_end P v prev (cs @ [c]) = MAC P v (chain_end P v prev cs) c"
  by (simp add: chain_end_def)

lemma chain_end_Nil [simp]: "chain_end P v prev [] = prev"
  by (simp add: chain_end_def)

lemma chain_last: "cs \<noteq> [] \<Longrightarrow> snd (last (chain P v prev cs)) = chain_end P v prev cs"
proof (induction cs rule: rev_induct)
  case (snoc c cs)
  then show ?case by (simp add: chain_append)
qed simp

lemma chain_Nil_iff [simp]: "chain P v prev cs = [] \<longleftrightarrow> cs = []"
  by (cases cs) auto

lemma map_fst_chain: "map fst (chain P v prev cs) = cs"
  by (induction cs arbitrary: prev) auto

lemma read_chain:
  assumes "list_all2 (\<lambda>c e. opens P J v c = Some e) cs es"
    "list_all (\<lambda>p. length (line_text p) < maxToken) (chain P v prev cs)"
  shows "read_lines P J v prev acc (map line_text (chain P v prev cs)) = (acc @ es, None)"
  using assms
proof (induction cs arbitrary: prev acc es)
  case (Cons c cs)
  then obtain e es' where es: "es = e # es'" "opens P J v c = Some e"
    "list_all2 (\<lambda>c e. opens P J v c = Some e) cs es'" by (cases es) auto
  obtain plain where op: "Open P v c = Inr plain" "j_unmarshal J plain = Some e"
    using es(2) by (auto simp: opens_def split: sum.splits)
  have "read_lines P J v (MAC P v prev c) (acc @ [e]) (map line_text (chain P v (MAC P v prev c) cs))
      = ((acc @ [e]) @ es', None)"
    using Cons es by (intro Cons.IH) auto
  moreover have "splitLine (line_text (c, MAC P v prev c)) = Inr (c, MAC P v prev c)"
    by (rule splitLine_line) (rule opens_ne [OF es(2)])
  ultimately show ?case
    using Cons.prems(2) op es(1) by (simp add: Let_def)
qed simp

text \<open>Conversely, what \<open>ReadAll\<close> accepts is a chain.\<close>

lemma read_accepts:
  assumes "read_lines P J v prev acc (map line_text ls) = (es, None)" "list_all (\<lambda>p. fst p \<noteq> []) ls"
  shows "\<exists>es'. es = acc @ es' \<and> ls = chain P v prev (map fst ls) \<and>
     list_all2 (\<lambda>c e. opens P J v c = Some e) (map fst ls) es'"
  using assms
proof (induction ls arbitrary: prev acc)
  case (Cons p ls)
  obtain ct mac where p: "p = (ct, mac)" by fastforce
  have sp: "splitLine (line_text p) = Inr (ct, mac)" using Cons.prems p by (simp add: splitLine_line)
  then obtain plain e where ok: "MAC P v prev ct = mac" "Open P v ct = Inr plain" "j_unmarshal J plain = Some e"
    and rest: "read_lines P J v mac (acc @ [e]) (map line_text ls) = (es, None)"
    using Cons.prems(1) by (auto simp: Let_def split: if_splits sum.splits option.splits)
  from Cons.IH [OF rest] Cons.prems(2) obtain es' where
    "es = (acc @ [e]) @ es'" "ls = chain P v mac (map fst ls)"
    "list_all2 (\<lambda>c e. opens P J v c = Some e) (map fst ls) es'" by auto
  then show ?case using ok p by (auto simp: opens_def)
qed simp

section \<open>Appending\<close>

definition log_inv :: "prims \<Rightarrow> json \<Rightarrow> logger \<Rightarrow> bytes list \<Rightarrow> event list \<Rightarrow> 'a env_scheme \<Rightarrow> bool" where
  "log_inv P J l cs es s \<longleftrightarrow>
     fs_text (e_fs s) (lg_path l) = trail_text (chain P (lg_vault l) (tip0 P (lg_vault l)) cs) \<and>
     lg_prevMAC l = chain_end P (lg_vault l) (tip0 P (lg_vault l)) cs \<and>
     list_all2 (\<lambda>c e. opens P J (lg_vault l) c = Some e) cs es"

text \<open>An event the encoder can write and read back; a sink that leaves the trail alone.\<close>

definition json_ok :: "json \<Rightarrow> event \<Rightarrow> bool" where
  "json_ok J e \<longleftrightarrow> (case j_marshal J e of None \<Rightarrow> False | Some p \<Rightarrow> j_unmarshal J p = Some e)"

definition quiet :: "bytes \<Rightarrow> (event \<Rightarrow> ('a env_scheme, unit) prog) \<Rightarrow> bool" where
  "quiet path sink \<longleftrightarrow> (\<forall>e s. e_fs (snd (sink e s)) path = e_fs s path \<and>
     env_params (snd (sink e s)) = env_params s)"

text \<open>No write fails half-way.\<close>

definition untorn :: "'a env_scheme \<Rightarrow> bool" where
  "untorn s \<longleftrightarrow> (\<forall>k. e_fault s k \<longrightarrow> e_torn s k = None)"

lemma sound_untorn: "sound s \<Longrightarrow> untorn s"
  by (simp add: sound_def untorn_def)

lemma params_cong:
  "env_params s = env_params t \<Longrightarrow> sound s = sound t"
  "env_params s = env_params t \<Longrightarrow> untorn s = untorn t"
  by (simp_all add: env_params_def sound_def untorn_def)

lemma quiet_fold:
  "list_all (quiet path) sinks \<Longrightarrow>
   e_fs (fold (\<lambda>sink st. snd (sink e st)) sinks s) path = e_fs s path \<and>
   env_params (fold (\<lambda>sink st. snd (sink e st)) sinks s) = env_params s"
  by (induction sinks arbitrary: s) (simp_all add: quiet_def)

lemma emit_locked_inv:
  assumes "prims_ok P" "log_inv P J l cs es s" "untorn s" "j_unmarshal J plain = Some e"
    "emit_locked P plain l s = (l', s')"
  shows "lg_path l' = lg_path l \<and> lg_vault l' = lg_vault l \<and> env_params s' = env_params s \<and>
    (log_inv P J l' cs es s' \<and> \<not> sound s \<or> (\<exists>ct. log_inv P J l' (cs @ [ct]) (es @ [e]) s'))"
proof -
  obtain r s1 where seal: "Seal P (lg_vault l) plain s = (r, s1)" by fastforce
  then obtain k p where s1: "s1 = s\<lparr>e_step := k, e_rpos := p\<rparr>" using Seal_state by blast
  show ?thesis
  proof (cases r)
    case (Inl x)
    moreover have "\<not> sound s" using seal Inl by (auto simp: Seal_def chk_run rand_Read_ok)
    ultimately show ?thesis
      using assms seal s1 by (auto simp: emit_locked_def log_inv_def env_params_def)
  next
    case (Inr ct)
    then have op: "opens P J (lg_vault l) ct = Some e"
      using Open_Seal [OF assms(1) seal [unfolded Inr]] assms(4) by (simp add: opens_def)
    let ?mac = "MAC P (lg_vault l) (lg_prevMAC l) ct"
    have app: "trail_text (chain P (lg_vault l) (tip0 P (lg_vault l)) (cs @ [ct]))
        = fs_text (e_fs s) (lg_path l) @ audit_line ct ?mac"
      using assms(2) by (simp add: log_inv_def chain_append trail_snoc audit_line_text)
    show ?thesis
    proof (cases "e_fault s k")
      case True
      then show ?thesis using assms seal Inr s1
        by (auto simp: emit_locked_def Let_def os_Append_def log_inv_def env_params_def untorn_def sound_def)
    next
      case False
      then have "log_inv P J l' (cs @ [ct]) (es @ [e]) s' \<and> lg_path l' = lg_path l \<and>
          lg_vault l' = lg_vault l \<and> env_params s' = env_params s"
        using assms(2,5) seal Inr s1 op app
        by (auto simp: emit_locked_def Let_def os_Append_def log_inv_def env_params_def ext_def
            fs_text_def list_all2_appendI)
      then show ?thesis by blast
    qed
  qed
qed

fun emits :: "prims \<Rightarrow> json \<Rightarrow> (event \<Rightarrow> ('a env_scheme, unit) prog) list \<Rightarrow> event list
    \<Rightarrow> logger \<Rightarrow> 'a env_scheme \<Rightarrow> logger \<times> 'a env_scheme" where
  "emits P J sinks [] l s = (l, s)"
| "emits P J sinks (e # es) l s = (case Emit P J sinks e l s of (l', s') \<Rightarrow> emits P J sinks es l' s')"

lemma Emit_inv:
  assumes "prims_ok P" "log_inv P J l cs es s" "untorn s" "json_ok J e" "list_all (quiet (lg_path l)) sinks"
    "Emit P J sinks e l s = (l', s')"
  shows "lg_path l' = lg_path l \<and> lg_vault l' = lg_vault l \<and> env_params s' = env_params s \<and>
    (log_inv P J l' cs es s' \<and> \<not> sound s \<or> (\<exists>ct. log_inv P J l' (cs @ [ct]) (es @ [e]) s'))"
proof -
  obtain plain where pl: "j_marshal J e = Some plain" "j_unmarshal J plain = Some e"
    using assms(4) by (auto simp: json_ok_def split: option.splits)
  obtain l1 s1 where el: "emit_locked P plain l s = (l1, s1)" by fastforce
  note st = emit_locked_inv [OF assms(1,2,3) pl(2) el]
  have res: "l' = l1" "s' = fold (\<lambda>sink st. snd (sink e st)) sinks s1"
    using assms(6) pl el by (auto simp: Emit_def)
  have q: "e_fs s' (lg_path l) = e_fs s1 (lg_path l)" "env_params s' = env_params s1"
    using quiet_fold [OF assms(5)] res by auto
  then show ?thesis using st res by (auto simp: log_inv_def fs_text_def)
qed

lemma emits_inv:
  assumes "prims_ok P" "log_inv P J l cs es s" "untorn s" "list_all (json_ok J) new"
    "list_all (quiet (lg_path l)) sinks" "emits P J sinks new l s = (l', s')"
  shows "\<exists>cs' done. lg_path l' = lg_path l \<and> lg_vault l' = lg_vault l \<and> env_params s' = env_params s \<and>
    log_inv P J l' cs' (es @ done) s' \<and> subseq done new \<and> (sound s \<longrightarrow> done = new)"
  using assms
proof (induction new arbitrary: l s cs es)
  case (Cons e new)
  obtain l1 s1 where em: "Emit P J sinks e l s = (l1, s1)" by fastforce
  have e: "json_ok J e" and rest: "emits P J sinks new l1 s1 = (l', s')" using Cons.prems em by auto
  note st = Emit_inv [OF Cons.prems(1-3) e Cons.prems(5) em]
  have "env_params s1 = env_params s" "lg_path l1 = lg_path l" "lg_vault l1 = lg_vault l" using st by auto
  note same = this params_cong [OF this(1)]
  from st consider "log_inv P J l1 cs es s1" "\<not> sound s"
    | ct where "log_inv P J l1 (cs @ [ct]) (es @ [e]) s1" by blast
  then show ?case
  proof cases
    case 1
    then obtain cs' d where "lg_path l' = lg_path l1" "lg_vault l' = lg_vault l1" "env_params s' = env_params s1"
      "log_inv P J l' cs' (es @ d) s'" "subseq d new"
      using Cons.IH [of l1 cs es s1] Cons.prems rest same by auto
    then show ?thesis using same 1 by (auto intro!: exI [of _ cs'] exI [of _ d])
  next
    case 2
    then obtain cs' d where "lg_path l' = lg_path l1" "lg_vault l' = lg_vault l1" "env_params s' = env_params s1"
      "log_inv P J l' cs' ((es @ [e]) @ d) s'" "subseq d new" "sound s1 \<longrightarrow> d = new"
      using Cons.IH [of l1 "cs @ [ct]" "es @ [e]" s1] Cons.prems rest same by auto
    then show ?thesis using same by (auto intro!: exI [of _ cs'] exI [of _ "e # d"])
  qed
next
  case Nil
  then have "log_inv P J l' cs (es @ []) s'" "l' = l" "s' = s" by auto
  then show ?case by blast
qed

lemma chainTip_trail:
  assumes "sound s" "fs_text (e_fs s) path = trail_text (chain P v (tip0 P v) cs)"
    "list_all2 (\<lambda>c e. opens P J v c = Some e) cs es"
  shows "chainTip P path v s = (Inr (chain_end P v (tip0 P v) cs), s\<lparr>e_step := e_step s + 1\<rparr>)"
proof (cases "cs = []")
  case True
  then have "fs_text (e_fs s) path = []" using assms(2) by (simp add: trail_text_def)
  then show ?thesis
    using assms(1) True by (auto simp: chainTip_def att_run os_ReadFile_ok fs_text_def split: option.splits)
next
  case False
  let ?ls = "chain P v (tip0 P v) cs"
  have ne: "?ls \<noteq> []" using False by simp
  obtain ct mac where l: "last ?ls = (ct, mac)" by fastforce
  have "set cs = fst ` set ?ls" by (metis map_fst_chain set_map)
  then have "ct \<in> set cs" using l ne by (metis fst_conv image_eqI last_in_set)
  then obtain e where "opens P J v ct = Some e"
    using assms(3) by (auto simp: list_all2_conv_all_nth in_set_conv_nth)
  then have sp: "splitLine (line_text (ct, mac)) = Inr (ct, mac)" by (intro splitLine_line opens_ne)
  have tr: "split_on 10 (TrimSpace (trail_text ?ls)) = map line_text ?ls" using ne by (rule split_trim_trail)
  have nz: "TrimSpace (trail_text ?ls) \<noteq> []"
  proof
    assume "TrimSpace (trail_text ?ls) = []"
    then have "map line_text ?ls = [[]]" using tr by simp
    then show False by (auto simp: map_eq_Cons_conv)
  qed
  have "e_fs s path = Some (trail_text ?ls)"
    using assms(2) nz by (cases "e_fs s path") (auto simp: fs_text_def)
  then show ?thesis
    using assms(1) nz sp ne l chain_last [OF False, of P v "tip0 P v"]
    by (simp add: chainTip_def att_run os_ReadFile_ok tr last_map)
qed

lemma New_inv:
  assumes "sound s" "fs_text (e_fs s) path = trail_text (chain P v (tip0 P v) cs)"
    "list_all2 (\<lambda>c e. opens P J v c = Some e) cs es"
  obtains l s' where "audit_New P path (Some v) s = (Inr l, s')" "lg_path l = path" "lg_vault l = v"
    "env_params s' = env_params s" "log_inv P J l cs es s'"
proof -
  let ?l = "\<lparr>lg_path = path, lg_vault = v, lg_prevMAC = chain_end P v (tip0 P v) cs\<rparr>"
  let ?s = "s\<lparr>e_step := e_step s + 2, e_fs := (e_fs s)(path \<mapsto> fs_text (e_fs s) path)\<rparr>"
  have "audit_New P path (Some v) s = (Inr ?l, ?s)"
    using assms(1) by (simp add: audit_New_def chk_run os_OpenCreate_def ext_ok chainTip_trail [OF assms])
  moreover have "log_inv P J ?l cs es ?s" "env_params ?s = env_params s"
    using assms(2,3) by (simp_all add: log_inv_def fs_text_def env_params_def)
  ultimately show thesis using that by simp
qed

text \<open>Several runs of the daemon, each opening the trail and appending to it.\<close>

fun log_runs :: "prims \<Rightarrow> json \<Rightarrow> (event \<Rightarrow> ('a env_scheme, unit) prog) list \<Rightarrow> bytes \<Rightarrow> vault
    \<Rightarrow> event list list \<Rightarrow> 'a env_scheme \<Rightarrow> 'a env_scheme" where
  "log_runs P J sinks path v [] s = s"
| "log_runs P J sinks path v (es # ess) s = (case audit_New P path (Some v) s of
     (Inl e, s1) \<Rightarrow> log_runs P J sinks path v ess s1
   | (Inr l, s1) \<Rightarrow> log_runs P J sinks path v ess (snd (emits P J sinks es l s1)))"

lemma log_runs_inv:
  assumes "prims_ok P" "sound s" "list_all (quiet path) sinks" "list_all (list_all (json_ok J)) ess"
    "fs_text (e_fs s) path = trail_text (chain P v (tip0 P v) cs)"
    "list_all2 (\<lambda>c e. opens P J v c = Some e) cs es"
  shows "\<exists>cs'. fs_text (e_fs (log_runs P J sinks path v ess s)) path = trail_text (chain P v (tip0 P v) cs') \<and>
    list_all2 (\<lambda>c e. opens P J v c = Some e) cs' (es @ concat ess) \<and> sound (log_runs P J sinks path v ess s)"
  using assms
proof (induction ess arbitrary: s cs es)
  case (Cons new ess)
  obtain l s1 where l: "audit_New P path (Some v) s = (Inr l, s1)" "lg_path l = path" "lg_vault l = v"
    "env_params s1 = env_params s" "log_inv P J l cs es s1"
    using New_inv [OF Cons.prems(2,5,6)] by blast
  obtain l2 s2 where em: "emits P J sinks new l s1 = (l2, s2)" by fastforce
  have s1: "sound s1" "untorn s1" using Cons.prems(2) params_cong [OF l(4)] sound_untorn by auto
  have q: "list_all (json_ok J) new" "list_all (quiet (lg_path l)) sinks" using Cons.prems l(2) by auto
  obtain cs' where inv: "lg_path l2 = path" "lg_vault l2 = v" "env_params s2 = env_params s1"
      "log_inv P J l2 cs' (es @ new) s2"
    using emits_inv [OF Cons.prems(1) l(5) s1(2) q em] s1(1) l(2,3) by auto
  have "sound s2" using s1(1) params_cong(1) [OF inv(3)] by simp
  then show ?case
    using Cons.IH [of s2 cs' "es @ new"] Cons.prems inv l(1) em by (simp add: log_inv_def)
qed auto

lemma ReadAll_trail:
  assumes "sound s" "fs_text (e_fs s) path = trail_text (chain P v (tip0 P v) cs)"
    "list_all2 (\<lambda>c e. opens P J v c = Some e) cs es" "fits (fs_text (e_fs s) path)"
  shows "fst (ReadAll P J path v s) = (es, None)"
proof -
  have rd: "read_lines P J v (tip0 P v) [] (map line_text (chain P v (tip0 P v) cs)) = ([] @ es, None)"
    using assms(2-4) by (intro read_chain) (auto simp: fits_def scan_trail list_all_iff)
  show ?thesis
  proof (cases "e_fs s path")
    case None
    then have "cs = []" using assms(2) by (cases cs) (auto simp: fs_text_def trail_text_def)
    then show ?thesis using assms(1,3) None by (simp add: ReadAll_def os_ReadFile_ok)
  next
    case (Some d)
    then show ?thesis using assms(1,2) rd by (simp add: ReadAll_def os_ReadFile_ok scan_trail fs_text_def)
  qed
qed

text \<open>
  C15: what is emitted is what is read, across restarts. Start from a missing trail and let
  the daemon run any number of times, each run opening the trail and emitting any
  events: with a working disk and lines within the scanner's 8 MiB, \<open>ReadAll\<close> verifies
  the chain and returns exactly all the events, in order.
\<close>

theorem audit_roundtrip:
  assumes "prims_ok P" "sound s" "e_fs s path = None"
    and "list_all (quiet path) sinks" "list_all (list_all (json_ok J)) ess"
    and "fits (fs_text (e_fs (log_runs P J sinks path v ess s)) path)"
  shows "fst (ReadAll P J path v (log_runs P J sinks path v ess s)) = (concat ess, None)"
proof -
  have "fs_text (e_fs s) path = trail_text (chain P v (tip0 P v) [])"
    using assms(3) by (simp add: fs_text_def trail_text_def)
  from log_runs_inv [OF assms(1,2,4,5) this, of "[]"]
  show ?thesis using ReadAll_trail assms(6) by fastforce
qed

definition demo_json :: json where
  "demo_json = \<lparr>j_marshal = (\<lambda>e. Some (ev_Detail e)),
     j_unmarshal = (\<lambda>d. Some \<lparr>ev_Time = 0, ev_Type = [], ev_SessionID = [], ev_RemoteIP = [],
        ev_Transport = [], ev_Username = [], ev_Action = [], ev_Detail = d, ev_Minutes = 0\<rparr>)\<rparr>"

definition demo_event :: "bytes \<Rightarrow> event" where
  "demo_event d = \<lparr>ev_Time = 0, ev_Type = [], ev_SessionID = [], ev_RemoteIP = [],
     ev_Transport = [], ev_Username = [], ev_Action = [], ev_Detail = d, ev_Minutes = 0\<rparr>"

lemma demo_json_ok: "json_ok demo_json (demo_event d)"
  by (simp add: json_ok_def demo_json_def demo_event_def)


lemma length_b64: "length (b64_encode al s) \<le> 2 * length s"
  unfolding b64_encode_def by (induction s rule: sextets.induct) auto

lemma scan_short: "l \<in> set (scan_lines data) \<Longrightarrow> length l \<le> length data"
proof -
  have "length l \<le> length data" if "l \<in> set (split_on 10 data)" for l
    using that
  proof (induction data arbitrary: l)
    case (Cons c data)
    then show ?case by (fastforce split: list.splits if_splits)
  qed simp
  then show "l \<in> set (scan_lines data) \<Longrightarrow> length l \<le> length data"
    by (auto simp: scan_lines_def Let_def split: if_splits dest: in_set_butlastD)
qed

lemma fits_short: "length data < maxToken \<Longrightarrow> fits data"
  using scan_short by (fastforce simp: fits_def list_all_iff)

lemma audit_roundtrip_witness:
  "fst (ReadAll clear_prims demo_json [97] \<lparr>v_key = [1], v_macKey = []\<rparr>
     (log_runs clear_prims demo_json [] [97] \<lparr>v_key = [1], v_macKey = []\<rparr> [[demo_event [2]]] calm_env))
   = ([demo_event [2]], None)"
proof -
  let ?v = "\<lparr>v_key = [1 :: byte], v_macKey = []\<rparr>"
  let ?s = "log_runs clear_prims demo_json [] [97] ?v [[demo_event [2]]] calm_env"
  obtain ct mac where cont: "fs_text (e_fs ?s) [97] = audit_line ct mac"
    and ct: "length ct = 26" and mac: "length mac = 32"
    by (simp add: audit_New_def chainTip_def att_run chk_run os_ReadFile_ok os_OpenCreate_def ext_ok Emit_def
        emit_locked_def Seal_def rand_Read_ok os_Append_ok Let_def fs_text_def nonceSize_def
        demo_json_def demo_event_def MAC_def) (simp add: clear_prims_def)
  have "fits (fs_text (e_fs ?s) [97])"
    using length_b64 [of url_alphabet ct] length_b64 [of url_alphabet mac] ct mac
    unfolding cont by (intro fits_short) (simp add: audit_line_def maxToken_def)
  then show ?thesis
    using audit_roundtrip [OF clear_prims_ok calm_env_sound, of "[97]" "[]" demo_json "[[demo_event [2]]]" ?v]
    by (simp add: demo_json_ok)
qed

section \<open>Failures\<close>

text \<open>The events whose entropy read and whose append both go through: of the external steps the
  environment numbers, an \<open>Emit\<close> takes the current one for its nonce and the next for the write.\<close>

fun written :: "prims \<Rightarrow> json \<Rightarrow> (event \<Rightarrow> ('a env_scheme, unit) prog) list \<Rightarrow> event list
    \<Rightarrow> logger \<Rightarrow> 'a env_scheme \<Rightarrow> event list" where
  "written P J sinks [] l s = []"
| "written P J sinks (e # es) l s =
     (if e_fault s (e_step s) \<or> e_fault s (e_step s + 1) then [] else [e]) @
     (case Emit P J sinks e l s of (l', s') \<Rightarrow> written P J sinks es l' s')"

lemma emit_locked_written:
  assumes "prims_ok P" "log_inv P J l cs es s" "untorn s" "j_unmarshal J plain = Some e"
    "emit_locked P plain l s = (l', s')"
  shows "\<exists>cs'. log_inv P J l' cs' (es @ (if e_fault s (e_step s) \<or> e_fault s (e_step s + 1) then [] else [e])) s'"
proof (cases "e_fault s (e_step s)")
  case True
  then show ?thesis using assms(2,5)
    by (auto simp: emit_locked_def Seal_def chk_run rand_Read_def ext_def log_inv_def)
next
  case False
  obtain ct n where seal: "Seal P (lg_vault l) plain s = (Inr ct, s\<lparr>e_step := e_step s + 1, e_rpos := n\<rparr>)"
    using False by (simp add: Seal_def chk_run rand_Read_def ext_def)
  have op: "opens P J (lg_vault l) ct = Some e"
    using Open_Seal [OF assms(1) seal] assms(4) by (simp add: opens_def)
  let ?mac = "MAC P (lg_vault l) (lg_prevMAC l) ct"
  have app: "trail_text (chain P (lg_vault l) (tip0 P (lg_vault l)) (cs @ [ct]))
      = fs_text (e_fs s) (lg_path l) @ audit_line ct ?mac"
    using assms(2) by (simp add: log_inv_def chain_append trail_snoc audit_line_text)
  show ?thesis
  proof (cases "e_fault s (e_step s + 1)")
    case True
    then have "log_inv P J l' cs es s'" using assms(2,3,5) seal
      by (auto simp: emit_locked_def Let_def os_Append_def log_inv_def untorn_def)
    then show ?thesis using True by auto
  next
    case fine: False
    have "log_inv P J l' (cs @ [ct]) (es @ [e]) s'"
      using assms(2,5) seal op app fine
      by (auto simp: emit_locked_def Let_def os_Append_def log_inv_def ext_def fs_text_def list_all2_appendI)
    then show ?thesis using False fine by auto
  qed
qed

lemma emits_written:
  assumes "prims_ok P" "log_inv P J l cs es s" "untorn s" "list_all (json_ok J) new"
    "list_all (quiet (lg_path l)) sinks" "emits P J sinks new l s = (l', s')"
  shows "\<exists>cs'. lg_path l' = lg_path l \<and> lg_vault l' = lg_vault l \<and> log_inv P J l' cs' (es @ written P J sinks new l s) s'"
  using assms
proof (induction new arbitrary: l s cs es)
  case (Cons e new)
  obtain l1 s1 where em: "Emit P J sinks e l s = (l1, s1)" by fastforce
  have e: "json_ok J e" and rest: "emits P J sinks new l1 s1 = (l', s')" using Cons.prems em by auto
  let ?d = "if e_fault s (e_step s) \<or> e_fault s (e_step s + 1) then [] else [e]"
  obtain plain where pl: "j_marshal J e = Some plain" "j_unmarshal J plain = Some e"
    using e by (auto simp: json_ok_def split: option.splits)
  obtain s0 where el: "emit_locked P plain l s = (l1, s0)" "s1 = fold (\<lambda>sink st. snd (sink e st)) sinks s0"
    using em pl(1) by (auto simp: Emit_def split: prod.splits)
  have st: "lg_path l1 = lg_path l" "lg_vault l1 = lg_vault l" "env_params s1 = env_params s"
    using Emit_inv [OF Cons.prems(1-3) e Cons.prems(5) em] by auto
  obtain cs1 where "log_inv P J l1 cs1 (es @ ?d) s0"
    using emit_locked_written [OF Cons.prems(1-3) pl(2) el(1)] by blast
  then have "log_inv P J l1 cs1 (es @ ?d) s1"
    using quiet_fold [OF Cons.prems(5), of e s0] el(2) st(1) by (simp add: log_inv_def fs_text_def)
  then show ?case
    using Cons.IH [of l1 cs1 "es @ ?d" s1] Cons.prems(1,3,4,5) rest st params_cong(2) [OF st(3)] em by auto
qed auto

text \<open>
  C17: a failing disk or entropy source loses the event in hand and nothing else. Whatever
  writes and entropy reads fail, provided that no write stops half-way, the trail stays a valid
  chain: once the disk can be read again, \<open>ReadAll\<close> returns, without error, the earlier events
  followed by exactly those new ones whose entropy read and append did not fail, in order.
\<close>

theorem audit_survives_failures:
  assumes "prims_ok P" "log_inv P J l cs es s" "untorn s" "list_all (json_ok J) new"
    and "list_all (quiet (lg_path l)) sinks" "emits P J sinks new l s = (l', s')"
    and "fits (fs_text (e_fs s') (lg_path l))"
  shows "fst (ReadAll P J (lg_path l) (lg_vault l) (s'\<lparr>e_fault := (\<lambda>_. False)\<rparr>)) = (es @ written P J sinks new l s, None)"
proof -
  obtain cs' where inv: "lg_path l' = lg_path l" "lg_vault l' = lg_vault l"
      "log_inv P J l' cs' (es @ written P J sinks new l s) s'"
    using emits_written [OF assms(1-6)] by auto
  let ?t = "s'\<lparr>e_fault := (\<lambda>_. False)\<rparr>"
  have "sound ?t" by (simp add: sound_def)
  moreover have "fs_text (e_fs ?t) (lg_path l) = trail_text (chain P (lg_vault l) (tip0 P (lg_vault l)) cs')"
    "list_all2 (\<lambda>c e. opens P J (lg_vault l) c = Some e) cs' (es @ written P J sinks new l s)"
    using inv by (simp_all add: log_inv_def)
  ultimately show ?thesis using ReadAll_trail [of ?t] assms(7) by fastforce
qed

text \<open>A disk that refuses the first append and then works.\<close>

definition bad_env :: env where
  "bad_env = calm_env\<lparr>e_fault := (\<lambda>k. k = 1)\<rparr>"

definition demo_logger :: logger where
  "demo_logger = \<lparr>lg_path = [97], lg_vault = \<lparr>v_key = [1], v_macKey = []\<rparr>,
     lg_prevMAC = tip0 clear_prims \<lparr>v_key = [1], v_macKey = []\<rparr>\<rparr>"

lemma audit_survives_failures_witness:
  "fst (ReadAll clear_prims demo_json [97] \<lparr>v_key = [1], v_macKey = []\<rparr>
      (snd (emits clear_prims demo_json [] [demo_event [2], demo_event [3]] demo_logger bad_env)\<lparr>e_fault := (\<lambda>_. False)\<rparr>))
    = ([demo_event [3]], None)"
proof -
  let ?new = "[demo_event [2], demo_event [3]]"
  let ?e = "emits clear_prims demo_json [] ?new demo_logger bad_env"
  have inv: "log_inv clear_prims demo_json demo_logger [] [] bad_env"
    by (simp add: log_inv_def demo_logger_def bad_env_def fs_text_def trail_text_def)
  note run = Emit_def demo_json_def demo_event_def emit_locked_def demo_logger_def Seal_def chk_run rand_Read_def ext_def os_Append_def
    bad_env_def calm_env_def Let_def
  have w: "written clear_prims demo_json [] ?new demo_logger bad_env = [demo_event [3]]"
    by (simp add: run)
  obtain ct mac where cont: "fs_text (e_fs (snd ?e)) [97] = audit_line ct mac" and len: "length ct = 26" "length mac = 32"
    by (simp add: run fs_text_def nonceSize_def MAC_def) (simp add: clear_prims_def)
  have "fits (fs_text (e_fs (snd ?e)) [97])"
    using length_b64 [of url_alphabet ct] length_b64 [of url_alphabet mac] len
    unfolding cont by (intro fits_short) (simp add: audit_line_def maxToken_def)
  moreover have "untorn bad_env" by (simp add: untorn_def bad_env_def calm_env_def)
  moreover have "lg_path demo_logger = [97]" "lg_vault demo_logger = \<lparr>v_key = [1], v_macKey = []\<rparr>"
    by (simp_all add: demo_logger_def)
  ultimately show ?thesis
    using audit_survives_failures [OF clear_prims_ok inv, of ?new "[]" "fst ?e" "snd ?e"] w
    by (simp add: demo_json_ok)
qed

section \<open>Tampering\<close>

text \<open>The inputs a verifier hands to the HMAC over a trail: the genesis text, then for each line
  the MAC before it and its ciphertext. Two trails exhibit a collision when an input of the one
  and a different input of the other have the same HMAC.\<close>

fun mac_inputs :: "bytes \<Rightarrow> (bytes \<times> bytes) list \<Rightarrow> bytes list" where
  "mac_inputs prev [] = []"
| "mac_inputs prev ((ct, mac) # ls) = (prev @ ct) # mac_inputs mac ls"

definition trail_inputs :: "prims \<Rightarrow> vault \<Rightarrow> (bytes \<times> bytes) list \<Rightarrow> bytes list" where
  "trail_inputs P v ls = genesis # mac_inputs (tip0 P v) ls"

definition mac_collision :: "prims \<Rightarrow> vault \<Rightarrow> bytes list \<Rightarrow> bytes list \<Rightarrow> bool" where
  "mac_collision P v xs ys \<longleftrightarrow>
     list_ex (\<lambda>x. list_ex (\<lambda>y. x \<noteq> y \<and> p_hmac P (v_macKey v) x = p_hmac P (v_macKey v) y) ys) xs"

lemma no_collision:
  "\<not> mac_collision P v xs ys \<Longrightarrow> x \<in> set xs \<Longrightarrow> y \<in> set ys \<Longrightarrow> p_hmac P (v_macKey v) x = p_hmac P (v_macKey v) y \<Longrightarrow> x = y"
  by (auto simp: mac_collision_def list_ex_iff)

lemma mac_inputs_snoc:
  "mac_inputs prev (chain P v prev (cs @ [c])) = mac_inputs prev (chain P v prev cs) @ [chain_end P v prev cs @ c]"
  by (induction cs arbitrary: prev) (simp_all add: chain_end_def)

definition chain_inputs :: "prims \<Rightarrow> vault \<Rightarrow> bytes list \<Rightarrow> bytes list" where
  "chain_inputs P v cs = trail_inputs P v (chain P v (tip0 P v) cs)"

lemma chain_inputs_simps [simp]:
  "genesis \<in> set (chain_inputs P v cs)"
  "chain_inputs P v (cs @ [c]) = chain_inputs P v cs @ [chain_end P v (tip0 P v) cs @ c]"
  by (simp_all add: chain_inputs_def trail_inputs_def mac_inputs_snoc)

lemma no_collision_snoc:
  "\<not> mac_collision P v (xs @ [x]) ys \<Longrightarrow> \<not> mac_collision P v xs ys"
  "\<not> mac_collision P v xs (ys @ [y]) \<Longrightarrow> \<not> mac_collision P v xs ys"
  by (auto simp: mac_collision_def list_ex_iff)

lemma length_chain_end: "prims_ok P \<Longrightarrow> length (chain_end P v (tip0 P v) cs) = 32"
  by (cases cs rule: rev_cases) (simp_all add: MAC_def prims_ok_def)

lemma genesis_short: "prims_ok P \<Longrightarrow> genesis \<noteq> chain_end P v (tip0 P v) cs @ d"
proof
  assume "prims_ok P" "genesis = chain_end P v (tip0 P v) cs @ d"
  then have "length genesis = length (chain_end P v (tip0 P v) cs @ d)" by metis
  then show False using length_chain_end [OF \<open>prims_ok P\<close>, of v cs] by (simp add: genesis_def)
qed

lemma chain_end_inj:
  assumes "prims_ok P"
  shows "chain_end P v (tip0 P v) cs = chain_end P v (tip0 P v) ds \<Longrightarrow>
    \<not> mac_collision P v (chain_inputs P v cs) (chain_inputs P v ds) \<Longrightarrow> cs = ds"
proof (induction cs arbitrary: ds rule: rev_induct)
  case Nil
  show ?case
  proof (cases ds rule: rev_cases)
    fix ds' d assume ds: "ds = ds' @ [d]"
    then have eq: "p_hmac P (v_macKey v) genesis = p_hmac P (v_macKey v) (chain_end P v (tip0 P v) ds' @ d)"
      using Nil(1) by (simp add: MAC_def)
    have "genesis = chain_end P v (tip0 P v) ds' @ d" by (rule no_collision [OF Nil(2) _ _ eq]) (simp_all add: ds)
    then show ?thesis using genesis_short [OF assms] by blast
  qed simp
next
  case (snoc c cs)
  let ?e = "chain_end P v (tip0 P v)"
  show ?case
  proof (cases ds rule: rev_cases)
    case Nil
    then have eq: "p_hmac P (v_macKey v) (?e cs @ c) = p_hmac P (v_macKey v) genesis"
      using snoc.prems(1) by (simp add: MAC_def)
    have "?e cs @ c = genesis" by (rule no_collision [OF snoc.prems(2) _ _ eq]) simp_all
    then show ?thesis using genesis_short [OF assms] by metis
  next
    fix ds' d assume ds: "ds = ds' @ [d]"
    then have eq: "p_hmac P (v_macKey v) (?e cs @ c) = p_hmac P (v_macKey v) (?e ds' @ d)"
      using snoc.prems(1) by (simp add: MAC_def)
    have "?e cs @ c = ?e ds' @ d" by (rule no_collision [OF snoc.prems(2) _ _ eq]) (simp_all add: ds)
    then have "?e cs = ?e ds' \<and> c = d" using length_chain_end [OF assms] by simp
    then show ?thesis using snoc.IH [of ds'] snoc.prems(2) ds by (auto dest: no_collision_snoc)
  qed
qed


lemma read_take:
  assumes "read_lines P J v prev acc (map line_text ls) = (es, None)" "list_all (\<lambda>p. fst p \<noteq> []) ls"
  shows "read_lines P J v prev acc (map line_text (take k ls)) = (take (length acc + k) es, None)"
  using assms
proof (induction ls arbitrary: prev acc k)
  case (Cons p ls)
  show ?case
  proof (cases k)
    case 0
    then show ?thesis using read_accepts [OF Cons.prems] by auto
  next
    case (Suc k')
    obtain ct mac where p: "p = (ct, mac)" by fastforce
    have sp: "splitLine (line_text p) = Inr (ct, mac)" using Cons.prems p by (simp add: splitLine_line)
    then obtain plain e where ok: "length (line_text p) < maxToken" "MAC P v prev ct = mac" "Open P v ct = Inr plain"
      "j_unmarshal J plain = Some e" and rest: "read_lines P J v mac (acc @ [e]) (map line_text ls) = (es, None)"
      using Cons.prems(1) by (auto simp: Let_def not_le split: if_splits sum.splits option.splits)
    then show ?thesis
      using Cons.IH [OF rest, of k'] Cons.prems(2) Suc sp by (simp add: Let_def)
  qed
qed simp

text \<open>
  Cutting the end off is not detected. If \<open>ReadAll\<close> accepts a trail, it accepts every
  trail made of its first \<open>k\<close> lines and returns the first \<open>k\<close> events: the file alone does
  not show that its newest lines are missing.
\<close>

theorem audit_truncation_accepted:
  assumes "list_all (\<lambda>p. fst p \<noteq> []) ls"
    and "read_lines P J v (tip0 P v) [] (scan_lines (trail_text ls)) = (es, None)"
  shows "read_lines P J v (tip0 P v) [] (scan_lines (trail_text (take k ls))) = (take k es, None)"
  using read_take [of P J v "tip0 P v" "[]" ls es k] assms by (simp add: scan_trail)

section \<open>Key rotation\<close>

lemma rekey_lines_ok:
  assumes "prims_ok P" "sound s" "list_all2 (\<lambda>p e. opens P J oldV (fst p) = Some e) ls es"
  shows "\<exists>cs n k. rekey_lines P oldV newV prev out (map line_text ls) s
      = (Inr (out @ trail_text (chain P newV prev cs)), s\<lparr>e_step := n, e_rpos := k\<rparr>) \<and>
    list_all2 (\<lambda>c e. opens P J newV c = Some e) cs es"
  using assms(2,3)
proof (induction ls arbitrary: prev out es s)
  case Nil
  then show ?case
    by (intro exI [of _ "[]"] exI [of _ "e_step s"] exI [of _ "e_rpos s"]) (simp add: trail_text_def)
next
  case (Cons p ls)
  obtain ct mac e es' where p: "p = (ct, mac)" and es: "es = e # es'" "opens P J oldV ct = Some e"
    "list_all2 (\<lambda>p e. opens P J oldV (fst p) = Some e) ls es'"
    using Cons.prems(2) by (cases p; cases es) auto
  obtain plain where op: "Open P oldV ct = Inr plain" "j_unmarshal J plain = Some e"
    using es(2) by (auto simp: opens_def split: sum.splits)
  obtain nct k where seal: "Seal P newV plain s = (Inr nct, s\<lparr>e_step := e_step s + 1, e_rpos := k\<rparr>)"
    using Seal_ok [OF Cons.prems(1)] by blast
  let ?s = "s\<lparr>e_step := e_step s + 1, e_rpos := k\<rparr>" and ?m = "MAC P newV prev nct"
  obtain cs n k' where IH: "rekey_lines P oldV newV ?m (out @ audit_line nct ?m) (map line_text ls) ?s
      = (Inr ((out @ audit_line nct ?m) @ trail_text (chain P newV ?m cs)), ?s\<lparr>e_step := n, e_rpos := k'\<rparr>)"
    "list_all2 (\<lambda>c e. opens P J newV c = Some e) cs es'"
    using Cons.IH [OF _ es(3), of ?s] Cons.prems(1) by fastforce
  have "opens P J newV nct = Some e"
    using Open_Seal [OF assms(1) seal] op(2) by (simp add: opens_def)
  moreover have "splitLine (line_text p) = Inr (ct, mac)"
    unfolding p by (rule splitLine_line) (rule opens_ne [OF es(2)])
  ultimately show ?case
    using IH seal op(1) es(1)
    by (intro exI [of _ "nct # cs"] exI [of _ n] exI [of _ k'])
       (simp add: Let_def chk_run trail_text_def audit_line_text)
qed

text \<open>
  \<open>Rekey\<close> carries the trail over to the new key. With a working disk, every trail
  whose ciphertexts open under the old key - whatever its MACs - is replaced by a trail
  that \<open>ReadAll\<close> accepts under the new key and that holds the same events in the same
  order; no temporary file is left. \<open>Rekey\<close> does not verify the old chain: lines removed,
  reordered or duplicated before the rotation verify afterwards.
\<close>

theorem audit_rekey:
  assumes "prims_ok P" "sound s" "e_fs s path = Some (trail_text ls)" "ls \<noteq> []"
    and "list_all2 (\<lambda>p e. opens P J oldV (fst p) = Some e) ls es"
    and "audit_Rekey P path oldV newV s = (r, s')"
    and "fits (fs_text (e_fs s') path)"
  shows "r = Inr () \<and> fst (ReadAll P J path newV s') = (es, None) \<and>
    e_fs s' (path @ str ''.rekey.tmp'') = None"
proof -
  let ?tmp = "path @ str ''.rekey.tmp''" and ?s = "s\<lparr>e_step := e_step s + 1\<rparr>"
  obtain cs n k where rk: "rekey_lines P oldV newV (tip0 P newV) [] (map line_text ls) ?s
      = (Inr (trail_text (chain P newV (tip0 P newV) cs)), ?s\<lparr>e_step := n, e_rpos := k\<rparr>)"
    "list_all2 (\<lambda>c e. opens P J newV c = Some e) cs es"
    using rekey_lines_ok [OF assms(1) _ assms(5), of ?s newV "tip0 P newV" "[]"] assms(2) by auto
  have ne: "path \<noteq> ?tmp" by (simp add: str_def)
  have "r = Inr () \<and> sound s' \<and> e_fs s' ?tmp = None \<and>
      e_fs s' path = Some (trail_text (chain P newV (tip0 P newV) cs))"
    using assms(2,3,6) ne
    by (auto simp: audit_Rekey_def att_run os_ReadFile_ok split_trim_trail [OF assms(4)] chk_run rk(1) [simplified]
        os_WriteFile_ok os_Rename_def ext_ok str_def)
  then show ?thesis using ReadAll_trail [of s' path P newV cs J es] rk(2) assms(7) by (simp add: fs_text_def)
qed

section \<open>Concrete trails\<close>

definition demo_vault :: vault where
  "demo_vault = \<lparr>v_key = [1], v_macKey = []\<rparr>"

definition demo_ct :: "byte \<Rightarrow> bytes" where
  "demo_ct b = replicate 24 7 @ [1, b]"

definition demo_trail :: "(bytes \<times> bytes) list" where
  "demo_trail = chain clear_prims demo_vault (tip0 clear_prims demo_vault) [demo_ct 5, demo_ct 6]"

lemma demo_opens: "opens clear_prims demo_json demo_vault (demo_ct b) = Some (demo_event [b])"
  by (simp add: opens_def Open_def nonceSize_def clear_prims_def demo_ct_def demo_vault_def demo_json_def demo_event_def)

lemma demo_line_short: "length (line_text (demo_ct b, MAC clear_prims demo_vault prev c)) < maxToken"
  using length_b64 [of url_alphabet "demo_ct b"] length_b64 [of url_alphabet "MAC clear_prims demo_vault prev c"]
    clear_prims_ok
  by (simp add: line_text_def maxToken_def demo_ct_def MAC_def prims_ok_def)

lemma demo_read:
  "read_lines clear_prims demo_json demo_vault (tip0 clear_prims demo_vault) [] (scan_lines (trail_text demo_trail))
     = ([demo_event [5], demo_event [6]], None)"
  using read_chain [of clear_prims demo_json demo_vault "[demo_ct 5, demo_ct 6]" "[demo_event [5], demo_event [6]]" "tip0 clear_prims demo_vault" "[]"]
  by (simp add: demo_trail_def scan_trail demo_opens demo_line_short)

lemma demo_trail_ne: "list_all (\<lambda>p. fst p \<noteq> []) demo_trail" "demo_trail \<noteq> []"
  by (simp_all add: demo_trail_def demo_ct_def)

text \<open>Under the demonstration MAC, which keeps the first 32 bytes, an edited trail keeps its last
  MAC, and the two trails exhibit the collision.\<close>

definition edited_trail :: "(bytes \<times> bytes) list" where
  "edited_trail = chain clear_prims demo_vault (tip0 clear_prims demo_vault) [demo_ct 9, demo_ct 6]"

lemma edited_read:
  "read_lines clear_prims demo_json demo_vault (tip0 clear_prims demo_vault) [] (scan_lines (trail_text edited_trail))
     = ([demo_event [9], demo_event [6]], None)"
  using read_chain [of clear_prims demo_json demo_vault "[demo_ct 9, demo_ct 6]" "[demo_event [9], demo_event [6]]" "tip0 clear_prims demo_vault" "[]"]
  by (simp add: edited_trail_def scan_trail demo_opens demo_line_short)


lemma audit_truncation_accepted_witness:
  "read_lines clear_prims demo_json demo_vault (tip0 clear_prims demo_vault) [] (scan_lines (trail_text (take 1 demo_trail)))
     = ([demo_event [5]], None)"
  using audit_truncation_accepted [OF demo_trail_ne(1) demo_read, of 1] by simp

lemma audit_rekey_witness:
  "fst (audit_Rekey clear_prims [97] demo_vault \<lparr>v_key = [2], v_macKey = []\<rparr>
     (calm_env\<lparr>e_fs := [[97] \<mapsto> trail_text [(demo_ct 6, [0])]]\<rparr>)) = Inr ()"
proof -
  let ?s = "calm_env\<lparr>e_fs := [[97] \<mapsto> trail_text [(demo_ct 6, [0])]]\<rparr>"
  let ?v = "\<lparr>v_key = [2 :: byte], v_macKey = []\<rparr>"
  let ?r = "audit_Rekey clear_prims [97] demo_vault ?v ?s"
  have "Open clear_prims demo_vault (demo_ct 6) = Inr [6]"
    by (simp add: Open_def nonceSize_def clear_prims_def demo_ct_def demo_vault_def)
  moreover have "splitLine (line_text (demo_ct 6, [0])) = Inr (demo_ct 6, [0])"
    by (rule splitLine_line) (simp add: demo_ct_def)
  ultimately obtain ct mac where cont: "fs_text (e_fs (snd ?r)) [97] = audit_line ct mac"
    and len: "length ct = 26" "length mac = 32"
    using split_trim_trail [of "[(demo_ct 6, [0])]"]
    by (simp add: audit_Rekey_def att_run os_ReadFile_ok chk_run Let_def Seal_def rand_Read_ok os_WriteFile_ok
        os_Rename_def ext_ok fs_text_def nonceSize_def MAC_def str_def) (simp add: clear_prims_def)
  have "fits (fs_text (e_fs (snd ?r)) [97])"
    using length_b64 [of url_alphabet ct] length_b64 [of url_alphabet mac] len
    unfolding cont by (intro fits_short) (simp add: audit_line_def maxToken_def)
  then show ?thesis
    using audit_rekey [OF clear_prims_ok, of ?s "[97]" "[(demo_ct 6, [0])]" demo_json demo_vault "[demo_event [6]]" ?v "fst ?r" "snd ?r"]
    by (simp add: demo_opens)
qed

end
