(* ===== verification/SysTables.thy ===== *)
theory SysTables
  imports MailFiles AuditLog
begin

text \<open>
  The SysOp's side of the store: the ban list (\<open>store/bans.go\<close>), settings
  (\<open>store/settings.go\<close>), doors (\<open>store/doors.go\<close>, \<open>store/installed_doors.go\<close>), login
  anomalies (\<open>store/anomalies.go\<close>), the session log (\<open>store/sessionlog.go\<close>) and the
  migration runner (\<open>store/store.go\<close>). The parsing and printing of IP addresses and CIDR
  blocks is a parameter (\<open>netlib\<close>, Go's package \<open>net\<close>).
\<close>

section \<open>Bans\<close>

record ('ip, 'net) netlib =
  n_ParseIP :: "bytes \<Rightarrow> 'ip option"
  n_IPString :: "'ip \<Rightarrow> bytes"
  n_Equal :: "'ip \<Rightarrow> 'ip \<Rightarrow> bool"
  n_ParseCIDR :: "bytes \<Rightarrow> 'net option"
  n_NetString :: "'net \<Rightarrow> bytes"
  n_Contains :: "'net \<Rightarrow> 'ip \<Rightarrow> bool"

definition has_slash :: "bytes \<Rightarrow> bool" where
  "has_slash p = contains p (str ''/'')"

definition NormalizeBanPattern :: "('ip, 'net) netlib \<Rightarrow> bytes \<Rightarrow> gerr + bytes" where
  "NormalizeBanPattern N pattern = (let p = TrimSpace pattern in
     if p = [] then Inl ErrBanPattern
     else if has_slash p then (case n_ParseCIDR N p of None \<Rightarrow> Inl ErrBanPattern | Some net \<Rightarrow> Inr (n_NetString N net))
     else (case n_ParseIP N p of None \<Rightarrow> Inl ErrBanPattern | Some ip \<Rightarrow> Inr (n_IPString N ip)))"

definition ins_ban :: "ban_row \<Rightarrow> db \<Rightarrow> gerr + int \<times> db" where
  "ins_ban r d = (if fk_opt (d_user d) (b_banned_by r)
     then Inr (fst (tbl_insert r (d_ban d)), d\<lparr>d_ban := snd (tbl_insert r (d_ban d))\<rparr>) else Inl ErrForeignKey)"

definition bans_byID :: "int \<Rightarrow> ('a store_scheme, int \<times> ban_row) prog" where
  "bans_byID i = query (\<lambda>d. first_row (sel_id (d_ban d) i))"

definition bans_Add :: "('ip, 'net) netlib \<Rightarrow> bytes \<Rightarrow> bytes \<Rightarrow> int \<Rightarrow> ('a store_scheme, int \<times> ban_row) prog" where
  "bans_Add N pattern reason bannedBy = chk (lift_err (NormalizeBanPattern N pattern)) (\<lambda>canon.
     chk time_Now (\<lambda>now.
     chk (exec (ins_ban \<lparr>b_pattern = canon, b_reason = TrimSpace reason,
         b_banned_by = (if 0 < bannedBy then Some bannedBy else None), b_banned_at = now, b_lifted_at = None\<rparr>))
       bans_byID))"

definition lift_db :: "int \<Rightarrow> int \<Rightarrow> db \<Rightarrow> db" where
  "lift_db i now d = d\<lparr>d_ban := snd (tbl_update (\<lambda>j r. j = i \<and> b_lifted_at r = None)
     (\<lambda>r. r\<lparr>b_lifted_at := Some now\<rparr>) (d_ban d))\<rparr>"

definition bans_Lift :: "int \<Rightarrow> ('a store_scheme, unit) prog" where
  "bans_Lift i = chk time_Now (\<lambda>now. exec (\<lambda>d. Inr ((), lift_db i now d)))"

definition active_bans :: "db \<Rightarrow> (int \<times> ban_row) list" where
  "active_bans d = rev (tbl_select (\<lambda>i r. b_lifted_at r = None) (d_ban d))"

definition bans_Active :: "('a store_scheme, (int \<times> ban_row) list) prog" where
  "bans_Active = query (\<lambda>d. Inr (active_bans d))"

text \<open>The loop body of \<open>IsBanned\<close>: does one pattern cover the address?\<close>

definition ban_covers :: "('ip, 'net) netlib \<Rightarrow> bytes \<Rightarrow> 'ip \<Rightarrow> bool" where
  "ban_covers N pat ip = (if has_slash pat
     then (case n_ParseCIDR N pat of None \<Rightarrow> False | Some net \<Rightarrow> n_Contains N net ip)
     else (case n_ParseIP N pat of None \<Rightarrow> False | Some b \<Rightarrow> n_Equal N b ip))"

definition bans_IsBanned :: "('ip, 'net) netlib \<Rightarrow> bytes \<Rightarrow> ('a store_scheme, bool) prog" where
  "bans_IsBanned N ip = (case n_ParseIP N (TrimSpace ip) of
     None \<Rightarrow> ret False
   | Some parsed \<Rightarrow> att bans_Active (\<lambda>r. case r of
       Inl e \<Rightarrow> ret False
     | Inr bans \<Rightarrow> ret (\<exists>b \<in> set bans. ban_covers N (b_pattern (snd b)) parsed)))"

interpretation ban_reg: registry "\<lambda>d. wf_tbl (d_ban d)" "\<lambda>d. tbl_get (d_ban d)" "\<lambda>r. b_lifted_at r \<noteq> None"
  "\<lambda>now r. r\<lparr>b_lifted_at := Some now\<rparr>" lift_db active_bans
  by unfold_locales (auto simp: lift_db_def active_bans_def tbl_update_get tbl_select_get map_option_case split: option.splits)

section \<open>Settings\<close>

definition settings_Get :: "bytes \<Rightarrow> bytes \<Rightarrow> ('a store_scheme, bytes) prog" where
  "settings_Get key def = att (query (\<lambda>d. case map_of (d_setting d) key of None \<Rightarrow> Inl ErrNoRows | Some v \<Rightarrow> Inr v))
     (\<lambda>r. case r of Inl e \<Rightarrow> ret def | Inr v \<Rightarrow> ret v)"

definition up_setting :: "bytes \<Rightarrow> bytes \<Rightarrow> db \<Rightarrow> gerr + unit \<times> db" where
  "up_setting key v d = Inr ((), d\<lparr>d_setting := upsert key (\<lambda>old. v) (d_setting d)\<rparr>)"

definition settings_Set :: "bytes \<Rightarrow> bytes \<Rightarrow> ('a store_scheme, unit) prog" where
  "settings_Set key v = exec (up_setting key v)"

definition DefaultBBSName :: bytes where "DefaultBBSName = str ''AdmiralBBS''"
definition DefaultTagline :: bytes where
  "DefaultTagline = str ''A clean-room '' @ [39] @ str ''90s-era ANSI Bulletin Board System''"

definition settings_BBSName :: "('a store_scheme, bytes) prog" where
  "settings_BBSName = settings_Get (str ''bbs_name'') DefaultBBSName"

definition settings_Tagline :: "('a store_scheme, bytes) prog" where
  "settings_Tagline = settings_Get (str ''tagline'') DefaultTagline"

definition settings_MOTD :: "('a store_scheme, bytes) prog" where
  "settings_MOTD = settings_Get (str ''motd'') []"

definition settings_getInt :: "bytes \<Rightarrow> int \<Rightarrow> ('a store_scheme, int) prog" where
  "settings_getInt key def = chk (settings_Get key []) (\<lambda>v.
     if v \<noteq> [] then (case atoi v of Some n \<Rightarrow> if 0 < n then ret n else ret def | None \<Rightarrow> ret def) else ret def)"

definition settings_IdleMinutes :: "int \<Rightarrow> ('a store_scheme, int) prog" where
  "settings_IdleMinutes = settings_getInt (str ''idle_minutes'')"

definition settings_DailyMinutes :: "int \<Rightarrow> ('a store_scheme, int) prog" where
  "settings_DailyMinutes = settings_getInt (str ''daily_minutes'')"

section \<open>Doors\<close>

definition KindSubprocess :: bytes where "KindSubprocess = str ''subprocess''"
definition KindResident :: bytes where "KindResident = str ''resident''"

definition ins_door :: "door_row \<Rightarrow> db \<Rightarrow> gerr + int \<times> db" where
  "ins_door r d = (if has (\<lambda>x. dr_name x = dr_name r) (d_door d) then Inl ErrUnique
     else Inr (fst (tbl_insert r (d_door d)), d\<lparr>d_door := snd (tbl_insert r (d_door d))\<rparr>))"

text \<open>The columns the statement leaves out take their defaults in the row, and Go's zero
  values in the \<open>Door\<close> that is returned.\<close>

definition doors_Create :: "bytes \<Rightarrow> bytes \<Rightarrow> bytes \<Rightarrow> int \<Rightarrow> ('a store_scheme, int \<times> door_row) prog" where
  "doors_Create name cmd fmt lvl = (let f = (if fmt = [] then str ''door32.sys'' else fmt);
       r = \<lparr>dr_name = name, dr_command = cmd, dr_dropfile = f, dr_min = lvl, dr_kind = KindSubprocess,
            dr_net = str ''tcp'', dr_address = []\<rparr> in
     chk (exec (ins_door r)) (\<lambda>i. ret (i, r\<lparr>dr_net := []\<rparr>)))"

definition doors_CreateResident :: "bytes \<Rightarrow> bytes \<Rightarrow> bytes \<Rightarrow> int \<Rightarrow> ('a store_scheme, int \<times> door_row) prog" where
  "doors_CreateResident name network address lvl = (let
       r = \<lparr>dr_name = name, dr_command = [], dr_dropfile = str ''door32.sys'', dr_min = lvl, dr_kind = KindResident,
            dr_net = network, dr_address = address\<rparr> in
     chk (exec (ins_door r)) (\<lambda>i. ret (i, r\<lparr>dr_dropfile := []\<rparr>)))"

definition doors_Count :: "('a store_scheme, nat) prog" where
  "doors_Count = query (\<lambda>d. Inr (length (t_rows (d_door d))))"

definition vis_doors :: "int \<Rightarrow> db \<Rightarrow> (int \<times> door_row) list" where
  "vis_doors lvl d = sort_key (dr_name \<circ> snd) (tbl_select (\<lambda>i r. dr_min r \<le> lvl) (d_door d))"

definition doors_Visible :: "int \<Rightarrow> ('a store_scheme, (int \<times> door_row) list) prog" where
  "doors_Visible lvl = query (\<lambda>d. Inr (vis_doors lvl d))"

definition door_by_id :: "int \<Rightarrow> int \<Rightarrow> db \<Rightarrow> gerr + (int \<times> door_row)" where
  "door_by_id i lvl d = bind_err (norows_notfound (first_row (sel_id (d_door d) i)))
     (\<lambda>(j, r). if lvl < dr_min r then Inl ErrNotFound else Inr (j, r))"

definition doors_ByID :: "int \<Rightarrow> int \<Rightarrow> ('a store_scheme, int \<times> door_row) prog" where
  "doors_ByID i lvl = query (door_by_id i lvl)"

interpretation door_gate: gated "\<lambda>d. wf_tbl (d_door d)" "\<lambda>d. tbl_get (d_door d)" dr_min vis_doors door_by_id
  by unfold_locales (auto simp: vis_doors_def door_by_id_def tbl_select_get first_sel_id norows_notfound_def
      bind_err_def split: option.splits)

definition upd_resident :: "int \<Rightarrow> bytes \<Rightarrow> bytes \<Rightarrow> db \<Rightarrow> gerr + unit \<times> db" where
  "upd_resident i network address d = Inr ((), d\<lparr>d_door := snd (tbl_update (\<lambda>j r. j = i)
     (\<lambda>r. r\<lparr>dr_kind := KindResident, dr_net := network, dr_address := address, dr_command := []\<rparr>) (d_door d))\<rparr>)"

definition doors_EnsureResidentDoor :: "bytes \<Rightarrow> bytes \<Rightarrow> bytes \<Rightarrow> int \<Rightarrow> ('a store_scheme, unit) prog" where
  "doors_EnsureResidentDoor name network address lvl =
     att (query (\<lambda>d. first_row (tbl_select (\<lambda>i r. dr_name r = name) (d_door d)))) (\<lambda>r. case r of
       Inl e \<Rightarrow> if e = ErrNoRows then chk (doors_CreateResident name network address lvl) (\<lambda>_. ret ()) else fail e
     | Inr (i, _) \<Rightarrow> exec (upd_resident i network address))"

definition demo_door :: bytes where "demo_door = str ''doors/numguess.sh''"

definition EnsureSeedDoors :: "('a store_scheme, unit) prog" where
  "EnsureSeedDoors = chk doors_Count (\<lambda>n. if 0 < n then ret () else
     att (os_Stat demo_door) (\<lambda>r. case r of
       Inl e \<Rightarrow> ret ()
     | Inr _ \<Rightarrow> chk (doors_Create (str ''Number Guess'') demo_door (str ''door32.sys'') 0) (\<lambda>_. ret ())))"

section \<open>Installed doors\<close>

definition up_installed :: "installed_row \<Rightarrow> db \<Rightarrow> gerr + unit \<times> db" where
  "up_installed r d = (if has (\<lambda>x. id_name x = id_name r) (d_installed d)
     then Inr ((), d\<lparr>d_installed := snd (tbl_update (\<lambda>i x. id_name x = id_name r) (\<lambda>x. r) (d_installed d))\<rparr>)
     else Inr ((), d\<lparr>d_installed := snd (tbl_insert r (d_installed d))\<rparr>))"

definition installed_Upsert :: "installed_row \<Rightarrow> int \<Rightarrow> ('a store_scheme, unit) prog" where
  "installed_Upsert r at_time = exec (up_installed (r\<lparr>id_installed_at := at_time\<rparr>))"

definition installed_List :: "('a store_scheme, (int \<times> installed_row) list) prog" where
  "installed_List = query (\<lambda>d. Inr (sort_key (id_name \<circ> snd) (t_rows (d_installed d))))"

definition installed_ByName :: "bytes \<Rightarrow> ('a store_scheme, (int \<times> installed_row) option) prog" where
  "installed_ByName name = query (\<lambda>d. case first_row (tbl_select (\<lambda>i r. id_name r = name) (d_installed d)) of
     Inl e \<Rightarrow> if e = ErrNoRows then Inr None else Inl e | Inr x \<Rightarrow> Inr (Some x))"

definition del_installed :: "bytes \<Rightarrow> db \<Rightarrow> gerr + unit \<times> db" where
  "del_installed name d = Inr ((), d\<lparr>d_installed := snd (tbl_delete (\<lambda>i r. id_name r = name) (d_installed d))\<rparr>)"

definition installed_Remove :: "bytes \<Rightarrow> ('a store_scheme, unit) prog" where
  "installed_Remove name = exec (del_installed name)"

section \<open>Login anomalies\<close>

definition anomalies_Recent :: "int \<Rightarrow> ('a store_scheme, (int \<times> anomaly_row) list) prog" where
  "anomalies_Recent limit = (let n = (if limit \<le> 0 then 20 else limit) in
     query (\<lambda>d. Inr (take (nat n) (rev (t_rows (d_anomaly d))))))"

definition anomalies_Count :: "('a store_scheme, nat) prog" where
  "anomalies_Count = query (\<lambda>d. Inr (length (t_rows (d_anomaly d))))"

section \<open>The session log\<close>

definition ins_slog :: "slog_row \<Rightarrow> db \<Rightarrow> gerr + int \<times> db" where
  "ins_slog r d = Inr (fst (tbl_insert r (d_slog d)), d\<lparr>d_slog := snd (tbl_insert r (d_slog d))\<rparr>)"

text \<open>\<open>Emit\<close> has no result; what fails is only logged.\<close>

definition slog_Emit :: "event \<Rightarrow> ('a store_scheme, unit) prog" where
  "slog_Emit e = att (st_seal (ev_Detail e)) (\<lambda>r. case r of
     Inl err \<Rightarrow> ret ()
   | Inr detail \<Rightarrow> att (exec (ins_slog \<lparr>sl_session_id = ev_SessionID e, sl_username = ev_Username e,
         sl_transport = ev_Transport e, sl_remote_ip = ev_RemoteIP e, sl_event_type = ev_Type e,
         sl_action = ev_Action e, sl_detail = detail, sl_minutes = ev_Minutes e, sl_at = ev_Time e\<rparr>)) (\<lambda>_. ret ()))"

definition slog_Count :: "('a store_scheme, nat) prog" where
  "slog_Count = query (\<lambda>d. Inr (length (t_rows (d_slog d))))"

definition slog_scan :: "prims \<Rightarrow> vault \<Rightarrow> int \<times> slog_row \<Rightarrow> gerr + event" where
  "slog_scan P v x = (case x of (i, r) \<Rightarrow> (case unseal P v (sl_detail r) of
     Inl e \<Rightarrow> Inl e
   | Inr detail \<Rightarrow> Inr \<lparr>ev_Time = sl_at r, ev_Type = sl_event_type r, ev_SessionID = sl_session_id r,
       ev_RemoteIP = sl_remote_ip r, ev_Transport = sl_transport r, ev_Username = sl_username r,
       ev_Action = sl_action r, ev_Detail = detail, ev_Minutes = sl_minutes r\<rparr>))"

definition slog_Page :: "int \<Rightarrow> int \<Rightarrow> ('a store_scheme, event list) prog" where
  "slog_Page limit offset s = (let n = (if limit < 0 then 0 else limit); k = (if offset < 0 then 0 else offset) in
     query (\<lambda>d. scan_rows (slog_scan (st_prims s) (st_vault s)) (take (nat n) (drop (nat k) (rev (t_rows (d_slog d)))))) s)"

definition slog_Recent :: "int \<Rightarrow> ('a store_scheme, event list) prog" where
  "slog_Recent limit = slog_Page limit 0"

definition VerifyAuditChain :: "json \<Rightarrow> bytes \<Rightarrow> 'a store_scheme \<Rightarrow> (nat \<times> gerr option) \<times> 'a store_scheme" where
  "VerifyAuditChain J path s = (case ReadAll (st_prims s) J path (st_vault s) s of
     ((events, err), s') \<Rightarrow> ((length events, err), s'))"

text \<open>
  \<open>at >= midnight\<close> compares the texts of the two times. Midnight has no fraction of a
  second (\<open>...T00:00:00Z\<close>), and a text with one has a dot where midnight has its \<open>Z\<close>: the
  comparison holds at midnight itself and from one second after it.
\<close>

definition day :: int where "day = 86400 * 10 ^ 9"

definition text_since :: "int \<Rightarrow> int \<Rightarrow> bool" where
  "text_since midnight t \<longleftrightarrow> t = midnight \<or> midnight + 10 ^ 9 \<le> t"

text \<open>\<open>COALESCE(SUM(minutes), 0)\<close>: how SQLite adds up \<open>REAL\<close> columns is its own (\<open>sqlsum\<close>).\<close>

definition minutes_since :: "(float64 list \<Rightarrow> float64) \<Rightarrow> bytes \<Rightarrow> int \<Rightarrow> slog_row tbl \<Rightarrow> float64" where
  "minutes_since sqlsum user midnight t =
     (let ms = map (sl_minutes \<circ> snd) (tbl_select (\<lambda>i r. sl_username r = user \<and>
        sl_event_type r = TypeDisconnect \<and> text_since midnight (sl_at r)) t)
      in if ms = [] then 0 else sqlsum ms)"

definition slog_MinutesToday :: "(float64 list \<Rightarrow> float64) \<Rightarrow> bytes \<Rightarrow> ('a store_scheme, float64) prog" where
  "slog_MinutesToday sqlsum user = chk time_Now (\<lambda>now. let midnight = now - now mod day in
     query (\<lambda>d. Inr (minutes_since sqlsum user midnight (d_slog d))))"

section \<open>The database invariant\<close>

lemma ins_ban_inv: "ins_ban r d = Inr (x, d') \<Longrightarrow> inv_rel d d'"
  using db_inv_ban [of d] by (auto simp: ins_ban_def inv_rel_def tbl_inv split: if_splits intro!: db_set)

lemma lift_db_inv: "Inr ((), lift_db i now d) = (Inr (x, d') :: gerr + unit \<times> db) \<Longrightarrow> inv_rel d d'"
  using db_inv_ban [of d] by (auto simp: lift_db_def inv_rel_def intro!: db_set all_rows_update)

lemma up_setting_inv: "up_setting k v d = Inr (x, d') \<Longrightarrow> inv_rel d d'"
  using db_inv_setting [of d] upsert_keys [of "d_setting d" k "\<lambda>old. v"]
  by (auto simp: up_setting_def inv_rel_def intro!: db_set)

lemma ins_door_inv: "ins_door r d = Inr (x, d') \<Longrightarrow> inv_rel d d'"
  using db_inv_door [of d] by (auto simp: ins_door_def inv_rel_def tbl_inv split: if_splits intro!: db_set)

lemma upd_resident_inv: "upd_resident i n a d = Inr (x, d') \<Longrightarrow> inv_rel d d'"
  using db_inv_door [of d] by (auto simp: upd_resident_def inv_rel_def uniq_update intro!: db_set)

lemma up_installed_inv: "up_installed r d = Inr (x, d') \<Longrightarrow> inv_rel d d'"
  using db_inv_installed [of d]
  by (auto simp: up_installed_def inv_rel_def uniq_update tbl_inv split: if_splits intro!: db_set)

lemma del_installed_inv: "del_installed n d = Inr (x, d') \<Longrightarrow> inv_rel d d'"
  using db_inv_installed [of d] by (auto simp: del_installed_def inv_rel_def intro!: db_set uniq_delete)

lemma ins_slog_inv: "ins_slog r d = Inr (x, d') \<Longrightarrow> inv_rel d d'"
  using db_inv_slog [of d] by (auto simp: ins_slog_def inv_rel_def intro!: db_set)

section \<open>Bans take effect\<close>

text \<open>What package \<open>net\<close> documents: printed addresses and blocks parse back to ones that
  compare and contain alike, and only blocks are printed with a slash.\<close>

definition netlib_ok :: "('ip, 'net) netlib \<Rightarrow> bool" where
  "netlib_ok N \<longleftrightarrow>
     (\<forall>ip. \<exists>ip'. n_ParseIP N (n_IPString N ip) = Some ip' \<and> n_Equal N ip' = n_Equal N ip) \<and>
     (\<forall>ip. \<not> has_slash (n_IPString N ip)) \<and>
     (\<forall>net. \<exists>net'. n_ParseCIDR N (n_NetString N net) = Some net' \<and> n_Contains N net' = n_Contains N net) \<and>
     (\<forall>net. has_slash (n_NetString N net))"

lemma normalized_covers:
  assumes "netlib_ok N" "NormalizeBanPattern N pat = Inr canon"
  shows "ban_covers N canon ip = ban_covers N (TrimSpace pat) ip"
proof (cases "has_slash (TrimSpace pat)")
  case True
  then obtain net where "n_ParseCIDR N (TrimSpace pat) = Some net" "canon = n_NetString N net"
    using assms(2) by (auto simp: NormalizeBanPattern_def Let_def split: if_splits option.splits)
  moreover obtain net' where "n_ParseCIDR N (n_NetString N net) = Some net'" "n_Contains N net' = n_Contains N net"
    using assms(1) unfolding netlib_ok_def by blast
  ultimately show ?thesis using True assms(1) by (simp add: ban_covers_def netlib_ok_def)
next
  case False
  then obtain a where "n_ParseIP N (TrimSpace pat) = Some a" "canon = n_IPString N a"
    using assms(2) by (auto simp: NormalizeBanPattern_def Let_def split: if_splits option.splits)
  moreover obtain a' where "n_ParseIP N (n_IPString N a) = Some a'" "n_Equal N a' = n_Equal N a"
    using assms(1) unfolding netlib_ok_def by blast
  ultimately show ?thesis using False assms(1) by (simp add: ban_covers_def netlib_ok_def)
qed

definition banned_in :: "('ip, 'net) netlib \<Rightarrow> db \<Rightarrow> 'ip \<Rightarrow> bool" where
  "banned_in N d ip \<longleftrightarrow> (\<exists>b \<in> set (active_bans d). ban_covers N (b_pattern (snd b)) ip)"

lemma IsBanned_ok: "sound s \<Longrightarrow> fst (bans_IsBanned N ip s)
    = Inr (case n_ParseIP N (TrimSpace ip) of None \<Rightarrow> False | Some a \<Rightarrow> banned_in N (st_db s) a)"
  by (simp add: bans_IsBanned_def bans_Active_def att_run query_ok banned_in_def split: option.splits)

text \<open>
  C21: a ban takes effect and can be lifted. With a working disk, adding a valid pattern
  bans exactly the addresses banned before and those the pattern covers; lifting that
  ban restores what was banned before; and the ban's row stays on record.
\<close>

theorem ban_takes_effect:
  assumes "sound s" "db_inv (st_db s)" "netlib_ok N" "NormalizeBanPattern N pat = Inr canon"
    "by_id \<le> 0 \<or> fk (d_user (st_db s)) by_id"
  shows "\<exists>i r s1 s2. bans_Add N pat reason by_id s = (Inr (i, r), s1) \<and> bans_Lift i s1 = (Inr (), s2) \<and>
     (\<forall>ip a. n_ParseIP N (TrimSpace ip) = Some a \<longrightarrow>
        fst (bans_IsBanned N ip s1) = Inr (banned_in N (st_db s) a \<or> ban_covers N (TrimSpace pat) a) \<and>
        fst (bans_IsBanned N ip s2) = Inr (banned_in N (st_db s) a)) \<and>
     tbl_get (d_ban (st_db s2)) i \<noteq> None"
proof -
  let ?d = "st_db s"
  define r where "r = \<lparr>b_pattern = canon, b_reason = TrimSpace reason,
    b_banned_by = (if 0 < by_id then Some by_id else None), b_banned_at = e_clock s (e_step s), b_lifted_at = None\<rparr>"
  define d1 where "d1 = ?d\<lparr>d_ban := snd (tbl_insert r (d_ban ?d))\<rparr>"
  let ?i = "t_seq (d_ban ?d) + 1"
  have wf: "wf_tbl (d_ban ?d)" "wf_tbl (d_ban d1)" using db_inv_ban [OF assms(2)] by (simp_all add: d1_def)
  have get: "tbl_get (d_ban d1) ?i = Some r" using wf(1) by (simp add: d1_def tbl_insert_get)
  let ?s1 = "s\<lparr>e_step := e_step s + 2, st_db := d1\<rparr>"
  have add: "bans_Add N pat reason by_id s = (Inr (?i, r), ?s1)"
    using assms(1,4,5) wf get
    by (auto simp: bans_Add_def bans_byID_def chk_run time_Now_def exec_ok ins_ban_def query_ok first_sel_id r_def d1_def)
  let ?s2 = "?s1\<lparr>e_step := e_step ?s1 + 1, st_db := lift_db ?i (e_clock s (e_step ?s1)) d1\<rparr>"
  have lift: "bans_Lift ?i ?s1 = (Inr (), ?s2)"
    using assms(1) by (simp add: bans_Lift_def chk_run time_Now_def exec_ok)
  have act1: "set (active_bans d1) = insert (?i, r) (set (active_bans ?d))"
    by (auto simp: active_bans_def d1_def tbl_select_insert r_def)
  have old: "(?i, q) \<notin> set (active_bans ?d)" for q
    using tbl_get_fresh [OF wf(1), of ?i] by (simp add: active_bans_def tbl_select_get [OF wf(1)])
  have act2: "set (active_bans (st_db ?s2)) = set (active_bans ?d)"
    using ban_reg.close_takes_off [of d1 ?i "e_clock s (e_step ?s1)"] wf act1 old by auto
  have ban1: "banned_in N d1 a \<longleftrightarrow> banned_in N ?d a \<or> ban_covers N (TrimSpace pat) a" for a
    using normalized_covers [OF assms(3,4), of a] by (auto simp: banned_in_def act1 r_def)
  have ban2: "banned_in N (st_db ?s2) a \<longleftrightarrow> banned_in N ?d a" for a
    unfolding banned_in_def act2 ..
  have row: "tbl_get (d_ban (st_db ?s2)) ?i \<noteq> None"
    using ban_reg.history_kept [of ?i "e_clock s (e_step ?s1)" d1 ?i] get by simp
  have snd: "sound ?s1" "sound ?s2" "st_db ?s1 = d1" using assms(1) by simp_all
  show ?thesis
    using add lift row ban1 ban2
    by (intro exI [of _ ?i] exI [of _ r] exI [of _ ?s1] exI [of _ ?s2]) (simp only: IsBanned_ok [OF snd(1)] IsBanned_ok [OF snd(2)] snd(3), simp)
qed

text \<open>Addresses written as one byte, blocks as \<open>/\<close> and the byte they contain.\<close>

definition demo_net :: "(byte, byte) netlib" where
  "demo_net = \<lparr>n_ParseIP = (\<lambda>b. case b of [x] \<Rightarrow> if x = 47 \<or> x = 32 then None else Some x | _ \<Rightarrow> None),
     n_IPString = (\<lambda>x. [if x = 47 \<or> x = 32 then 48 else x]),
     n_Equal = (\<lambda>x y. (if x = 47 \<or> x = 32 then 48 else x) = (if y = 47 \<or> y = 32 then 48 else y)),
     n_ParseCIDR = (\<lambda>b. case b of [c, x] \<Rightarrow> if c = 47 then Some x else None | _ \<Rightarrow> None),
     n_NetString = (\<lambda>x. [47, x]), n_Contains = (\<lambda>x y. x = y)\<rparr>"

lemma demo_net_ok: "netlib_ok demo_net"
  by (auto simp: netlib_ok_def demo_net_def has_slash_def str_def)

lemma ban_takes_effect_witness:
  "\<exists>i r s1. bans_Add demo_net [65] [] 0 (calm_store demo_db) = (Inr (i, r), s1) \<and>
     fst (bans_IsBanned demo_net [65] s1) = Inr True"
proof -
  have trim: "TrimSpace [65] = [65]" by code_simp
  have "NormalizeBanPattern demo_net [65] = Inr [65]"
    by (simp add: NormalizeBanPattern_def trim demo_net_def has_slash_def str_def)
  moreover have "n_ParseIP demo_net (TrimSpace [65]) = Some 65" "ban_covers demo_net (TrimSpace [65]) 65"
    by (simp_all add: trim ban_covers_def demo_net_def has_slash_def str_def)
  ultimately show ?thesis
    using ban_takes_effect [OF _ _ demo_net_ok, of "calm_store demo_db" "[65]" "[65]" 0 "[]"] by fastforce
qed

section \<open>Migrations\<close>

text \<open>
  The migration runner of \<open>store/store.go\<close>. The embedded files and what each SQL script does
  to the schema are arguments; the schema and \<open>user_version\<close> change when a transaction
  commits.
\<close>

record 'd mdb = env +
  mg_version :: int
  mg_schema :: 'd

definition migrationVersion :: "bytes \<Rightarrow> gerr + int" where
  "migrationVersion name = (case index_byte name 95 of
     None \<Rightarrow> Inl ErrMigration
   | Some i \<Rightarrow> if i = 0 then Inl ErrMigration
       else (case atoi (take i name) of None \<Rightarrow> Inl ErrMigration | Some n \<Rightarrow> Inr n))"

definition userVersion :: "(('d, 'a) mdb_scheme, int) prog" where
  "userVersion = chk (ext ErrDB) (\<lambda>_ s. (Inr (mg_version s), s))"

definition mg_apply :: "(bytes \<Rightarrow> 'd \<Rightarrow> gerr + 'd) \<Rightarrow> int \<Rightarrow> bytes \<Rightarrow> (('d, 'a) mdb_scheme, unit) prog" where
  "mg_apply sql ver script =
     chk (ext ErrDB) (\<lambda>_.
     chk (ext ErrMigration) (\<lambda>_ s. case sql script (mg_schema s) of
       Inl e \<Rightarrow> (Inl e, s)
     | Inr d \<Rightarrow> chk (ext ErrMigration) (\<lambda>_.
         chk (ext ErrDB) (\<lambda>_ s. (Inr (), s\<lparr>mg_schema := d, mg_version := ver\<rparr>))) s))"

fun mg_loop :: "(bytes \<Rightarrow> 'd \<Rightarrow> gerr + 'd) \<Rightarrow> (bytes \<times> bytes) list \<Rightarrow> int \<Rightarrow> (('d, 'a) mdb_scheme, unit) prog" where
  "mg_loop sql [] current = ret ()"
| "mg_loop sql ((name, script) # rest) current = (case migrationVersion name of
     Inl e \<Rightarrow> fail e
   | Inr ver \<Rightarrow> if ver \<le> current then mg_loop sql rest current
       else chk (mg_apply sql ver script) (\<lambda>_. mg_loop sql rest ver))"

definition is_sql :: "bytes \<Rightarrow> bool" where
  "is_sql name \<longleftrightarrow> suffix (str ''.sql'') name"

definition migrate :: "(bytes \<Rightarrow> 'd \<Rightarrow> gerr + 'd) \<Rightarrow> (bytes \<times> bytes) list \<Rightarrow> (('d, 'a) mdb_scheme, unit) prog" where
  "migrate sql files = chk userVersion (mg_loop sql (sort_key fst (filter (is_sql \<circ> fst) files)))"

text \<open>Running a list of scripts.\<close>

fun run_scripts :: "(bytes \<Rightarrow> 'd \<Rightarrow> gerr + 'd) \<Rightarrow> (int \<times> bytes) list \<Rightarrow> 'd \<Rightarrow> gerr + 'd" where
  "run_scripts sql [] d = Inr d"
| "run_scripts sql ((v, x) # xs) d = (case sql x d of Inl e \<Rightarrow> Inl e | Inr d' \<Rightarrow> run_scripts sql xs d')"

text \<open>The scripts a database at version \<open>v\<close> still needs, in the order of their file names.\<close>

definition versioned :: "(bytes \<times> bytes) list \<Rightarrow> (int \<times> bytes) list" where
  "versioned l = map (\<lambda>(n, x). (case migrationVersion n of Inr v \<Rightarrow> v | Inl e \<Rightarrow> 0, x)) l"

definition pending :: "(bytes \<times> bytes) list \<Rightarrow> int \<Rightarrow> (int \<times> bytes) list" where
  "pending l v = filter (\<lambda>(w, x). v < w) (versioned l)"

lemma mg_apply_run:
  "mg_apply sql ver x s = (let k = e_step s in
     if e_fault s k then (Inl ErrDB, s\<lparr>e_step := k + 1\<rparr>)
     else if e_fault s (k + 1) then (Inl ErrMigration, s\<lparr>e_step := k + 2\<rparr>)
     else case sql x (mg_schema s) of
       Inl e \<Rightarrow> (Inl e, s\<lparr>e_step := k + 2\<rparr>)
     | Inr d \<Rightarrow> if e_fault s (k + 2) then (Inl ErrMigration, s\<lparr>e_step := k + 3\<rparr>)
         else if e_fault s (k + 3) then (Inl ErrDB, s\<lparr>e_step := k + 4\<rparr>)
         else (Inr (), s\<lparr>e_step := k + 4, mg_schema := d, mg_version := ver\<rparr>))"
  by (simp add: mg_apply_def chk_run ext_def Let_def numeral_eq_Suc split: sum.splits)

lemma mg_apply_cases:
  obtains (err) e k where "mg_apply sql ver x s = (Inl e, s\<lparr>e_step := k\<rparr>)" "\<not> sound s \<or> sql x (mg_schema s) = Inl e"
  | (ok) d where "sql x (mg_schema s) = Inr d"
      "mg_apply sql ver x s = (Inr (), s\<lparr>e_step := e_step s + 4, mg_schema := d, mg_version := ver\<rparr>)"
proof -
  have "(\<exists>e k. mg_apply sql ver x s = (Inl e, s\<lparr>e_step := k\<rparr>) \<and> (\<not> sound s \<or> sql x (mg_schema s) = Inl e)) \<or>
    (\<exists>d. sql x (mg_schema s) = Inr d \<and>
      mg_apply sql ver x s = (Inr (), s\<lparr>e_step := e_step s + 4, mg_schema := d, mg_version := ver\<rparr>))"
    unfolding mg_apply_run Let_def sound_def
    by (cases "sql x (mg_schema s)") (simp_all split: if_split, blast+)
  then show thesis using that by blast
qed

lemma pending_Cons:
  "migrationVersion n = Inr v \<Longrightarrow> pending ((n, x) # l) w = (if w < v then (v, x) # pending l w else pending l w)"
  by (simp add: pending_def versioned_def)

lemma pending_above: "\<forall>v \<in> fst ` set (versioned l). u < v \<Longrightarrow> w \<le> u \<Longrightarrow> pending l w = pending l u"
  by (auto simp: pending_def intro!: filter_cong)

definition well_named :: "(bytes \<times> bytes) list \<Rightarrow> bool" where
  "well_named l \<longleftrightarrow> (\<forall>x \<in> set l. \<exists>v. migrationVersion (fst x) = Inr v) \<and> sorted_wrt (<) (map fst (versioned l))"

lemma mg_loop_prefix:
  assumes "well_named l" "mg_version s = cur" "mg_loop sql l cur s = (r, s')"
  shows "\<exists>k. run_scripts sql (take k (pending l cur)) (mg_schema s) = Inr (mg_schema s') \<and>
     pending l (mg_version s') = drop k (pending l cur) \<and> cur \<le> mg_version s' \<and>
     (r = Inr () \<longrightarrow> length (pending l cur) \<le> k) \<and>
     (sound s \<longrightarrow> (\<forall>e. r = Inl e \<longrightarrow> run_scripts sql (pending l cur) (mg_schema s) = Inl e))"
  using assms
proof (induction l arbitrary: cur s)
  case Nil
  then show ?case by (intro exI [of _ 0]) (auto simp: pending_def versioned_def)
next
  case (Cons a l)
  obtain n x where a: "a = (n, x)" by fastforce
  obtain ver where ver: "migrationVersion n = Inr ver" using Cons.prems(1) a by (auto simp: well_named_def)
  have wn: "well_named l" and above: "\<forall>v \<in> fst ` set (versioned l). ver < v"
    using Cons.prems(1) a ver by (auto simp: well_named_def versioned_def)
  show ?case
  proof (cases "ver \<le> cur")
    case True
    then have run: "mg_loop sql l cur s = (r, s')" using Cons.prems(3) a ver by simp
    from Cons.IH [OF wn Cons.prems(2) run] show ?thesis using True by (auto simp: a pending_Cons [OF ver])
  next
    case False
    then have run: "chk (mg_apply sql ver x) (\<lambda>_. mg_loop sql l ver) s = (r, s')" using Cons.prems(3) a ver by simp
    have pend: "pending (a # l) cur = (ver, x) # pending l ver"
      using False pending_above [OF above, of cur] by (simp add: a pending_Cons [OF ver])
    show ?thesis
    proof (cases rule: mg_apply_cases [of sql ver x s])
      case (err e k)
      then have "r = Inl e" "s' = s\<lparr>e_step := k\<rparr>" using run by auto
      then show ?thesis using pend Cons.prems(2) err(2) by (intro exI [of _ 0]) auto
    next
      case (ok d)
      let ?s1 = "s\<lparr>e_step := e_step s + 4, mg_schema := d, mg_version := ver\<rparr>"
      have run1: "mg_loop sql l ver ?s1 = (r, s')" using run ok(2) by simp
      have snd: "sound ?s1 = sound s" by (simp add: sound_def)
      from Cons.IH [OF wn _ run1] obtain k where
        k: "run_scripts sql (take k (pending l ver)) d = Inr (mg_schema s')"
          "pending l (mg_version s') = drop k (pending l ver)" "ver \<le> mg_version s'"
          "r = Inr () \<longrightarrow> length (pending l ver) \<le> k"
          "sound s \<longrightarrow> (\<forall>e. r = Inl e \<longrightarrow> run_scripts sql (pending l ver) d = Inl e)"
        using snd by auto
      moreover have "pending (a # l) (mg_version s') = pending l (mg_version s')"
        using k(3) by (simp add: a pending_Cons [OF ver])
      ultimately show ?thesis using pend ok(1) False by (intro exI [of _ "Suc k"]) auto
    qed
  qed
qed

text \<open>
  C12: migrations are applied once, in order, and can be resumed. However a run of \<open>migrate\<close>
  fails, the schema is the old one with the first \<open>k\<close> pending scripts run on it, and exactly
  the remaining ones are still pending, so the next start takes up where this one
  stopped; a successful run leaves none pending, and with a working disk the only way
  not to succeed is a script that fails.
\<close>

theorem migrate_resumes:
  assumes "l = sort_key fst (filter (is_sql \<circ> fst) files)" "well_named l" "migrate sql files s = (r, s')"
  shows "\<exists>k. run_scripts sql (take k (pending l (mg_version s))) (mg_schema s) = Inr (mg_schema s') \<and>
     pending l (mg_version s') = drop k (pending l (mg_version s)) \<and>
     (r = Inr () \<longrightarrow> pending l (mg_version s') = []) \<and>
     (sound s \<longrightarrow> (\<forall>e. r = Inl e \<longrightarrow> run_scripts sql (pending l (mg_version s)) (mg_schema s) = Inl e))"
proof (cases "e_fault s (e_step s)")
  case True
  then have "r = Inl ErrDB" "s' = s\<lparr>e_step := e_step s + 1\<rparr>" "\<not> sound s"
    using assms(3) by (auto simp: migrate_def userVersion_def chk_run ext_def sound_def)
  then show ?thesis by (intro exI [of _ 0]) simp
next
  case False
  let ?s = "s\<lparr>e_step := e_step s + 1\<rparr>"
  have "mg_loop sql l (mg_version s) ?s = (r, s')"
    using assms(1,3) False by (simp add: migrate_def userVersion_def chk_run ext_def)
  from mg_loop_prefix [OF assms(2) _ this] obtain k where
    "run_scripts sql (take k (pending l (mg_version s))) (mg_schema s) = Inr (mg_schema s')"
    "pending l (mg_version s') = drop k (pending l (mg_version s))"
    "r = Inr () \<longrightarrow> length (pending l (mg_version s)) \<le> k"
    "sound s \<longrightarrow> (\<forall>e. r = Inl e \<longrightarrow> run_scripts sql (pending l (mg_version s)) (mg_schema s) = Inl e)"
    by auto
  then show ?thesis by (intro exI [of _ k]) simp
qed

text \<open>Two scripts that append to a list, on a database where neither has run.\<close>

definition demo_scripts :: "(bytes \<times> bytes) list" where
  "demo_scripts = [(str ''001_a.sql'', [1]), (str ''002_b.sql'', [2])]"

definition demo_mdb :: "bytes mdb" where
  "demo_mdb = env.extend calm_env (mdb.fields 0 [])"

lemma demo_mdb_simps: "sound demo_mdb" "mg_version demo_mdb = 0" "mg_schema demo_mdb = []"
  by (simp_all add: demo_mdb_def calm_env_def sound_def env.defs mdb.defs)

lemma demo_scripts_ok:
  "sort_key fst (filter (is_sql \<circ> fst) demo_scripts) = demo_scripts"
  "versioned demo_scripts = [(1, [1]), (2, [2])]"
  "list_all (\<lambda>x. migrationVersion (fst x) \<noteq> Inl ErrMigration) demo_scripts"
  by code_simp+

lemma demo_scripts_named: "well_named demo_scripts"
proof -
  have "\<exists>v. migrationVersion n = Inr v" if "migrationVersion n \<noteq> Inl ErrMigration" for n
    using that by (auto simp: migrationVersion_def split: option.splits if_splits)
  then show ?thesis using demo_scripts_ok(2,3) by (auto simp: well_named_def list_all_iff)
qed

lemma migrate_resumes_witness:
  "mg_schema (snd (migrate (\<lambda>x d. Inr (d @ x)) demo_scripts demo_mdb)) = [1, 2]"
proof -
  let ?x = "migrate (\<lambda>x d. Inr (d @ x)) demo_scripts demo_mdb"
  have p: "pending demo_scripts 0 = [(1, [1]), (2, [2])]" by (simp add: pending_def demo_scripts_ok(2))
  from migrate_resumes [OF demo_scripts_ok(1) [symmetric] demo_scripts_named prod.collapse [symmetric],
      of "\<lambda>x d. Inr (d @ x)" demo_mdb] obtain k
    where k: "run_scripts (\<lambda>x d. Inr (d @ x)) (take k [(1, [1]), (2, [2])]) [] = Inr (mg_schema (snd ?x))"
      "pending demo_scripts (mg_version (snd ?x)) = drop k [(1, [1]), (2, [2])]"
      "fst ?x = Inr () \<longrightarrow> pending demo_scripts (mg_version (snd ?x)) = []"
      "\<forall>e. fst ?x \<noteq> Inl e"
    by (auto simp: demo_mdb_simps p)
  then have "fst ?x = Inr ()" by (cases "fst ?x") auto
  then have "2 \<le> k" using k by auto
  then show ?thesis using k(1) by simp
qed

end
