(* ===== verification/RekeyDB.thy ===== *)
theory RekeyDB
  imports SysTables
begin

text \<open>
  Key rotation: \<open>store/rekey.go\<close> re-encrypts the sealed columns and the blobs of the file
  library, and the command \<open>cmd/rekey\<close> runs it, rotates the audit trail and writes the new
  salt. \<open>readdir\<close> is \<open>os.ReadDir\<close>: the entries of a directory (name, is a directory) of the
  given files, or nothing when there is no such directory.
\<close>

section \<open>Columns\<close>

definition reseal :: "prims \<Rightarrow> vault \<Rightarrow> vault \<Rightarrow> bytes \<Rightarrow> ('a store_scheme, bytes) prog" where
  "reseal P oldV newV v = (if v = [] then ret [] else
     case b64_decode std_alphabet v of
       None \<Rightarrow> fail ErrBase64
     | Some ct \<Rightarrow> (case Open P oldV ct of
         Inl e \<Rightarrow> fail e
       | Inr plain \<Rightarrow> chk (Seal P newV plain) (\<lambda>nct. ret (b64_encode std_alphabet nct))))"

fun reseal_all :: "prims \<Rightarrow> vault \<Rightarrow> vault \<Rightarrow> bytes list \<Rightarrow> ('a store_scheme, bytes list) prog" where
  "reseal_all P oldV newV [] = ret []"
| "reseal_all P oldV newV (v # vs) = chk (reseal P oldV newV v) (\<lambda>nv. chk (reseal_all P oldV newV vs) (\<lambda>nvs. ret (nv # nvs)))"

text \<open>A table of \<open>sealedColumns\<close>: how to read and replace it, and how to read and set its
  sealed columns in one row.\<close>

record 'r sealed =
  sc_get :: "db \<Rightarrow> 'r tbl"
  sc_put :: "'r tbl \<Rightarrow> db \<Rightarrow> db"
  sc_cols :: "'r \<Rightarrow> bytes list"
  sc_set :: "bytes list \<Rightarrow> 'r \<Rightarrow> 'r"

definition upd_sealed :: "'r sealed \<Rightarrow> int \<Rightarrow> bytes list \<Rightarrow> db \<Rightarrow> gerr + unit \<times> db" where
  "upd_sealed T i vs d = Inr ((), sc_put T (snd (tbl_update (\<lambda>j r. j = i) (sc_set T vs) (sc_get T d))) d)"

fun rekey_batch :: "prims \<Rightarrow> vault \<Rightarrow> vault \<Rightarrow> 'r sealed \<Rightarrow> (int \<times> 'r) list \<Rightarrow> ('a store_scheme, unit) prog" where
  "rekey_batch P oldV newV T [] = ret ()"
| "rekey_batch P oldV newV T ((i, r) # rest) = chk (reseal_all P oldV newV (sc_cols T r)) (\<lambda>vs.
     chk (exec (upd_sealed T i vs)) (\<lambda>_. rekey_batch P oldV newV T rest))"

definition rekeyTable :: "prims \<Rightarrow> vault \<Rightarrow> vault \<Rightarrow> 'r sealed \<Rightarrow> ('a store_scheme, unit) prog" where
  "rekeyTable P oldV newV T = chk (query (\<lambda>d. Inr (t_rows (sc_get T d)))) (rekey_batch P oldV newV T)"

definition sealed_user :: "user_row sealed" where
  "sealed_user = \<lparr>sc_get = d_user, sc_put = (\<lambda>t d. d\<lparr>d_user := t\<rparr>), sc_cols = (\<lambda>r. [u_real_name r, u_email r]),
     sc_set = (\<lambda>vs r. r\<lparr>u_real_name := vs ! 0, u_email := vs ! 1\<rparr>)\<rparr>"

definition sealed_membership :: "membership_row sealed" where
  "sealed_membership = \<lparr>sc_get = d_membership, sc_put = (\<lambda>t d. d\<lparr>d_membership := t\<rparr>), sc_cols = (\<lambda>r. [mb_note r]),
     sc_set = (\<lambda>vs r. r\<lparr>mb_note := vs ! 0\<rparr>)\<rparr>"

definition sealed_message :: "message_row sealed" where
  "sealed_message = \<lparr>sc_get = d_message, sc_put = (\<lambda>t d. d\<lparr>d_message := t\<rparr>), sc_cols = (\<lambda>r. [m_subject r, m_body r]),
     sc_set = (\<lambda>vs r. r\<lparr>m_subject := vs ! 0, m_body := vs ! 1\<rparr>)\<rparr>"

definition sealed_pm :: "pm_row sealed" where
  "sealed_pm = \<lparr>sc_get = d_pm, sc_put = (\<lambda>t d. d\<lparr>d_pm := t\<rparr>), sc_cols = (\<lambda>r. [pm_subject r, pm_body r]),
     sc_set = (\<lambda>vs r. r\<lparr>pm_subject := vs ! 0, pm_body := vs ! 1\<rparr>)\<rparr>"

definition sealed_slog :: "slog_row sealed" where
  "sealed_slog = \<lparr>sc_get = d_slog, sc_put = (\<lambda>t d. d\<lparr>d_slog := t\<rparr>), sc_cols = (\<lambda>r. [sl_detail r]),
     sc_set = (\<lambda>vs r. r\<lparr>sl_detail := vs ! 0\<rparr>)\<rparr>"

definition rekey_columns :: "prims \<Rightarrow> vault \<Rightarrow> vault \<Rightarrow> ('a store_scheme, unit) prog" where
  "rekey_columns P oldV newV =
     chk (rekeyTable P oldV newV sealed_user) (\<lambda>_.
     chk (rekeyTable P oldV newV sealed_membership) (\<lambda>_.
     chk (rekeyTable P oldV newV sealed_message) (\<lambda>_.
     chk (rekeyTable P oldV newV sealed_pm) (\<lambda>_.
     rekeyTable P oldV newV sealed_slog))))"

section \<open>Blobs, the whole, and the command\<close>

type_synonym readdir = "(bytes \<rightharpoonup> bytes) \<Rightarrow> bytes \<Rightarrow> (bytes \<times> bool) list option"

definition is_bin :: "bytes \<Rightarrow> bool" where
  "is_bin name \<longleftrightarrow> suffix (str ''.bin'') name"

fun rekey_blobs :: "prims \<Rightarrow> vault \<Rightarrow> vault \<Rightarrow> bytes \<Rightarrow> (bytes \<times> bool) list \<Rightarrow> ('a store_scheme, unit) prog" where
  "rekey_blobs P oldV newV dir [] = ret ()"
| "rekey_blobs P oldV newV dir ((name, isDir) # rest) =
     (if isDir \<or> \<not> is_bin name then rekey_blobs P oldV newV dir rest
      else let p = dir @ str ''/'' @ name in
        chk (os_ReadFile p) (\<lambda>sealed.
        chk (lift_err (Open P oldV sealed)) (\<lambda>plain.
        chk (Seal P newV plain) (\<lambda>nct.
        chk (os_WriteFile p nct) (\<lambda>_. rekey_blobs P oldV newV dir rest)))))"

definition os_ReadDir :: "readdir \<Rightarrow> bytes \<Rightarrow> ('a env_scheme, (bytes \<times> bool) list) prog" where
  "os_ReadDir ls dir = chk (ext ErrIO) (\<lambda>_ s. case ls (e_fs s) dir of None \<Rightarrow> (Inl ErrNotExist, s) | Some es \<Rightarrow> (Inr es, s))"

definition RekeyDB :: "prims \<Rightarrow> readdir \<Rightarrow> vault \<Rightarrow> vault \<Rightarrow> ('a store_scheme, unit) prog" where
  "RekeyDB P ls oldV newV s = chk (ext ErrDB) (\<lambda>_.
     chk (transact (rekey_columns P oldV newV)) (\<lambda>_.
     att (os_ReadDir ls (st_filesDir s)) (\<lambda>r. case r of
       Inl e \<Rightarrow> if e = ErrNotExist then ret () else fail e
     | Inr entries \<Rightarrow> rekey_blobs P oldV newV (st_filesDir s) entries))) s"

definition rekey_main :: "prims \<Rightarrow> readdir \<Rightarrow> bytes \<Rightarrow> bytes \<Rightarrow> bytes \<Rightarrow> bytes \<Rightarrow> ('a store_scheme, unit) prog" where
  "rekey_main P ls auditPath saltPath oldSecret newSecret =
     (if oldSecret = [] \<or> newSecret = [] \<or> oldSecret = newSecret then fail ErrNoSecret else
      chk (os_ReadFile saltPath) (\<lambda>oldSalt.
      chk (lift_err (NewVault P oldSecret oldSalt)) (\<lambda>oldV.
      chk GenerateSalt (\<lambda>newSalt.
      chk (lift_err (NewVault P newSecret newSalt)) (\<lambda>newV.
      chk (RekeyDB P ls oldV newV) (\<lambda>_.
      chk (audit_Rekey P auditPath oldV newV) (\<lambda>_.
      os_WriteFile saltPath newSalt)))))))"

section \<open>What a rotated table is\<close>

definition rekeyed_row :: "prims \<Rightarrow> vault \<Rightarrow> vault \<Rightarrow> 'r sealed \<Rightarrow> int \<times> 'r \<Rightarrow> int \<times> 'r \<Rightarrow> bool" where
  "rekeyed_row P oldV newV T x y \<longleftrightarrow> fst y = fst x \<and> (\<exists>vs. snd y = sc_set T vs (snd x) \<and>
     list_all2 (\<lambda>v v'. unseal P newV v' = unseal P oldV v) (sc_cols T (snd x)) vs)"

definition rekeyed :: "prims \<Rightarrow> vault \<Rightarrow> vault \<Rightarrow> 'r sealed \<Rightarrow> 'r tbl \<Rightarrow> 'r tbl \<Rightarrow> bool" where
  "rekeyed P oldV newV T t t' \<longleftrightarrow> t_seq t' = t_seq t \<and> list_all2 (rekeyed_row P oldV newV T) (t_rows t) (t_rows t')"

text \<open>Only the five tables with sealed columns differ, and there only the ciphertexts: each
  opens under the new key to what the old one opened to under the old key.\<close>

definition db_rekeyed :: "prims \<Rightarrow> vault \<Rightarrow> vault \<Rightarrow> db \<Rightarrow> db \<Rightarrow> bool" where
  "db_rekeyed P oldV newV d d' \<longleftrightarrow>
     d' = d\<lparr>d_user := d_user d', d_membership := d_membership d', d_message := d_message d', d_pm := d_pm d',
       d_slog := d_slog d'\<rparr> \<and>
     rekeyed P oldV newV sealed_user (d_user d) (d_user d') \<and>
     rekeyed P oldV newV sealed_membership (d_membership d) (d_membership d') \<and>
     rekeyed P oldV newV sealed_message (d_message d) (d_message d') \<and>
     rekeyed P oldV newV sealed_pm (d_pm d) (d_pm d') \<and>
     rekeyed P oldV newV sealed_slog (d_slog d) (d_slog d')"

section \<open>Columns, row by row\<close>

lemma env_same: "\<exists>k p. (s :: 'a env_scheme) = s\<lparr>e_step := k, e_rpos := p\<rparr>"
proof -
  have "s = s\<lparr>e_step := e_step s, e_rpos := e_rpos s\<rparr>" by simp
  then show ?thesis by blast
qed

lemma reseal_run:
  assumes "prims_ok P" "reseal P oldV newV v s = (Inr v', s')"
  shows "unseal P newV v' = unseal P oldV v \<and> (\<exists>k p. s' = s\<lparr>e_step := k, e_rpos := p\<rparr>)"
proof (cases "v = []")
  case True
  then have "v' = []" "s' = s" using assms(2) by (auto simp: reseal_def)
  then show ?thesis using True env_same [of s] by (simp add: unseal_def)
next
  case False
  then obtain ct plain where ct: "b64_decode std_alphabet v = Some ct" "Open P oldV ct = Inr plain"
    "chk (Seal P newV plain) (\<lambda>nct. ret (b64_encode std_alphabet nct)) s = (Inr v', s')"
    using assms(2) by (auto simp: reseal_def split: option.splits sum.splits)
  from ct(3) obtain nct where nct: "Seal P newV plain s = (Inr nct, s')" "v' = b64_encode std_alphabet nct"
    by (auto elim: chk_InrE)
  have "nct \<noteq> []" using nct(1) by (auto elim!: Seal_shape)
  then have "v' \<noteq> []" using nct(2) by (metis b64_encode_Nil std_enc.encode_inj)
  then have "unseal P newV v' = Inr plain"
    using Open_Seal [OF assms(1) nct(1)] nct(2) by (simp add: unseal_def std_enc.decode_encode)
  then show ?thesis using ct(1,2) False Seal_state [OF nct(1)] by (simp add: unseal_def)
qed

lemma reseal_total:
  assumes "sound s" "unseal P oldV v = Inr m"
  shows "\<exists>v' s'. reseal P oldV newV v s = (Inr v', s') \<and> sound s'"
proof (cases "v = []")
  case False
  then obtain ct where "b64_decode std_alphabet v = Some ct" "Open P oldV ct = Inr m"
    using assms(2) by (auto simp: unseal_def split: option.splits)
  moreover obtain nct n where "Seal P newV m s = (Inr nct, s\<lparr>e_step := e_step s + 1, e_rpos := n\<rparr>)"
    using Seal_ok [OF assms(1)] by blast
  ultimately show ?thesis using False assms(1) by (simp add: reseal_def)
qed (use assms(1) in \<open>simp add: reseal_def\<close>)

lemma reseal_all_run:
  assumes "prims_ok P" "reseal_all P oldV newV vs s = (Inr vs', s')"
  shows "list_all2 (\<lambda>v v'. unseal P newV v' = unseal P oldV v) vs vs' \<and> (\<exists>k p. s' = s\<lparr>e_step := k, e_rpos := p\<rparr>)"
  using assms(2)
proof (induction vs arbitrary: s vs')
  case Nil
  then show ?case using env_same [of s] by auto
next
  case (Cons v vs)
  from Cons.prems obtain nv s1 nvs where 1: "reseal P oldV newV v s = (Inr nv, s1)"
    "reseal_all P oldV newV vs s1 = (Inr nvs, s')" "vs' = nv # nvs"
    by (auto elim!: chk_InrE)
  obtain k p where s1: "s1 = s\<lparr>e_step := k, e_rpos := p\<rparr>" "unseal P newV nv = unseal P oldV v"
    using reseal_run [OF assms(1) 1(1)] by blast
  obtain k' p' where "s' = s1\<lparr>e_step := k', e_rpos := p'\<rparr>" "list_all2 (\<lambda>v v'. unseal P newV v' = unseal P oldV v) vs nvs"
    using Cons.IH [OF 1(2)] by blast
  then have "s' = s\<lparr>e_step := k', e_rpos := p'\<rparr>" "list_all2 (\<lambda>v v'. unseal P newV v' = unseal P oldV v) (v # vs) vs'"
    using s1 1(3) by simp_all
  then show ?case by blast
qed

lemma reseal_all_total:
  assumes "sound s" "\<forall>v \<in> set vs. \<exists>m. unseal P oldV v = Inr m"
  shows "\<exists>vs' s'. reseal_all P oldV newV vs s = (Inr vs', s') \<and> sound s'"
  using assms
proof (induction vs arbitrary: s)
  case (Cons v vs)
  obtain v' s1 where 1: "reseal P oldV newV v s = (Inr v', s1)" "sound s1"
    using reseal_total [OF Cons.prems(1)] Cons.prems(2) by (metis list.set_intros(1))
  obtain vs' s2 where "reseal_all P oldV newV vs s1 = (Inr vs', s2)" "sound s2"
    using Cons.IH [OF 1(2)] Cons.prems(2) by auto
  then show ?case using 1 by simp
qed simp

section \<open>Tables\<close>

text \<open>What \<open>rekeyTable\<close> needs of a table of \<open>sealedColumns\<close>: reading and replacing it obey the laws
  of a field of the database.\<close>

locale sealed_table =
  fixes T :: "'r sealed"
  assumes get_put: "sc_get T (sc_put T t d) = t"
    and put_put: "sc_put T t (sc_put T u d) = sc_put T t d"
    and put_get: "sc_put T (sc_get T d) d = d"
begin

lemma batch_run:
  assumes "prims_ok P" "wf_tbl \<lparr>t_rows = done @ batch, t_seq = n\<rparr>" "sc_get T (st_db s) = \<lparr>t_rows = done @ batch, t_seq = n\<rparr>"
    "rekey_batch P oldV newV T batch s = (Inr (), s')"
  shows "\<exists>k p rows. s' = s\<lparr>e_step := k, e_rpos := p, st_db := sc_put T \<lparr>t_rows = done @ rows, t_seq = n\<rparr> (st_db s)\<rparr> \<and>
     list_all2 (rekeyed_row P oldV newV T) batch rows"
  using assms(2-4)
proof (induction batch arbitrary: "done" s)
  case Nil
  have "s = s\<lparr>e_step := e_step s, e_rpos := e_rpos s, st_db := sc_put T \<lparr>t_rows = done @ [], t_seq = n\<rparr> (st_db s)\<rparr>"
    using Nil.prems(2) put_get [of "st_db s"] by simp
  then show ?case using Nil.prems(3) by (metis list_all2_Nil prod.inject rekey_batch.simps(1) ret_run)
next
  case (Cons x batch)
  obtain i r where x: "x = (i, r)" by fastforce
  from Cons.prems(3) obtain vs s1 s2 where 1: "reseal_all P oldV newV (sc_cols T r) s = (Inr vs, s1)"
    "exec (upd_sealed T i vs) s1 = (Inr (), s2)" "rekey_batch P oldV newV T batch s2 = (Inr (), s')"
    unfolding x by (auto elim!: chk_InrE)
  obtain k1 p1 where s1: "s1 = s\<lparr>e_step := k1, e_rpos := p1\<rparr>" and vals: "list_all2 (\<lambda>v v'. unseal P newV v' = unseal P oldV v) (sc_cols T r) vs"
    using reseal_all_run [OF assms(1) 1(1)] by blast
  let ?t = "\<lparr>t_rows = (done @ [(i, sc_set T vs r)]) @ batch, t_seq = n\<rparr>"
  have others: "map (\<lambda>(j, q). (j, if j = i then sc_set T vs q else q)) l = l" if "i \<notin> fst ` set l" for l
    using that by (intro map_idI) force
  have ids: "i \<notin> fst ` set done" "i \<notin> fst ` set batch"
    using wf_distinct [OF Cons.prems(1)] x by auto
  have "snd (tbl_update (\<lambda>j q. j = i) (sc_set T vs) (sc_get T (st_db s1))) = ?t"
    using Cons.prems(2) s1 x others [OF ids(1)] others [OF ids(2)] by (simp add: tbl_update_def)
  then have s2: "s2 = s1\<lparr>e_step := e_step s1 + 1, st_db := sc_put T ?t (st_db s1)\<rparr>"
    using 1(2) by (auto elim!: exec_InrD simp: upd_sealed_def)
  have get2: "sc_get T (st_db s2) = ?t" by (simp add: s2 get_put)
  have wf2: "wf_tbl ?t" using Cons.prems(1) x by (simp add: wf_tbl_def)
  from Cons.IH [OF wf2 get2 1(3)] obtain k p rows where
    ih: "s' = s2\<lparr>e_step := k, e_rpos := p, st_db := sc_put T \<lparr>t_rows = (done @ [(i, sc_set T vs r)]) @ rows, t_seq = n\<rparr> (st_db s2)\<rparr>"
      "list_all2 (rekeyed_row P oldV newV T) batch rows" by blast
  have "rekeyed_row P oldV newV T x (i, sc_set T vs r)" using vals by (auto simp: rekeyed_row_def x)
  then have "list_all2 (rekeyed_row P oldV newV T) (x # batch) ((i, sc_set T vs r) # rows)" using ih(2) by simp
  moreover have "s' = s\<lparr>e_step := k, e_rpos := p, st_db := sc_put T \<lparr>t_rows = done @ (i, sc_set T vs r) # rows, t_seq = n\<rparr> (st_db s)\<rparr>"
    using ih(1) by (simp add: s2 s1 put_put)
  ultimately show ?case by blast
qed

lemma table_run:
  assumes "prims_ok P" "wf_tbl (sc_get T (st_db s))" "rekeyTable P oldV newV T s = (Inr (), s')"
  shows "\<exists>k p t. s' = s\<lparr>e_step := k, e_rpos := p, st_db := sc_put T t (st_db s)\<rparr> \<and>
     rekeyed P oldV newV T (sc_get T (st_db s)) t"
proof -
  let ?s = "s\<lparr>e_step := e_step s + 1\<rparr>"
  let ?t = "sc_get T (st_db s)"
  have run: "rekey_batch P oldV newV T (t_rows ?t) ?s = (Inr (), s')"
    using assms(3) unfolding rekeyTable_def by (auto elim!: chk_InrE dest!: query_InrD)
  have wf: "wf_tbl \<lparr>t_rows = [] @ t_rows ?t, t_seq = t_seq ?t\<rparr>" using assms(2) by (simp add: wf_tbl_def)
  have get: "sc_get T (st_db ?s) = \<lparr>t_rows = [] @ t_rows ?t, t_seq = t_seq ?t\<rparr>" by simp
  from batch_run [OF assms(1) wf get run] obtain k p rows
    where "s' = ?s\<lparr>e_step := k, e_rpos := p, st_db := sc_put T \<lparr>t_rows = [] @ rows, t_seq = t_seq ?t\<rparr> (st_db ?s)\<rparr>"
      "list_all2 (rekeyed_row P oldV newV T) (t_rows ?t) rows" by blast
  then have "s' = s\<lparr>e_step := k, e_rpos := p, st_db := sc_put T \<lparr>t_rows = rows, t_seq = t_seq ?t\<rparr> (st_db s)\<rparr>"
    "rekeyed P oldV newV T ?t \<lparr>t_rows = rows, t_seq = t_seq ?t\<rparr>" by (simp_all add: rekeyed_def)
  then show ?thesis by blast
qed

lemma batch_total:
  assumes "sound s" "\<forall>x \<in> set batch. \<forall>v \<in> set (sc_cols T (snd x)). \<exists>m. unseal P oldV v = Inr m"
  shows "\<exists>s'. rekey_batch P oldV newV T batch s = (Inr (), s') \<and> sound s'"
  using assms
proof (induction batch arbitrary: s)
  case (Cons x batch)
  obtain i r where x: "x = (i, r)" by fastforce
  obtain vs s1 where 1: "reseal_all P oldV newV (sc_cols T r) s = (Inr vs, s1)" "sound s1"
    using reseal_all_total [OF Cons.prems(1), of "sc_cols T r"] Cons.prems(2) x by (metis list.set_intros(1) snd_conv)
  let ?s2 = "s1\<lparr>e_step := e_step s1 + 1, st_db := sc_put T (snd (tbl_update (\<lambda>j q. j = i) (sc_set T vs) (sc_get T (st_db s1)))) (st_db s1)\<rparr>"
  have 2: "exec (upd_sealed T i vs) s1 = (Inr (), ?s2)" "sound ?s2"
    using 1(2) by (simp_all add: exec_ok upd_sealed_def)
  obtain s' where "rekey_batch P oldV newV T batch ?s2 = (Inr (), s')" "sound s'"
    using Cons.IH [OF 2(2)] Cons.prems(2) by auto
  then show ?case using x 1 2 by simp
qed simp

lemma table_total:
  assumes "sound s" "all_rows (\<lambda>r. \<forall>v \<in> set (sc_cols T r). \<exists>m. unseal P oldV v = Inr m) (sc_get T (st_db s))"
  shows "\<exists>s'. rekeyTable P oldV newV T s = (Inr (), s') \<and> sound s'"
  using batch_total [of "s\<lparr>e_step := e_step s + 1\<rparr>" "t_rows (sc_get T (st_db s))" P oldV newV] assms
  by (auto simp: rekeyTable_def query_ok all_rows_def)

end

interpretation t_user: sealed_table sealed_user
  by unfold_locales (simp_all add: sealed_user_def)

interpretation t_membership: sealed_table sealed_membership
  by unfold_locales (simp_all add: sealed_membership_def)

interpretation t_message: sealed_table sealed_message
  by unfold_locales (simp_all add: sealed_message_def)

interpretation t_pm: sealed_table sealed_pm
  by unfold_locales (simp_all add: sealed_pm_def)

interpretation t_slog: sealed_table sealed_slog
  by unfold_locales (simp_all add: sealed_slog_def)

section \<open>The columns in one transaction\<close>

lemmas sealed_defs = sealed_user_def sealed_membership_def sealed_message_def sealed_pm_def sealed_slog_def

lemma sealed_simps [simp]:
  "sc_get sealed_user = d_user" "sc_put sealed_user t1 d = d\<lparr>d_user := t1\<rparr>"
  "sc_get sealed_membership = d_membership" "sc_put sealed_membership t2 d = d\<lparr>d_membership := t2\<rparr>"
  "sc_get sealed_message = d_message" "sc_put sealed_message t3 d = d\<lparr>d_message := t3\<rparr>"
  "sc_get sealed_pm = d_pm" "sc_put sealed_pm t4 d = d\<lparr>d_pm := t4\<rparr>"
  "sc_get sealed_slog = d_slog" "sc_put sealed_slog t5 d = d\<lparr>d_slog := t5\<rparr>"
  by (simp_all add: sealed_defs)

lemma rekey_columns_run:
  assumes "prims_ok P" "db_inv (st_db s)" "rekey_columns P oldV newV s = (Inr (), s')"
  shows "db_rekeyed P oldV newV (st_db s) (st_db s') \<and> (\<exists>k p. s' = s\<lparr>e_step := k, e_rpos := p, st_db := st_db s'\<rparr>)"
proof -
  let ?d = "st_db s"
  from assms(3) obtain s1 s2 s3 s4 where
    r: "rekeyTable P oldV newV sealed_user s = (Inr (), s1)" "rekeyTable P oldV newV sealed_membership s1 = (Inr (), s2)"
      "rekeyTable P oldV newV sealed_message s2 = (Inr (), s3)" "rekeyTable P oldV newV sealed_pm s3 = (Inr (), s4)"
      "rekeyTable P oldV newV sealed_slog s4 = (Inr (), s')"
    unfolding rekey_columns_def by (auto elim!: chk_InrE)
  have wf: "wf_tbl (d_user ?d)" "wf_tbl (d_membership ?d)" "wf_tbl (d_message ?d)" "wf_tbl (d_pm ?d)" "wf_tbl (d_slog ?d)"
    using assms(2) by (simp_all add: db_inv_def inv_wf_def)
  obtain k1 p1 t1 where 1: "s1 = s\<lparr>e_step := k1, e_rpos := p1, st_db := ?d\<lparr>d_user := t1\<rparr>\<rparr>"
    "rekeyed P oldV newV sealed_user (d_user ?d) t1"
    using t_user.table_run [OF assms(1) _ r(1)] wf(1) by auto
  obtain k2 p2 t2 where 2: "s2 = s\<lparr>e_step := k2, e_rpos := p2, st_db := ?d\<lparr>d_user := t1, d_membership := t2\<rparr>\<rparr>"
    "rekeyed P oldV newV sealed_membership (d_membership ?d) t2"
    using t_membership.table_run [OF assms(1) _ r(2)] wf(2) by (auto simp: 1(1))
  obtain k3 p3 t3 where 3: "s3 = s\<lparr>e_step := k3, e_rpos := p3, st_db := ?d\<lparr>d_user := t1, d_membership := t2, d_message := t3\<rparr>\<rparr>"
    "rekeyed P oldV newV sealed_message (d_message ?d) t3"
    using t_message.table_run [OF assms(1) _ r(3)] wf(3) by (auto simp: 2(1))
  obtain k4 p4 t4 where 4: "s4 = s\<lparr>e_step := k4, e_rpos := p4,
      st_db := ?d\<lparr>d_user := t1, d_membership := t2, d_message := t3, d_pm := t4\<rparr>\<rparr>"
    "rekeyed P oldV newV sealed_pm (d_pm ?d) t4"
    using t_pm.table_run [OF assms(1) _ r(4)] wf(4) by (auto simp: 3(1))
  obtain k5 p5 t5 where 5: "s' = s\<lparr>e_step := k5, e_rpos := p5,
      st_db := ?d\<lparr>d_user := t1, d_membership := t2, d_message := t3, d_pm := t4, d_slog := t5\<rparr>\<rparr>"
    "rekeyed P oldV newV sealed_slog (d_slog ?d) t5"
    using t_slog.table_run [OF assms(1) _ r(5)] wf(5) by (auto simp: 4(1))
  have "db_rekeyed P oldV newV ?d (st_db s')"
    using 1(2) 2(2) 3(2) 4(2) 5 by (simp add: db_rekeyed_def)
  moreover have "s' = s\<lparr>e_step := k5, e_rpos := p5, st_db := st_db s'\<rparr>" using 5(1) by simp
  ultimately show ?thesis by blast
qed

text \<open>Every sealed column opens under the key.\<close>

definition db_opens :: "prims \<Rightarrow> vault \<Rightarrow> db \<Rightarrow> bool" where
  "db_opens P v d \<longleftrightarrow> (let ok = (\<lambda>vs. \<forall>x \<in> set vs. \<exists>m. unseal P v x = Inr m) in
     all_rows (\<lambda>r. ok (sc_cols sealed_user r)) (d_user d) \<and> all_rows (\<lambda>r. ok (sc_cols sealed_membership r)) (d_membership d) \<and>
     all_rows (\<lambda>r. ok (sc_cols sealed_message r)) (d_message d) \<and> all_rows (\<lambda>r. ok (sc_cols sealed_pm r)) (d_pm d) \<and>
     all_rows (\<lambda>r. ok (sc_cols sealed_slog r)) (d_slog d))"

lemma rekeyTable_sound:
  assumes "prims_ok P" "sealed_table T" "sound s" "wf_tbl (sc_get T (st_db s))"
    "all_rows (\<lambda>r. \<forall>v \<in> set (sc_cols T r). \<exists>m. unseal P oldV v = Inr m) (sc_get T (st_db s))"
  shows "\<exists>k p t. rekeyTable P oldV newV T s = (Inr (), s\<lparr>e_step := k, e_rpos := p, st_db := sc_put T t (st_db s)\<rparr>)"
proof -
  obtain s' where "rekeyTable P oldV newV T s = (Inr (), s')"
    using sealed_table.table_total [OF assms(2,3,5), of newV] by blast
  with sealed_table.table_run [OF assms(2,1,4) this] show ?thesis by blast
qed

lemma rekey_columns_total:
  assumes "prims_ok P" "sound s" "db_inv (st_db s)" "db_opens P oldV (st_db s)"
  shows "\<exists>s'. rekey_columns P oldV newV s = (Inr (), s') \<and> sound s'"
proof -
  let ?d = "st_db s"
  note T = t_user.sealed_table_axioms t_membership.sealed_table_axioms t_message.sealed_table_axioms
    t_pm.sealed_table_axioms t_slog.sealed_table_axioms
  have wf: "wf_tbl (d_user ?d)" "wf_tbl (d_membership ?d)" "wf_tbl (d_message ?d)" "wf_tbl (d_pm ?d)" "wf_tbl (d_slog ?d)"
    using assms(3) by (simp_all add: db_inv_def inv_wf_def)
  note op = assms(4) [unfolded db_opens_def Let_def]
  obtain k1 p1 t1 where 1: "rekeyTable P oldV newV sealed_user s
      = (Inr (), s\<lparr>e_step := k1, e_rpos := p1, st_db := sc_put sealed_user t1 ?d\<rparr>)"
    using rekeyTable_sound [OF assms(1) T(1) assms(2), of oldV newV] wf op by auto
  let ?s1 = "s\<lparr>e_step := k1, e_rpos := p1, st_db := sc_put sealed_user t1 ?d\<rparr>"
  obtain k2 p2 t2 where 2: "rekeyTable P oldV newV sealed_membership ?s1
      = (Inr (), ?s1\<lparr>e_step := k2, e_rpos := p2, st_db := sc_put sealed_membership t2 (st_db ?s1)\<rparr>)"
    using rekeyTable_sound [OF assms(1) T(2), of ?s1 oldV newV] assms(2) wf op by auto
  let ?s2 = "?s1\<lparr>e_step := k2, e_rpos := p2, st_db := sc_put sealed_membership t2 (st_db ?s1)\<rparr>"
  obtain k3 p3 t3 where 3: "rekeyTable P oldV newV sealed_message ?s2
      = (Inr (), ?s2\<lparr>e_step := k3, e_rpos := p3, st_db := sc_put sealed_message t3 (st_db ?s2)\<rparr>)"
    using rekeyTable_sound [OF assms(1) T(3), of ?s2 oldV newV] assms(2) wf op by auto
  let ?s3 = "?s2\<lparr>e_step := k3, e_rpos := p3, st_db := sc_put sealed_message t3 (st_db ?s2)\<rparr>"
  obtain k4 p4 t4 where 4: "rekeyTable P oldV newV sealed_pm ?s3
      = (Inr (), ?s3\<lparr>e_step := k4, e_rpos := p4, st_db := sc_put sealed_pm t4 (st_db ?s3)\<rparr>)"
    using rekeyTable_sound [OF assms(1) T(4), of ?s3 oldV newV] assms(2) wf op by auto
  let ?s4 = "?s3\<lparr>e_step := k4, e_rpos := p4, st_db := sc_put sealed_pm t4 (st_db ?s3)\<rparr>"
  obtain k5 p5 t5 where 5: "rekeyTable P oldV newV sealed_slog ?s4
      = (Inr (), ?s4\<lparr>e_step := k5, e_rpos := p5, st_db := sc_put sealed_slog t5 (st_db ?s4)\<rparr>)"
    using rekeyTable_sound [OF assms(1) T(5), of ?s4 oldV newV] assms(2) wf op by auto
  show ?thesis
    unfolding rekey_columns_def using assms(2) by (simp add: chk_run 1 2 [simplified] 3 [simplified] 4 [simplified] 5 [simplified])
qed

section \<open>Blobs\<close>

interpretation same: db_frame "(=)"
  by unfold_locales auto

lemma rekey_blobs_steps: "steps same.dbR (rekey_blobs P oldV newV dir es)"
proof (induction es)
  case (Cons e es)
  obtain name isDir where e: "e = (name, isDir)" by fastforce
  show ?case unfolding e rekey_blobs.simps by (intro same.db_rules Cons.IH)
next
  case Nil
  show ?case unfolding rekey_blobs.simps by (rule same.steps_ret)
qed

lemma rekey_blobs_db: "st_db (snd (rekey_blobs P oldV newV dir es s)) = st_db s"
  using rekey_blobs_steps [of P oldV newV dir es] unfolding steps_def same.dbR_def by metis

lemma Seal_fs: "Seal P v m s = (r, s') \<Longrightarrow> e_fs s' = e_fs s \<and> sound s' = sound s"
  by (drule Seal_state) auto

lemma ReadFile_fs: "os_ReadFile p s = (r, s') \<Longrightarrow> e_fs s' = e_fs s \<and> (\<forall>c. r = Inr c \<longrightarrow> e_fs s p = Some c)"
  by (auto simp: os_ReadFile_def chk_run ext_def split: if_splits option.splits)

lemma WriteFile_fs: "os_WriteFile p c s = (r, s') \<Longrightarrow>
    (\<forall>q. q \<noteq> p \<longrightarrow> e_fs s' q = e_fs s q) \<and> (r = Inr () \<longrightarrow> e_fs s' p = Some c)"
  by (auto simp: os_WriteFile_def Let_def split: if_splits option.splits)

definition blob_paths :: "bytes \<Rightarrow> (bytes \<times> bool) list \<Rightarrow> bytes list" where
  "blob_paths dir es = map (\<lambda>(n, d). dir @ str ''/'' @ n) (filter (\<lambda>(n, d). \<not> d \<and> is_bin n) es)"

lemma blob_paths_Cons:
  "d \<or> \<not> is_bin n \<Longrightarrow> blob_paths dir ((n, d) # es) = blob_paths dir es"
  "\<not> (d \<or> \<not> is_bin n) \<Longrightarrow> blob_paths dir ((n, d) # es) = (dir @ str ''/'' @ n) # blob_paths dir es"
  by (auto simp: blob_paths_def)

lemma rekey_blobs_other: "q \<notin> set (blob_paths dir es) \<Longrightarrow> e_fs (snd (rekey_blobs P oldV newV dir es s)) q = e_fs s q"
proof (induction es arbitrary: s)
  case (Cons e es)
  obtain name isDir where e: "e = (name, isDir)" by fastforce
  let ?p = "dir @ str ''/'' @ name"
  show ?case
  proof (cases "isDir \<or> \<not> is_bin name")
    case False
    have q: "q \<noteq> ?p" "q \<notin> set (blob_paths dir es)" using Cons.prems False by (simp_all add: blob_paths_Cons e)
    obtain r1 s1 where 1: "os_ReadFile ?p s = (r1, s1)" by fastforce
    show ?thesis
    proof (cases r1)
      case Inr1: (Inr c)
      show ?thesis
      proof (cases "Open P oldV c")
        case Inr2: (Inr plain)
        obtain r3 s3 where 3: "Seal P newV plain s1 = (r3, s3)" by fastforce
        show ?thesis
        proof (cases r3)
          case Inr3: (Inr nct)
          obtain r4 s4 where 4: "os_WriteFile ?p nct s3 = (r4, s4)" by fastforce
          have "e_fs s4 q = e_fs s q"
            using ReadFile_fs [OF 1] Seal_fs [OF 3] WriteFile_fs [OF 4] q(1) by simp
          then show ?thesis
            using e False 1 Inr1 Inr2 3 Inr3 4 Cons.IH [OF q(2), of s4] by (cases r4) (simp_all add: Let_def)
        qed (use e False 1 Inr1 Inr2 3 ReadFile_fs [OF 1] Seal_fs [OF 3] in \<open>simp add: Let_def\<close>)
      qed (use e False 1 Inr1 ReadFile_fs [OF 1] in \<open>simp add: Let_def\<close>)
    qed (use e False 1 ReadFile_fs [OF 1] in \<open>simp add: Let_def\<close>)
  qed (use Cons e in \<open>simp add: blob_paths_Cons\<close>)
qed simp

lemma rekey_blobs_run:
  assumes "prims_ok P" "distinct (blob_paths dir es)" "rekey_blobs P oldV newV dir es s = (Inr (), s')"
    "q \<in> set (blob_paths dir es)"
  shows "\<exists>c c' m. e_fs s q = Some c \<and> e_fs s' q = Some c' \<and> Open P oldV c = Inr m \<and> Open P newV c' = Inr m"
  using assms(2-4)
proof (induction es arbitrary: s)
  case (Cons e es)
  obtain name isDir where e: "e = (name, isDir)" by fastforce
  let ?p = "dir @ str ''/'' @ name"
  show ?case
  proof (cases "isDir \<or> \<not> is_bin name")
    case False
    have bp: "blob_paths dir (e # es) = ?p # blob_paths dir es" using False by (simp add: blob_paths_Cons e)
    obtain c s1 plain nct s3 s4 where
      1: "os_ReadFile ?p s = (Inr c, s1)" "Open P oldV c = Inr plain" "Seal P newV plain s1 = (Inr nct, s3)"
        "os_WriteFile ?p nct s3 = (Inr (), s4)" "rekey_blobs P oldV newV dir es s4 = (Inr (), s')"
      using Cons.prems(2) False by (auto simp: e Let_def elim!: chk_InrE)
    have fs: "e_fs s ?p = Some c" "e_fs s4 ?p = Some nct" "\<And>q. q \<noteq> ?p \<Longrightarrow> e_fs s4 q = e_fs s q"
      using ReadFile_fs [OF 1(1)] Seal_fs [OF 1(3)] WriteFile_fs [OF 1(4)] by auto
    show ?thesis
    proof (cases "q = ?p")
      case True
      have "?p \<notin> set (blob_paths dir es)" using Cons.prems(1) bp by simp
      then have "e_fs s' ?p = Some nct"
        using rekey_blobs_other [of ?p dir es P oldV newV s4] 1(5) fs(2) by simp
      then show ?thesis using True fs(1) 1(2) Open_Seal [OF assms(1) 1(3)] by simp
    next
      case False
      then have q: "q \<in> set (blob_paths dir es)" using Cons.prems(3) bp by simp
      show ?thesis using Cons.IH [OF _ 1(5) q] Cons.prems(1) bp fs(3) [OF False] by simp
    qed
  next
    case True
    have bp: "blob_paths dir (e # es) = blob_paths dir es" unfolding e by (rule blob_paths_Cons(1) [OF True])
    have run: "rekey_blobs P oldV newV dir es s = (Inr (), s')" using Cons.prems(2) True by (simp add: e)
    show ?thesis by (rule Cons.IH [OF Cons.prems(1) [unfolded bp] run Cons.prems(3) [unfolded bp]])
  qed
qed (simp add: blob_paths_def)

section \<open>The whole rotation\<close>

text \<open>The columns leave the files alone, also when they fail.\<close>

definition fsR :: "'a store_scheme \<Rightarrow> 'a store_scheme \<Rightarrow> bool" where
  "fsR s s' \<longleftrightarrow> e_fs s' = e_fs s"

interpretation fs: frame_rel fsR
  by unfold_locales (auto simp: fsR_def)

lemma fs_steps: "steps fsR (Seal P v m)" "steps fsR (query q)" "steps fsR (exec f)"
proof -
  have "fsR s (snd (Seal P v m s))" for s :: "'a store_scheme"
    using Seal_fs [of P v m s "fst (Seal P v m s)" "snd (Seal P v m s)"] by (simp add: fsR_def)
  then show "steps fsR (Seal P v m :: ('a store_scheme, bytes) prog)" by (simp add: steps_def)
  show "steps fsR (query q)" by (simp add: steps_def fsR_def query_def chk_run ext_def)
  show "steps fsR (exec f)" by (simp add: steps_def fsR_def exec_def chk_run ext_def split: sum.splits prod.splits)
qed

lemma reseal_all_fs: "steps fsR (reseal_all P oldV newV vs)"
proof (induction vs)
  case (Cons v vs)
  show ?case unfolding reseal_all.simps reseal_def by (intro fs.steps_rules fs_steps Cons.IH)
next
  case Nil
  show ?case unfolding reseal_all.simps by (rule fs.steps_ret)
qed

lemma rekey_batch_fs: "steps fsR (rekey_batch P oldV newV T l)"
proof (induction l)
  case (Cons x l)
  obtain i r where x: "x = (i, r)" by fastforce
  show ?case unfolding x rekey_batch.simps by (intro fs.steps_rules fs_steps reseal_all_fs Cons.IH)
next
  case Nil
  show ?case unfolding rekey_batch.simps by (rule fs.steps_ret)
qed

lemma rekey_columns_fs: "steps fsR (rekey_columns P oldV newV)"
  unfolding rekey_columns_def rekeyTable_def by (intro fs.steps_rules fs_steps rekey_batch_fs)

lemma transact_fs: "steps fsR m \<Longrightarrow> e_fs (snd (transact m s)) = e_fs s"
proof -
  assume m: "steps fsR m"
  obtain r1 s1 where run: "m (s\<lparr>e_step := e_step s + 1\<rparr>) = (r1, s1)" by fastforce
  have "fsR (s\<lparr>e_step := e_step s + 1\<rparr>) (snd (m (s\<lparr>e_step := e_step s + 1\<rparr>)))"
    using m unfolding steps_def by (rule spec)
  then have "e_fs s1 = e_fs s" using run by (simp add: fsR_def)
  then show ?thesis using run by (cases r1) (simp_all add: transact_def chk_run ext_def)
qed

lemma transact_cases:
  assumes "transact m s = (r, s')"
  obtains (undone) e where "r = Inl e" "st_db s' = st_db s"
  | (committed) x s1 where "m (s\<lparr>e_step := e_step s + 1\<rparr>) = (Inr x, s1)" "r = Inr x" "s' = s1\<lparr>e_step := e_step s1 + 1\<rparr>"
proof (cases "e_fault s (e_step s)")
  case True
  then show thesis using undone assms by (auto simp: transact_def chk_run ext_def)
next
  case False
  obtain r1 s1 where m: "m (s\<lparr>e_step := e_step s + 1\<rparr>) = (r1, s1)" by fastforce
  show thesis
  proof (cases r1)
    case (Inl e)
    then show thesis using undone assms m False by (auto simp: transact_def chk_run ext_def)
  next
    case (Inr x)
    then show thesis
      using undone committed assms m False
      by (cases "e_fault s1 (e_step s1)") (auto simp: transact_def chk_run ext_def)
  qed
qed

lemma blobs_stage:
  assumes "att (os_ReadDir ls dir) (\<lambda>r. case r of Inl e \<Rightarrow> if e = ErrNotExist then ret () else fail e
     | Inr entries \<Rightarrow> rekey_blobs P oldV newV dir entries) s = (r, s')"
  shows "st_db s' = st_db s \<and> (\<forall>es. ls (e_fs s) dir = Some es \<longrightarrow>
     (\<forall>q. q \<notin> set (blob_paths dir es) \<longrightarrow> e_fs s' q = e_fs s q) \<and>
     (r = Inr () \<longrightarrow> (\<exists>k. rekey_blobs P oldV newV dir es (s\<lparr>e_step := k\<rparr>) = (Inr (), s'))))"
proof (cases "e_fault s (e_step s)")
  case True
  then show ?thesis using assms by (auto simp: att_run os_ReadDir_def chk_run ext_def)
next
  case False
  show ?thesis
  proof (cases "ls (e_fs s) dir")
    case None
    then show ?thesis using assms False by (auto simp: att_run os_ReadDir_def chk_run ext_def)
  next
    case (Some es)
    let ?s = "s\<lparr>e_step := e_step s + 1\<rparr>"
    have run: "rekey_blobs P oldV newV dir es ?s = (r, s')"
      using assms False Some by (simp add: att_run os_ReadDir_def chk_run ext_def)
    then have "st_db s' = st_db s" using rekey_blobs_db [of P oldV newV dir es ?s] by simp
    moreover have "e_fs s' q = e_fs s q" if "q \<notin> set (blob_paths dir es)" for q
      using rekey_blobs_other [OF that, of P oldV newV ?s] run by simp
    ultimately show ?thesis using run Some by auto
  qed
qed

lemma rekey_atomic_run:
  assumes "prims_ok P" "db_inv (st_db s)" "ls (e_fs s) (st_filesDir s) = Some es"
    "distinct (blob_paths (st_filesDir s) es)" "RekeyDB P ls oldV newV s = (r, s')"
  shows "(st_db s' = st_db s \<and> r \<noteq> Inr () \<or> db_rekeyed P oldV newV (st_db s) (st_db s')) \<and>
    (\<forall>q. q \<notin> set (blob_paths (st_filesDir s) es) \<longrightarrow> e_fs s' q = e_fs s q) \<and>
    (r = Inr () \<longrightarrow> (\<forall>q \<in> set (blob_paths (st_filesDir s) es). \<exists>c c' m. e_fs s q = Some c \<and> e_fs s' q = Some c' \<and>
       Open P oldV c = Inr m \<and> Open P newV c' = Inr m))"
proof (cases "e_fault s (e_step s)")
  case True
  then show ?thesis using assms(5) by (auto simp: RekeyDB_def chk_run ext_def)
next
  case False
  let ?s = "s\<lparr>e_step := e_step s + 1\<rparr>" and ?dir = "st_filesDir s"
  obtain r1 s1 where tr: "transact (rekey_columns P oldV newV) ?s = (r1, s1)" by fastforce
  have fs1: "e_fs s1 = e_fs s" using transact_fs [OF rekey_columns_fs, of P oldV newV ?s] tr by simp
  from tr show ?thesis
  proof (cases rule: transact_cases)
    case (undone e)
    then have "r = Inl e" "s' = s1" using assms(5) False tr by (simp_all add: RekeyDB_def chk_run ext_def)
    then show ?thesis using undone fs1 by simp
  next
    case (committed x s2)
    have run: "rekey_columns P oldV newV (?s\<lparr>e_step := e_step ?s + 1\<rparr>) = (Inr (), s2)" using committed(1) by simp
    have db: "db_rekeyed P oldV newV (st_db s) (st_db s1)"
      using rekey_columns_run [OF assms(1) _ run] assms(2) committed(3) by simp
    have "att (os_ReadDir ls ?dir) (\<lambda>r. case r of Inl e \<Rightarrow> if e = ErrNotExist then ret () else fail e
        | Inr entries \<Rightarrow> rekey_blobs P oldV newV ?dir entries) s1 = (r, s')"
      using assms(5) False tr committed(2) by (simp add: RekeyDB_def chk_run ext_def)
    from blobs_stage [OF this] have "st_db s' = st_db s1"
      and other: "\<And>q. q \<notin> set (blob_paths ?dir es) \<Longrightarrow> e_fs s' q = e_fs s1 q"
      and blobs: "r = Inr () \<longrightarrow> (\<exists>k. rekey_blobs P oldV newV ?dir es (s1\<lparr>e_step := k\<rparr>) = (Inr (), s'))"
      using assms(3) fs1 by simp_all
    moreover have "\<exists>c c' m. e_fs s q = Some c \<and> e_fs s' q = Some c' \<and> Open P oldV c = Inr m \<and> Open P newV c' = Inr m"
      if rok: "r = Inr ()" and q: "q \<in> set (blob_paths ?dir es)" for q
    proof -
      obtain k where "rekey_blobs P oldV newV ?dir es (s1\<lparr>e_step := k\<rparr>) = (Inr (), s')" using blobs rok by blast
      from rekey_blobs_run [OF assms(1,4) this q] show ?thesis using fs1 by simp
    qed
    ultimately show ?thesis using db fs1 by simp
  qed
qed

lemma RekeyDB_commits:
  assumes "prims_ok P" "sound s" "db_inv (st_db s)" "db_opens P oldV (st_db s)" "RekeyDB P ls oldV newV s = (r, s')"
  shows "db_rekeyed P oldV newV (st_db s) (st_db s')"
proof -
  let ?s = "s\<lparr>e_step := e_step s + 2\<rparr>"
  have snd: "sound ?s" "db_inv (st_db ?s)" "db_opens P oldV (st_db ?s)" using assms(2-4) by simp_all
  obtain s1 where cols: "rekey_columns P oldV newV ?s = (Inr (), s1)" "sound s1"
    using rekey_columns_total [OF assms(1) snd] by blast
  let ?s1 = "s1\<lparr>e_step := e_step s1 + 1\<rparr>"
  have "transact (rekey_columns P oldV newV) (s\<lparr>e_step := e_step s + 1\<rparr>) = (Inr (), ?s1)"
    using cols assms(2) by (simp add: transact_def ext_ok chk_run numeral_2_eq_2)
  then have "att (os_ReadDir ls (st_filesDir s)) (\<lambda>r. case r of Inl e \<Rightarrow> if e = ErrNotExist then ret () else fail e
      | Inr entries \<Rightarrow> rekey_blobs P oldV newV (st_filesDir s) entries) ?s1 = (r, s')"
    using assms(2,5) by (simp add: RekeyDB_def chk_run ext_ok)
  from blobs_stage [OF this] have "st_db s' = st_db s1" by simp
  then show ?thesis using rekey_columns_run [OF assms(1) _ cols(1)] assms(3) by simp
qed

text \<open>
  C10: key rotation of the database is all or nothing. However \<open>RekeyDB\<close> fails, the database is
  either untouched or rotated completely: the same rows, every sealed column opening
  under the new key to what it held under the old one. If it succeeds the database is
  rotated, and so is every blob of the file library. No other file is touched.
\<close>

theorem rekey_atomic:
  assumes "prims_ok P" "db_inv (st_db s)" "ls (e_fs s) (st_filesDir s) = Some es"
    "distinct (blob_paths (st_filesDir s) es)" "RekeyDB P ls oldV newV s = (r, s')"
  shows "(st_db s' = st_db s \<and> r \<noteq> Inr () \<or> db_rekeyed P oldV newV (st_db s) (st_db s')) \<and>
    (\<forall>q. q \<notin> set (blob_paths (st_filesDir s) es) \<longrightarrow> e_fs s' q = e_fs s q) \<and>
    (r = Inr () \<longrightarrow> (\<forall>q \<in> set (blob_paths (st_filesDir s) es). \<exists>c c' m. e_fs s q = Some c \<and> e_fs s' q = Some c' \<and>
       Open P oldV c = Inr m \<and> Open P newV c' = Inr m))"
  using assms by (rule rekey_atomic_run)

text \<open>
  C11: a blob that does not open strands the database. With a working disk and a database
  that opens under the old key, let one blob of the file library not open (a damaged or
  half-written file). Then the command fails after the database has been rotated: every
  column is sealed under a key derived from the new secret and a salt that was never
  written, the salt file still holds the old salt, and no other file changed.
\<close>

theorem rekey_bad_blob_strands:
  assumes "prims_ok P" "sound s" "db_inv (st_db s)" "oldSecret \<noteq> []" "newSecret \<noteq> []" "oldSecret \<noteq> newSecret"
    "e_fs s saltPath = Some oldSalt" "NewVault P oldSecret oldSalt = Inr oldV" "db_opens P oldV (st_db s)"
    "ls (e_fs s) (st_filesDir s) = Some es" "distinct (blob_paths (st_filesDir s) es)"
    "saltPath \<notin> set (blob_paths (st_filesDir s) es)"
    "q \<in> set (blob_paths (st_filesDir s) es)" "e_fs s q = Some bad" "Open P oldV bad = Inl e"
  shows "\<exists>err s' newSalt newV. rekey_main P ls auditPath saltPath oldSecret newSecret s = (Inl err, s') \<and>
    NewVault P newSecret newSalt = Inr newV \<and> db_rekeyed P oldV newV (st_db s) (st_db s') \<and>
    (\<forall>f. f \<notin> set (blob_paths (st_filesDir s) es) \<longrightarrow> e_fs s' f = e_fs s f) \<and> e_fs s' saltPath = Some oldSalt"
proof -
  define newSalt where "newSalt = map (e_rand s) [e_rpos s ..< e_rpos s + saltLen]"
  have "length newSalt = saltLen" by (simp add: newSalt_def)
  then obtain newV where newV: "NewVault P newSecret newSalt = Inr newV"
    using assms(5) by (simp add: NewVault_def Let_def)
  let ?s = "s\<lparr>e_step := e_step s + 2, e_rpos := e_rpos s + saltLen\<rparr>"
  have fs: "e_fs ?s = e_fs s" "st_db ?s = st_db s" "st_filesDir ?s = st_filesDir s" "sound ?s" using assms(2) by simp_all
  obtain r s' where run: "RekeyDB P ls oldV newV ?s = (r, s')" by fastforce
  have inv: "db_inv (st_db ?s)" and ls: "ls (e_fs ?s) (st_filesDir ?s) = Some es"
    and dist: "distinct (blob_paths (st_filesDir ?s) es)" using assms(3,10,11) by simp_all
  note atomic = rekey_atomic_run [OF assms(1) inv ls dist run]
  have bad: "r \<noteq> Inr ()"
  proof
    assume "r = Inr ()"
    then have "\<exists>m. Open P oldV bad = Inr m" using atomic assms(13,14) by auto
    then show False using assms(15) by simp
  qed
  have "db_rekeyed P oldV newV (st_db s) (st_db s')"
    using RekeyDB_commits [OF assms(1) fs(4) inv _ run] assms(9) by simp
  moreover obtain err where err: "r = Inl err" using bad by (cases r) auto
  moreover have "rekey_main P ls auditPath saltPath oldSecret newSecret s = (Inl err, s')"
    using assms(2,4-8) newV run err
    by (simp add: rekey_main_def chk_run os_ReadFile_ok GenerateSalt_def rand_Read_ok newSalt_def [symmetric] numeral_2_eq_2)
  ultimately show ?thesis
    using newV atomic assms(7,12) by (intro exI [of _ err] exI [of _ s'] exI [of _ newSalt] exI [of _ newV]) auto
qed

text \<open>A board with an empty, hence unreadable, blob.\<close>

definition rekey_store :: store where
  "rekey_store = (calm_store demo_db)\<lparr>e_fs := [str ''salt'' \<mapsto> replicate 16 0, str ''files/1.bin'' \<mapsto> []]\<rparr>"

definition rekey_ls :: readdir where
  "rekey_ls fs dir = Some [(str ''1.bin'', False)]"

lemma rekey_store_simps [simp]:
  "sound rekey_store" "st_db rekey_store = demo_db" "st_filesDir rekey_store = str ''files''"
  "e_fs rekey_store = [str ''salt'' \<mapsto> replicate 16 0, str ''files/1.bin'' \<mapsto> []]"
  by (simp_all add: rekey_store_def)

lemma rekey_store_blobs: "blob_paths (str ''files'') [(str ''1.bin'', False)] = [str ''files/1.bin'']"
proof -
  have "is_bin (str ''1.bin'')" by code_simp
  then show ?thesis by (simp add: blob_paths_def str_def)
qed

lemma demo_db_opens: "db_opens P v demo_db"
  by (simp add: db_opens_def demo_db_def empty_db_def tbl_empty_def all_rows_def demo_user_def unseal_def sealed_defs)

lemma salt_not_blob: "str ''salt'' \<noteq> str ''files/1.bin''"
  by (simp add: str_def)

lemma rekey_atomic_witness:
  "e_fs (snd (RekeyDB clear_prims rekey_ls demo_vault (demo_vault\<lparr>v_key := [2]\<rparr>) rekey_store)) (str ''salt'')
     = Some (replicate 16 0)"
  using rekey_atomic [OF clear_prims_ok _ _ _ prod.collapse [symmetric], of rekey_store rekey_ls "[(str ''1.bin'', False)]"
      demo_vault "demo_vault\<lparr>v_key := [2]\<rparr>"]
    salt_not_blob
  by (auto simp: rekey_ls_def rekey_store_blobs)

lemma rekey_bad_blob_strands_witness:
  "\<exists>err s'. rekey_main clear_prims rekey_ls (str ''audit'') (str ''salt'') [1] [2] rekey_store = (Inl err, s') \<and>
     e_fs s' (str ''salt'') = Some (replicate 16 0)"
proof -
  obtain v where v: "NewVault clear_prims [1] (replicate 16 0) = Inr v" by (simp add: NewVault_def saltLen_def Let_def)
  have bad: "Open clear_prims v [] = Inl ErrShort" by (simp add: Open_def nonceSize_def)
  from rekey_bad_blob_strands [OF clear_prims_ok, of rekey_store "[1]" "[2]" "str ''salt''" "replicate 16 0" v rekey_ls
      "[(str ''1.bin'', False)]" "str ''files/1.bin''" "[]" ErrShort "str ''audit''"]
  show ?thesis using v bad demo_db_opens salt_not_blob by (auto simp: rekey_ls_def rekey_store_blobs)
qed

end
