(* ===== verification/StoreInv.thy ===== *)
theory StoreInv
  imports RekeyDB
begin

text \<open>
  What holds of the database whatever is done to it. \<open>stmt\<close> lists the statements that the
  repositories execute, each with the checks that its caller makes first; every
  operation, whatever fails in it, is a sequence of them (the frame \<open>ops\<close>). So an invariant
  is shown once per statement, by rule induction, and holds under every sequence of
  operations.
\<close>

section \<open>Statements\<close>

inductive stmt :: "db \<Rightarrow> db \<Rightarrow> bool" where
  st_ins_user: "ins_user r d = Inr (x, d') \<Longrightarrow> stmt d d'"
| st_upd_user: "upd_user i f d = Inr (x, d') \<Longrightarrow> (\<And>r. u_handle (f r) = u_handle r) \<Longrightarrow> stmt d d'"
| st_ins_anomaly: "ins_anomaly an d = Inr (x, d') \<Longrightarrow> stmt d d'"
| st_ins_key: "ins_key k d = Inr (x, d') \<Longrightarrow> stmt d d'"
| st_upd_revoke: "upd_revoke i now d = Inr (x, d') \<Longrightarrow> stmt d d'"
| st_ins_membership: "ins_membership mb d = Inr (x, d') \<Longrightarrow> stmt d d'"
| st_upd_review: "upd_review i j now b c d = Inr (x, d') \<Longrightarrow> stmt d d'"
| st_ins_token: "ins_token tk d = Inr (x, d') \<Longrightarrow> stmt d d'"
| st_upd_token: "upd_token i now d = Inr (x, d') \<Longrightarrow> stmt d d'"
| st_ins_area: "ins_area ar d = Inr (x, d') \<Longrightarrow> stmt d d'"
| st_ins_message: "ins_message m d = Inr (x, d') \<Longrightarrow> stmt d d'"
| st_upd_message: "upd_message i j b c d = Inr (x, d') \<Longrightarrow> stmt d d'"
| st_del_message: "del_message i d = Inr (x, d') \<Longrightarrow> stmt d d'"
| st_up_read: "up_read i j k now d = Inr (x, d') \<Longrightarrow> stmt d d'"
| st_ins_block: "ins_block i j now d = Inr (x, d') \<Longrightarrow> stmt d d'"
| st_del_block: "del_block i j d = Inr (x, d') \<Longrightarrow> stmt d d'"
| st_ins_report: "ins_report rp d = Inr (x, d') \<Longrightarrow> stmt d d'"
| st_upd_resolve: "upd_resolve i now j d = Inr (x, d') \<Longrightarrow> stmt d d'"
| st_ins_pm: "ins_pm pm d = Inr (x, d') \<Longrightarrow> stmt d d'"
| st_upd_read: "upd_read i now d = Inr (x, d') \<Longrightarrow> stmt d d'"
| st_del_pm: "del_pm i j d = Inr (x, d') \<Longrightarrow> stmt d d'"
| st_ins_file_area: "ins_file_area ar d = Inr (x, d') \<Longrightarrow> stmt d d'"
| st_ins_file: "ins_file fl d = Inr (x, d') \<Longrightarrow> \<not> has (same_name (f_area fl) (f_filename fl)) (d_file d) \<Longrightarrow> 0 \<le> f_size fl \<Longrightarrow> f_size fl \<le> MaxFileBytes \<Longrightarrow> user_bytes (d_file d) (f_uploader fl) + f_size fl \<le> MaxUserBytes \<Longrightarrow> stmt d d'"
| st_upd_file: "upd_file i g d = Inr (x, d') \<Longrightarrow> (\<And>r. f_uploader (g r) = f_uploader r \<and> f_size (g r) = f_size r \<and> f_area (g r) = f_area r \<and> f_filename (g r) = f_filename r) \<Longrightarrow> stmt d d'"
| st_del_file: "del_file i d = Inr (x, d') \<Longrightarrow> stmt d d'"
| st_ins_ban: "ins_ban bn d = Inr (x, d') \<Longrightarrow> stmt d d'"
| st_up_setting: "up_setting b c d = Inr (x, d') \<Longrightarrow> stmt d d'"
| st_ins_door: "ins_door dr d = Inr (x, d') \<Longrightarrow> stmt d d'"
| st_upd_resident: "upd_resident i b c d = Inr (x, d') \<Longrightarrow> stmt d d'"
| st_up_installed: "up_installed ir d = Inr (x, d') \<Longrightarrow> stmt d d'"
| st_del_installed: "del_installed b d = Inr (x, d') \<Longrightarrow> stmt d d'"
| st_ins_slog: "ins_slog sl d = Inr (x, d') \<Longrightarrow> stmt d d'"
| st_lift_db: "stmt d (lift_db i now d)"

interpretation ops: db_frame "stmt\<^sup>*\<^sup>*"
  by unfold_locales auto

lemmas stmt_into = stmt.intros [THEN r_into_rtranclp [of stmt]]
lemmas stmt_plain = stmt_into(1) stmt_into(3-22) stmt_into(25-33)

text \<open>Lookups that read the vault first.\<close>

lemma lookup_steps:
  "steps ops.dbR (users_ByID i)" "steps ops.dbR (memberships_ByID i)" "steps ops.dbR (keys_byID i)"
  "steps ops.dbR (reports_byID i)" "steps ops.dbR (bans_byID i)"
  by (rule ops.steps_same; simp add: st_fixed_def users_ByID_def memberships_ByID_def keys_byID_def reports_byID_def bans_byID_def
      query_def chk_run ext_def)+

lemma account_steps:
  "steps ops.dbR (users_Create h ph rn em)" "steps ops.dbR (keys_Add K u l)" "steps ops.dbR (keys_Revoke i)"
  "steps ops.dbR (memberships_Apply u n)" "steps ops.dbR (memberships_Review i r dec n)"
  unfolding users_Create_def keys_Add_def keys_Revoke_def memberships_Apply_def memberships_Review_def Let_def
  by (intro ops.db_rules lookup_steps; erule stmt_plain)+

lemma user_update_steps:
  "steps ops.dbR (users_SetStatus i st l)" "steps ops.dbR (users_SetPassword i ph)" "steps ops.dbR (users_Approve i l)"
  "steps ops.dbR (users_SetDailyMinutes i l)" "steps ops.dbR (users_SetColorblind i b)"
  "steps ops.dbR (users_AddPoints i l)" "steps ops.dbR (users_TouchLogin i l)" "steps ops.dbR (users_RecordLogin i ip l)"
  unfolding users_SetStatus_def users_SetPassword_def users_Approve_def Let_def users_SetDailyMinutes_def
    users_SetColorblind_def users_AddPoints_def users_TouchLogin_def users_RecordLogin_def
  by (intro ops.db_rules lookup_steps; (erule stmt_plain | erule stmt_into(2), simp))+

lemma token_steps: "steps ops.dbR (tokens_Issue u)" "steps ops.dbR (tokens_Redeem u p)"
  unfolding tokens_Issue_def tokens_Redeem_def Let_def
  by (rule steps_dep [where g = st_prims], intro ops.db_rules; erule stmt_plain)+

lemma areas_Create_steps: "steps ops.dbR (areas_Create n dsc l)" "steps ops.dbR (fareas_Create n l)"
  unfolding areas_Create_def fareas_Create_def Let_def by (intro ops.db_rules; erule stmt_plain)+

lemma board_steps:
  "steps ops.dbR (messages_Post a u p sb b)" "steps ops.dbR (messages_Edit i u sb b)"
  "steps ops.dbR (messages_Delete i)" "steps ops.dbR (readptr_Mark u a m)"
  "steps ops.dbR (blocks_Block u w)" "steps ops.dbR (blocks_Unblock u w)"
  "steps ops.dbR EnsureSeedAreas" "steps ops.dbR (reports_File u t c n)" "steps ops.dbR (reports_Resolve i u)"
  unfolding messages_Post_def messages_Edit_def messages_Delete_def readptr_Mark_def blocks_Block_def
    blocks_Unblock_def EnsureSeedAreas_def areas_Count_def reports_File_def reports_Resolve_def
  by (intro ops.db_rules areas_Create_steps lookup_steps; erule stmt_plain)+

lemma mail_steps:
  "steps ops.dbR (mail_Send f t sb b)" "steps ops.dbR (mail_Delete i u)" "steps ops.dbR EnsureSeedFileAreas"
  unfolding mail_Send_def mail_Delete_def EnsureSeedFileAreas_def fareas_Count_def
  by (intro ops.db_rules areas_Create_steps; erule stmt_plain)+

lemma mail_Get_steps: "steps ops.dbR (mail_Get i u)"
  by (rule steps_state [OF _ mail_Get_def]) (intro ops.db_rules; erule stmt_plain)

lemma files_Delete_steps: "steps ops.dbR (files_Delete i)"
  by (rule steps_state [OF _ files_Delete_def]) (intro ops.db_rules; erule stmt_plain)

lemma files_Content_steps: "steps ops.dbR (files_Content i)"
  by (rule steps_state [OF _ files_Content_def]) (intro ops.db_rules; erule stmt_into(24); simp)

lemma doors_Create_steps:
  "steps ops.dbR (doors_Create n c f l)" "steps ops.dbR (doors_CreateResident n w a l)"
  unfolding doors_Create_def doors_CreateResident_def Let_def by (intro ops.db_rules; erule stmt_plain)+

lemma lift_into: "Inr ((), lift_db i now d) = (Inr (x, d') :: gerr + unit \<times> db) \<Longrightarrow> stmt\<^sup>*\<^sup>* d d'"
  using stmt_into(33) by auto

lemma sys_steps:
  "steps ops.dbR (bans_Add N p r u)" "steps ops.dbR (bans_Lift i)" "steps ops.dbR (settings_Set k v)"
  "steps ops.dbR (doors_EnsureResidentDoor n w a l)" "steps ops.dbR EnsureSeedDoors"
  "steps ops.dbR (installed_Upsert ir now)" "steps ops.dbR (installed_Remove n)" "steps ops.dbR (slog_Emit e)"
  unfolding bans_Add_def bans_Lift_def settings_Set_def doors_EnsureResidentDoor_def EnsureSeedDoors_def
    doors_Count_def installed_Upsert_def installed_Remove_def slog_Emit_def
  by (intro ops.db_rules doors_Create_steps lookup_steps; (erule lift_into stmt_plain)?)+

text \<open>An upload, in any frame that admits its two statements under the checks it makes.\<close>

context db_frame
begin

lemma files_blob_frame:
  "(\<And>d x d'. upd_file i (\<lambda>r. r\<lparr>f_path := blobName i\<rparr>) d = Inr (x, d') \<Longrightarrow> Q d d') \<Longrightarrow> steps dbR (files_blob i c)"
  by (rule steps_state [OF _ files_blob_def]) (intro db_rules)

lemma files_Add_frame:
  assumes ins: "\<And>r d x d'. ins_file r d = Inr (x, d') \<Longrightarrow> f_uploader r = u \<Longrightarrow> \<not> has (same_name (f_area r) (f_filename r)) (d_file d) \<Longrightarrow>
      0 \<le> f_size r \<Longrightarrow> f_size r \<le> MaxFileBytes \<Longrightarrow> user_bytes (d_file d) u + f_size r \<le> MaxUserBytes \<Longrightarrow> Q d d'"
    and path: "\<And>i d x d'. upd_file i (\<lambda>r. r\<lparr>f_path := blobName i\<rparr>) d = Inr (x, d') \<Longrightarrow> Q d d'"
  shows "steps dbR (files_Add a u n dsc c)"
proof (rule steps_runI)
  fix s :: "'a store_scheme"
  let ?row = "\<lambda>now. \<lparr>f_area = a, f_filename = n, f_path = [], f_size = int (length c), f_description = dsc,
    f_uploader = u, f_downloads = 0, f_uploaded_at = now\<rparr>"
  let ?tail = "\<lambda>now. chk (exec (ins_file (?row now))) (\<lambda>i. chk (files_blob i c) (\<lambda>_. ret \<lparr>Fe_ID = i,
     Fe_AreaID = a, Fe_Filename = n, Fe_SizeBytes = int (length c), Fe_Description = dsc, Fe_UploaderID = u,
     Fe_DownloadCount = 0, Fe_UploadedAt = now\<rparr>))"
  have tail: "dbR t (snd (?tail now t))" if "\<not> has (same_name a n) (d_file (st_db t))"
    "int (length c) \<le> MaxFileBytes" "user_bytes (d_file (st_db t)) u + int (length c) \<le> MaxUserBytes"
    for now and t :: "'a store_scheme"
  proof -
    obtain r t' where run: "exec (ins_file (?row now)) t = (r, t')" by fastforce
    have one: "dbR t t'"
    proof (cases r)
      case (Inl e)
      then show ?thesis using exec_InlD [OF run [unfolded Inl]] by (simp add: dbR_def st_fixed_def db_refl)
    next
      case (Inr i)
      from run [unfolded Inr] obtain d
        where "ins_file (?row now) (st_db t) = Inr (i, d)" "t' = t\<lparr>e_step := e_step t + 1, st_db := d\<rparr>"
        by (rule exec_InrD)
      then show ?thesis using ins [of "?row now" "st_db t" i d] that by (simp add: dbR_def st_fixed_def)
    qed
    have two: "steps dbR (chk (files_blob i c) (\<lambda>_. ret (x :: FileEntry)))" for i x
      by (intro db_rules files_blob_frame path)
    show ?thesis
    proof (cases r)
      case (Inr i)
      have "dbR t' (snd (chk (files_blob i c) (\<lambda>_. ret (x :: FileEntry)) t'))" for x
        using two [of i x] unfolding steps_def by (rule spec)
      from frame_trans [OF one this] show ?thesis using run Inr by simp
    qed (use one run in simp)
  qed
  have none: "length (tbl_select (\<lambda>i r. same_name a n r) t) = 0 \<longleftrightarrow> \<not> has (same_name a n) t" for t
    by (auto simp: tbl_select_def has_def filter_empty_conv)
  show "dbR s (snd (files_Add a u n dsc c s))"
    using tail [of "s\<lparr>e_step := Suc (Suc (e_step s))\<rparr>" "e_clock s (Suc (Suc (e_step s)))"] none
    unfolding files_Add_def files_UserBytes_def
    by (auto simp: query_def ext_def chk_run time_Now_def dbR_def st_fixed_def db_refl not_less)
qed

end

lemma files_Add_steps: "steps ops.dbR (files_Add a u n dsc c)"
  by (rule ops.files_Add_frame; erule stmt_into(23, 24); simp)

section \<open>Operations\<close>

text \<open>Every operation of the repositories that changes the database.\<close>

datatype account_op =
    UCreate bytes bytes bytes bytes
  | USetStatus int bytes int
  | USetPassword int bytes
  | UApprove int int
  | USetDailyMinutes int int
  | USetColorblind int bool
  | UAddPoints int int
  | UTouchLogin int int
  | URecordLogin int bytes int
  | KAdd int bytes
  | KRevoke int
  | MApply int bytes
  | MReview int int bytes bytes
  | TIssue int
  | TRedeem int bytes

primrec run_account :: "ssh_lib \<Rightarrow> account_op \<Rightarrow> store \<Rightarrow> store" where
  "run_account K (UCreate a b c e) = (\<lambda>s. snd (users_Create a b c e s))"
| "run_account K (USetStatus a b c) = (\<lambda>s. snd (users_SetStatus a b c s))"
| "run_account K (USetPassword a b) = (\<lambda>s. snd (users_SetPassword a b s))"
| "run_account K (UApprove a b) = (\<lambda>s. snd (users_Approve a b s))"
| "run_account K (USetDailyMinutes a b) = (\<lambda>s. snd (users_SetDailyMinutes a b s))"
| "run_account K (USetColorblind a b) = (\<lambda>s. snd (users_SetColorblind a b s))"
| "run_account K (UAddPoints a b) = (\<lambda>s. snd (users_AddPoints a b s))"
| "run_account K (UTouchLogin a b) = (\<lambda>s. snd (users_TouchLogin a b s))"
| "run_account K (URecordLogin a b c) = (\<lambda>s. snd (users_RecordLogin a b c s))"
| "run_account K (KAdd a b) = (\<lambda>s. snd (keys_Add K a b s))"
| "run_account K (KRevoke a) = (\<lambda>s. snd (keys_Revoke a s))"
| "run_account K (MApply a b) = (\<lambda>s. snd (memberships_Apply a b s))"
| "run_account K (MReview a b c e) = (\<lambda>s. snd (memberships_Review a b c e s))"
| "run_account K (TIssue a) = (\<lambda>s. snd (tokens_Issue a s))"
| "run_account K (TRedeem a b) = (\<lambda>s. snd (tokens_Redeem a b s))"

datatype board_op =
    ACreate bytes bytes int
  | ASeed
  | PPost int int "int option" bytes bytes
  | PEdit int int bytes bytes
  | PDelete int
  | RMark int int int
  | BBlock int int
  | BUnblock int int
  | RFile int int bytes bytes
  | RResolve int int

primrec run_board :: "board_op \<Rightarrow> store \<Rightarrow> store" where
  "run_board (ACreate a b c) = (\<lambda>s. snd (areas_Create a b c s))"
| "run_board ASeed = (\<lambda>s. snd (EnsureSeedAreas s))"
| "run_board (PPost a b c e f) = (\<lambda>s. snd (messages_Post a b c e f s))"
| "run_board (PEdit a b c e) = (\<lambda>s. snd (messages_Edit a b c e s))"
| "run_board (PDelete a) = (\<lambda>s. snd (messages_Delete a s))"
| "run_board (RMark a b c) = (\<lambda>s. snd (readptr_Mark a b c s))"
| "run_board (BBlock a b) = (\<lambda>s. snd (blocks_Block a b s))"
| "run_board (BUnblock a b) = (\<lambda>s. snd (blocks_Unblock a b s))"
| "run_board (RFile a b c e) = (\<lambda>s. snd (reports_File a b c e s))"
| "run_board (RResolve a b) = (\<lambda>s. snd (reports_Resolve a b s))"

datatype library_op =
    MSend int int bytes bytes
  | MGet int int
  | MDelete int int
  | FACreate bytes int
  | FASeed
  | FAdd int int bytes bytes bytes
  | FDelete int
  | FContent int

primrec run_library :: "library_op \<Rightarrow> store \<Rightarrow> store" where
  "run_library (MSend a b c e) = (\<lambda>s. snd (mail_Send a b c e s))"
| "run_library (MGet a b) = (\<lambda>s. snd (mail_Get a b s))"
| "run_library (MDelete a b) = (\<lambda>s. snd (mail_Delete a b s))"
| "run_library (FACreate a b) = (\<lambda>s. snd (fareas_Create a b s))"
| "run_library FASeed = (\<lambda>s. snd (EnsureSeedFileAreas s))"
| "run_library (FAdd a b c e f) = (\<lambda>s. snd (files_Add a b c e f s))"
| "run_library (FDelete a) = (\<lambda>s. snd (files_Delete a s))"
| "run_library (FContent a) = (\<lambda>s. snd (files_Content a s))"

datatype sys_op =
    XAdd bytes bytes int
  | XLift int
  | SSet bytes bytes
  | DCreate bytes bytes bytes int
  | DCreateResident bytes bytes bytes int
  | DEnsure bytes bytes bytes int
  | DSeed
  | IUpsert installed_row int
  | IRemove bytes
  | LEmit event

primrec run_sys :: "('ip, 'net) netlib \<Rightarrow> sys_op \<Rightarrow> store \<Rightarrow> store" where
  "run_sys N (XAdd a b c) = (\<lambda>s. snd (bans_Add N a b c s))"
| "run_sys N (XLift a) = (\<lambda>s. snd (bans_Lift a s))"
| "run_sys N (SSet a b) = (\<lambda>s. snd (settings_Set a b s))"
| "run_sys N (DCreate a b c e) = (\<lambda>s. snd (doors_Create a b c e s))"
| "run_sys N (DCreateResident a b c e) = (\<lambda>s. snd (doors_CreateResident a b c e s))"
| "run_sys N (DEnsure a b c e) = (\<lambda>s. snd (doors_EnsureResidentDoor a b c e s))"
| "run_sys N DSeed = (\<lambda>s. snd (EnsureSeedDoors s))"
| "run_sys N (IUpsert a b) = (\<lambda>s. snd (installed_Upsert a b s))"
| "run_sys N (IRemove a) = (\<lambda>s. snd (installed_Remove a s))"
| "run_sys N (LEmit a) = (\<lambda>s. snd (slog_Emit a s))"

datatype store_op = OAccount account_op | OBoard board_op | OLibrary library_op | OSys sys_op

primrec run_op :: "('ip, 'net) netlib \<Rightarrow> ssh_lib \<Rightarrow> store_op \<Rightarrow> store \<Rightarrow> store" where
  "run_op N K (OAccount x) = run_account K x"
| "run_op N K (OBoard x) = run_board x"
| "run_op N K (OLibrary x) = run_library x"
| "run_op N K (OSys x) = run_sys N x"

lemmas op_steps = account_steps user_update_steps token_steps areas_Create_steps board_steps mail_steps mail_Get_steps
  files_Add_steps files_Delete_steps files_Content_steps doors_Create_steps sys_steps

lemma op_run: "steps ops.dbR m \<Longrightarrow> stmt\<^sup>*\<^sup>* (st_db s) (st_db (snd (m s)))"
  by (simp add: steps_def ops.dbR_def)

lemma run_account_stmts: "stmt\<^sup>*\<^sup>* (st_db s) (st_db (run_account K x s))"
  by (cases x) (simp_all add: op_steps [THEN op_run])

lemma run_board_stmts: "stmt\<^sup>*\<^sup>* (st_db s) (st_db (run_board x s))"
  by (cases x) (simp_all add: op_steps [THEN op_run])

lemma run_library_stmts: "stmt\<^sup>*\<^sup>* (st_db s) (st_db (run_library x s))"
  by (cases x) (simp_all add: op_steps [THEN op_run])

lemma run_sys_stmts: "stmt\<^sup>*\<^sup>* (st_db s) (st_db (run_sys N x s))"
  by (cases x) (simp_all add: op_steps [THEN op_run])

lemmas run_stmts = run_account_stmts run_board_stmts run_library_stmts run_sys_stmts

lemma run_op_stmts: "stmt\<^sup>*\<^sup>* (st_db s) (st_db (run_op N K x s))"
  by (cases x) (simp_all add: run_stmts)

section \<open>The schema's constraints\<close>

lemma stmt_inv: "stmt d d' \<Longrightarrow> inv_rel d d'"
proof (induction rule: stmt.induct)
  case (st_upd_user i f d x d')
  then show ?case by (intro upd_user_inv)
next
  case (st_ins_file fl d x d')
  then show ?case by (intro ins_file_inv)
next
  case (st_upd_file i g d x d')
  then show ?case by (intro upd_file_inv)
next
  case (st_lift_db d i now)
  show ?case by (rule lift_db_inv) (rule refl)
qed (erule ins_user_inv ins_anomaly_inv ins_key_inv upd_revoke_inv ins_membership_inv upd_review_inv ins_token_inv
    upd_token_inv ins_area_inv ins_message_inv upd_message_inv del_message_inv up_read_inv ins_block_inv del_block_inv
    ins_report_inv upd_resolve_inv ins_pm_inv upd_read_inv del_pm_inv ins_file_area_inv del_file_inv ins_ban_inv
    up_setting_inv ins_door_inv upd_resident_inv up_installed_inv del_installed_inv ins_slog_inv)+

text \<open>
  C2: the database stays consistent. After any sequence of repository operations, by
  anyone and with any of their statements, writes or seals failing, a consistent
  database is consistent: handles are unique up to capitalisation, names of areas and
  doors are unique, every reference points to an existing row, no file is over the size
  limit and no uploader over the quota, no area holds two files of one name.
\<close>

theorem database_consistent:
  assumes "db_inv (st_db s)"
  shows "db_inv (st_db (foldl (\<lambda>s x. run_op N K x s) s xs))"
proof -
  have step: "db_inv d'" if "stmt\<^sup>*\<^sup>* d d'" "db_inv d" for d d'
    using that by (induction rule: rtranclp_induct) (auto dest: stmt_inv simp: inv_rel_def)
  show ?thesis using assms
  proof (induction xs arbitrary: s)
    case (Cons x xs)
    show ?case using Cons.IH [OF step [OF run_op_stmts Cons.prems]] by simp
  qed simp
qed

section \<open>What is never undone\<close>

text \<open>
  \<open>closed_kept done t t'\<close>: the rows of \<open>t\<close> that are \<open>done\<close> are in \<open>t'\<close> as they were. Accounts are
  never removed or renamed; spent tokens, revoked keys, lifted bans and resolved reports
  stay as they are; the session log only grows.
\<close>

definition closed_kept :: "('r \<Rightarrow> bool) \<Rightarrow> 'r tbl \<Rightarrow> 'r tbl \<Rightarrow> bool" where
  "closed_kept final t t' \<longleftrightarrow> (\<forall>i r. tbl_get t i = Some r \<and> final r \<longrightarrow> tbl_get t' i = Some r)"

definition hist :: "db \<Rightarrow> db \<Rightarrow> bool" where
  "hist d d' \<longleftrightarrow>
     (\<forall>i r. tbl_get (d_user d) i = Some r \<longrightarrow> (\<exists>r'. tbl_get (d_user d') i = Some r' \<and> u_handle r' = u_handle r)) \<and>
     closed_kept (\<lambda>r. tk_used_at r \<noteq> None) (d_token d) (d_token d') \<and>
     closed_kept (\<lambda>r. k_revoked_at r \<noteq> None) (d_key d) (d_key d') \<and>
     closed_kept (\<lambda>r. b_lifted_at r \<noteq> None) (d_ban d) (d_ban d') \<and>
     closed_kept (\<lambda>r. rp_resolved_at r \<noteq> None) (d_report d) (d_report d') \<and>
     prefix (t_rows (d_slog d)) (t_rows (d_slog d'))"

lemma closed_kept_refl [simp]: "closed_kept c t t"
  by (simp add: closed_kept_def)

lemma closed_kept_trans: "closed_kept c t u \<Longrightarrow> closed_kept c u v \<Longrightarrow> closed_kept c t v"
  by (simp add: closed_kept_def)

lemma closed_kept_insert: "wf_tbl t \<Longrightarrow> closed_kept c t (snd (tbl_insert r t))"
  using tbl_get_fresh [of t "t_seq t + 1"] by (auto simp: closed_kept_def tbl_insert_get)

lemma closed_kept_update: "(\<And>i r. p i r \<Longrightarrow> \<not> c r) \<Longrightarrow> closed_kept c t (snd (tbl_update p f t))"
  by (auto simp: closed_kept_def tbl_update_get)

lemma hist_refl [simp]: "hist d d"
  by (simp add: hist_def)

lemma hist_trans: "hist a b \<Longrightarrow> hist b c \<Longrightarrow> hist a c"
proof -
  assume ab: "hist a b" and bc: "hist b c"
  have "\<exists>r'. tbl_get (d_user c) i = Some r' \<and> u_handle r' = u_handle r" if got: "tbl_get (d_user a) i = Some r" for i r
  proof -
    obtain q where "tbl_get (d_user b) i = Some q" "u_handle q = u_handle r" using ab got unfolding hist_def by blast
    then show ?thesis using bc unfolding hist_def by metis
  qed
  then show ?thesis
    using ab bc unfolding hist_def by (blast intro: closed_kept_trans prefix_order.trans)
qed

lemmas hist_rules = hist_def closed_kept_insert tbl_update_get tbl_insert_get

lemma stmt_hist: "stmt d d' \<Longrightarrow> db_inv d \<Longrightarrow> hist d d'"
proof (induction rule: stmt.induct)
  case (st_ins_user r d x d')
  have "wf_tbl (d_user d)" using db_inv_user [OF st_ins_user.prems] by simp
  then show ?case using st_ins_user.hyps tbl_get_fresh [of "d_user d" "t_seq (d_user d) + 1"]
    by (auto simp: ins_user_def hist_rules split: if_splits)
next
  case (st_ins_slog sl d x d')
  then show ?case by (auto simp: ins_slog_def hist_def tbl_insert_def)
qed (use db_inv_token db_inv_key db_inv_ban db_inv_report in
    \<open>auto simp: hist_rules upd_user_def ins_anomaly_def ins_key_def upd_revoke_def ins_membership_def upd_review_def
      ins_token_def upd_token_def ins_area_def ins_message_def upd_message_def del_message_def up_read_def ins_block_def
      del_block_def ins_report_def upd_resolve_def resolve_db_def ins_pm_def upd_read_def del_pm_def ins_file_area_def
      ins_file_def upd_file_def del_file_def ins_ban_def up_setting_def ins_door_def upd_resident_def up_installed_def
      del_installed_def lift_db_def Let_def split: if_splits intro!: closed_kept_update\<close>)

text \<open>
  C3: what is closed stays closed, what is recorded stays recorded. Under every sequence
  of operations, whatever fails, no account disappears or changes its handle, a spent
  one-time token, a revoked key, a lifted ban and a resolved report keep their rows
  exactly as they are, and the session log is only appended to.
\<close>

theorem history_kept_by_all:
  assumes "db_inv (st_db s)"
  shows "hist (st_db s) (st_db (foldl (\<lambda>s x. run_op N K x s) s xs))"
proof -
  have step: "db_inv d' \<and> hist d d'" if "stmt\<^sup>*\<^sup>* d d'" "db_inv d" for d d'
    using that by (induction rule: rtranclp_induct) (auto dest: stmt_inv stmt_hist intro: hist_trans simp: inv_rel_def)
  show ?thesis using assms
  proof (induction xs arbitrary: s)
    case (Cons x xs)
    from step [OF run_op_stmts Cons.prems, of N K x] show ?case using Cons.IH hist_trans by fastforce
  qed simp
qed

lemma database_consistent_witness:
  "db_inv (st_db (foldl (\<lambda>s x. run_op demo_net \<lparr>ssh_parse = (\<lambda>l. Some (l, [])), ssh_marshal = id, ssh_fingerprint = id\<rparr> x s)
     (calm_store empty_db) [OAccount (UCreate [98] [] [] []), OBoard ASeed, OBoard (PPost 1 1 None [1] [2])]))"
  by (rule database_consistent) simp

lemma history_kept_by_all_witness:
  "hist demo_db (st_db (foldl (\<lambda>s x. run_op demo_net \<lparr>ssh_parse = (\<lambda>l. Some (l, [])), ssh_marshal = id, ssh_fingerprint = id\<rparr> x s)
     (calm_store demo_db) [OAccount (TIssue 1), OSys (XAdd [65] [] 1)]))"
  by (rule history_kept_by_all [of "calm_store demo_db", unfolded calm_store_simps]) (rule demo_db_inv)

end
