(* ===== verification/Supervisor.thy ===== *)
theory Supervisor
  imports Prelude
begin

text \<open>
  The supervisor of resident doors (\<open>doors/install.go\<close>): the table of supervised doors under its
  mutex, and one goroutine per launch that starts the door's binary, waits for it, and starts it
  again after a growing pause until it is told to stop. Callers and goroutines interleave freely:
  a step is one operation on the table or one move of one goroutine, and what the system decides
  (whether a process starts, when it exits, which ready case a \<open>select\<close> takes, whether the run
  lasted thirty seconds) is the event that drives the move. A goroutine is never removed from
  \<open>su_all\<close>; its position there is its identity.
\<close>

section \<open>The goroutine\<close>

datatype sp_pc = AtTop | AtPrep | AtStart | AtWait | AtCheck | AtSleep | AtEnd

text \<open>\<open>sp.cmd\<close>: nil or not started, started and running, or exited.\<close>

datatype sp_process = NoProc | Live | Dead

record superProc =
  sp_name :: bytes
  sp_bin :: bytes
  sp_dir :: bytes
  sp_addr :: bytes
  sp_stop :: bool
  sp_proc :: sp_process
  sp_pc :: sp_pc
  sp_backoff :: int

datatype sp_event = Go | Started | NotStarted | Exited | Checked bool | Slept

definition second :: int where "second = 10 ^ 9"

definition longer :: "int \<Rightarrow> int" where
  "longer backoff = (if backoff < 30 * second then backoff * 2 else backoff)"

definition supervise :: "sp_event \<Rightarrow> superProc \<Rightarrow> superProc option" where
  "supervise e sp = (case (sp_pc sp, e) of
     (AtTop, Go) \<Rightarrow> Some (sp\<lparr>sp_pc := if sp_stop sp then AtEnd else AtPrep\<rparr>)
   | (AtPrep, Go) \<Rightarrow> Some (sp\<lparr>sp_proc := NoProc, sp_pc := AtStart\<rparr>)
   | (AtStart, Started) \<Rightarrow> Some (sp\<lparr>sp_proc := Live, sp_pc := AtWait\<rparr>)
   | (AtStart, NotStarted) \<Rightarrow> Some (sp\<lparr>sp_pc := AtCheck\<rparr>)
   | (AtWait, Exited) \<Rightarrow> if sp_proc sp = Live then Some (sp\<lparr>sp_proc := Dead\<rparr>) else None
   | (AtWait, Go) \<Rightarrow> if sp_proc sp = Dead then Some (sp\<lparr>sp_pc := AtCheck\<rparr>) else None
   | (AtCheck, Checked healthy) \<Rightarrow>
       if sp_stop sp then Some (sp\<lparr>sp_pc := AtEnd\<rparr>)
       else Some (sp\<lparr>sp_backoff := if healthy then second else sp_backoff sp, sp_pc := AtSleep\<rparr>)
   | (AtSleep, Go) \<Rightarrow> if sp_stop sp then Some (sp\<lparr>sp_pc := AtEnd\<rparr>) else None
   | (AtSleep, Slept) \<Rightarrow>
       Some (sp\<lparr>sp_backoff := longer (sp_backoff sp), sp_pc := AtTop\<rparr>)
   | _ \<Rightarrow> None)"

section \<open>The table\<close>

record sup =
  procs :: "bytes \<rightharpoonup> nat"
  su_all :: "superProc list"

definition NewSupervisor :: sup where
  "NewSupervisor = \<lparr>procs = Map.empty, su_all = []\<rparr>"

text \<open>\<open>mk\<close>: whether the data directory could be made.\<close>

definition sup_Launch :: "bool \<Rightarrow> bytes \<Rightarrow> bytes \<Rightarrow> bytes \<Rightarrow> bytes \<Rightarrow> sup \<Rightarrow> (gerr + unit) \<times> sup" where
  "sup_Launch mk name binPath dataDir addr s =
     (if procs s name \<noteq> None then (Inr (), s)
      else if \<not> mk then (Inl ErrIO, s)
      else (Inr (), s\<lparr>procs := (procs s)(name \<mapsto> length (su_all s)), su_all := su_all s @
          [\<lparr>sp_name = name, sp_bin = binPath, sp_dir = dataDir, sp_addr = addr, sp_stop = False, sp_proc = NoProc,
            sp_pc = AtTop, sp_backoff = second\<rparr>]\<rparr>))"

definition Running :: "bytes \<Rightarrow> sup \<Rightarrow> bool" where
  "Running name s \<longleftrightarrow> procs s name \<noteq> None"

text \<open>Closing the stop channel and killing the process, if there is one.\<close>

definition stopped :: "superProc \<Rightarrow> superProc" where
  "stopped sp = sp\<lparr>sp_stop := True, sp_proc := if sp_proc sp = Live then Dead else sp_proc sp\<rparr>"

definition Stop :: "bytes \<Rightarrow> sup \<Rightarrow> sup" where
  "Stop name s = (case procs s name of
     None \<Rightarrow> s
   | Some i \<Rightarrow> s\<lparr>procs := (procs s)(name := None), su_all := (su_all s)[i := stopped (su_all s ! i)]\<rparr>)"

definition StopAll :: "sup \<Rightarrow> sup" where
  "StopAll s = s\<lparr>procs := Map.empty,
     su_all := map (\<lambda>sp. if procs s (sp_name sp) = None \<or> sp_stop sp then sp else stopped sp) (su_all s)\<rparr>"

text \<open>What can happen, in any order.\<close>

inductive sup_step :: "sup \<Rightarrow> sup \<Rightarrow> bool" where
  launch: "sup_step s (snd (sup_Launch mk name bin dir addr s))"
| stop: "sup_step s (Stop name s)"
| stop_all: "sup_step s (StopAll s)"
| move: "i < length (su_all s) \<Longrightarrow> supervise e (su_all s ! i) = Some sp \<Longrightarrow> sup_step s (s\<lparr>su_all := (su_all s)[i := sp]\<rparr>)"

inductive_cases sup_stepE: "sup_step s s'"

section \<open>What it keeps\<close>

definition backoffs :: "int list" where
  "backoffs = [second, 2 * second, 4 * second, 8 * second, 16 * second, 32 * second]"

definition sp_ok :: "superProc \<Rightarrow> bool" where
  "sp_ok sp \<longleftrightarrow> sp_backoff sp \<in> set backoffs \<and> (sp_proc sp = Live \<longrightarrow> sp_pc sp = AtWait) \<and> (sp_pc sp = AtEnd \<longrightarrow> sp_stop sp)"

definition sup_ok :: "sup \<Rightarrow> bool" where
  "sup_ok s \<longleftrightarrow> (\<forall>sp \<in> set (su_all s). sp_ok sp) \<and>
     (\<forall>n i. procs s n = Some i \<longleftrightarrow> i < length (su_all s) \<and> sp_name (su_all s ! i) = n \<and> \<not> sp_stop (su_all s ! i))"

text \<open>A goroutine that was told to stop outside the window between its check and its start.\<close>

definition gone :: "superProc \<Rightarrow> bool" where
  "gone sp \<longleftrightarrow> sp_stop sp \<and> sp_proc sp \<noteq> Live \<and> sp_pc sp \<notin> {AtPrep, AtStart}"

lemma backoff_grows: "b \<in> set backoffs \<Longrightarrow> longer b \<in> set backoffs"
  by (auto simp: longer_def backoffs_def second_def)

lemma backoff_resets: "second \<in> set backoffs"
  by (simp add: backoffs_def)

lemma supervise_keeps:
  assumes "supervise e sp = Some sp'"
  shows "sp_name sp' = sp_name sp \<and> sp_stop sp' = sp_stop sp" "sp_ok sp \<Longrightarrow> sp_ok sp'" "gone sp \<Longrightarrow> gone sp'"
proof -
  show "sp_name sp' = sp_name sp \<and> sp_stop sp' = sp_stop sp"
    using assms unfolding supervise_def by (cases "sp_pc sp"; cases e) (auto split: if_splits)
  show "sp_ok sp'" if "sp_ok sp"
    using assms that unfolding supervise_def sp_ok_def
    by (cases "sp_pc sp"; cases e) (auto simp: backoff_grows backoff_resets split: if_splits)
  show "gone sp'" if "gone sp"
    using assms that unfolding supervise_def gone_def by (cases "sp_pc sp"; cases e) (auto split: if_splits)
qed

lemma stopped_facts [simp]:
  "sp_name (stopped sp) = sp_name sp" "sp_stop (stopped sp)" "sp_pc (stopped sp) = sp_pc sp" "sp_proc (stopped sp) \<noteq> Live"
  "sp_ok sp \<Longrightarrow> sp_ok (stopped sp)"
  by (auto simp: stopped_def sp_ok_def)

lemma sup_okD:
  assumes "sup_ok s"
  shows "i < length (su_all s) \<Longrightarrow> sp_ok (su_all s ! i)"
    "procs s n = Some i \<longleftrightarrow> i < length (su_all s) \<and> sp_name (su_all s ! i) = n \<and> \<not> sp_stop (su_all s ! i)"
  using assms by (auto simp: sup_ok_def)

lemma sup_okI:
  assumes "\<And>i. i < length (su_all s) \<Longrightarrow> sp_ok (su_all s ! i)"
    "\<And>n i. procs s n = Some i \<longleftrightarrow> i < length (su_all s) \<and> sp_name (su_all s ! i) = n \<and> \<not> sp_stop (su_all s ! i)"
  shows "sup_ok s"
  using assms by (auto simp: sup_ok_def in_set_conv_nth)

lemma sup_ok_update:
  assumes "sup_ok s" "i < length (su_all s)" "sp_ok sp" "sp_name sp = sp_name (su_all s ! i)"
    "\<And>n k. m n = Some k \<longleftrightarrow> (if k = i then n = sp_name sp \<and> \<not> sp_stop sp else procs s n = Some k)"
  shows "sup_ok (s\<lparr>procs := m, su_all := (su_all s)[i := sp]\<rparr>)"
proof (rule sup_okI)
  show "sp_ok (su_all (s\<lparr>procs := m, su_all := (su_all s)[i := sp]\<rparr>) ! k)"
    if "k < length (su_all (s\<lparr>procs := m, su_all := (su_all s)[i := sp]\<rparr>))" for k
    using that assms(2,3) sup_okD(1) [OF assms(1), of k] by (cases "k = i") simp_all
  show "procs (s\<lparr>procs := m, su_all := (su_all s)[i := sp]\<rparr>) n = Some k \<longleftrightarrow>
      k < length (su_all (s\<lparr>procs := m, su_all := (su_all s)[i := sp]\<rparr>)) \<and>
      sp_name (su_all (s\<lparr>procs := m, su_all := (su_all s)[i := sp]\<rparr>) ! k) = n \<and>
      \<not> sp_stop (su_all (s\<lparr>procs := m, su_all := (su_all s)[i := sp]\<rparr>) ! k)" for n k
    using assms(2) sup_okD(2) [OF assms(1), of n k] assms(5) [of n k] by (cases "k = i") auto
qed

lemma unsupervised: "sup_ok s \<Longrightarrow> procs s n = None \<Longrightarrow> i < length (su_all s) \<Longrightarrow> sp_name (su_all s ! i) = n \<Longrightarrow> sp_stop (su_all s ! i)"
  using sup_okD(2) [of s n i] by auto

lemma sup_ok_Launch:
  assumes "sup_ok s"
  shows "sup_ok (snd (sup_Launch mk name bin dir addr s))"
proof (cases "procs s name = None \<and> mk")
  case True
  then show ?thesis using unsupervised [OF assms] sup_okD(1) [OF assms]
    by (intro sup_okI) (auto simp: sup_Launch_def nth_append sp_ok_def backoffs_def sup_okD(2) [OF assms] less_Suc_eq)
next
  case False
  then show ?thesis using assms by (auto simp: sup_Launch_def)
qed

lemma sup_ok_Stop:
  assumes "sup_ok s"
  shows "sup_ok (Stop name s)"
proof (cases "procs s name")
  case (Some i)
  note i = Some [unfolded sup_okD(2) [OF assms]]
  have only: "k = i" if "procs s name = Some k" for k using that Some by simp
  show ?thesis unfolding Stop_def Some option.case
  proof (rule sup_ok_update [OF assms])
    show "((procs s)(name := None)) n = Some k \<longleftrightarrow> (if k = i then n = sp_name (stopped (su_all s ! i)) \<and> \<not> sp_stop (stopped (su_all s ! i))
        else procs s n = Some k)" for n k
      using i only [of k] sup_okD(2) [OF assms, of n k] by (cases "k = i") auto
  qed (use i sup_okD(1) [OF assms, of i] in simp_all)
qed (simp add: Stop_def assms)

lemma StopAll_stops:
  assumes "sup_ok s" "i < length (su_all s)"
  shows "sp_stop (su_all (StopAll s) ! i)"
  using assms(2) unsupervised [OF assms(1) _ assms(2) refl] by (auto simp: StopAll_def)

lemma sup_ok_StopAll:
  assumes "sup_ok s"
  shows "sup_ok (StopAll s)"
proof (rule sup_okI)
  have len: "length (su_all (StopAll s)) = length (su_all s)" by (simp add: StopAll_def)
  show "sp_ok (su_all (StopAll s) ! i)" if "i < length (su_all (StopAll s))" for i
    using that sup_okD(1) [OF assms, of i] by (simp add: StopAll_def)
  show "procs (StopAll s) n = Some i \<longleftrightarrow> i < length (su_all (StopAll s)) \<and> sp_name (su_all (StopAll s) ! i) = n \<and>
      \<not> sp_stop (su_all (StopAll s) ! i)" for n i
    using StopAll_stops [OF assms, of i] unfolding len by (auto simp: StopAll_def)
qed

lemma sup_ok_move:
  assumes "sup_ok s" "i < length (su_all s)" "supervise e (su_all s ! i) = Some sp"
  shows "sup_ok (s\<lparr>su_all := (su_all s)[i := sp]\<rparr>)"
proof -
  note k = supervise_keeps [OF assms(3)]
  have "sup_ok (s\<lparr>procs := procs s, su_all := (su_all s)[i := sp]\<rparr>)"
  proof (rule sup_ok_update [OF assms(1,2)])
    show "procs s n = Some j \<longleftrightarrow> (if j = i then n = sp_name sp \<and> \<not> sp_stop sp else procs s n = Some j)" for n j
      using k(1) assms(2) sup_okD(2) [OF assms(1), of n j] by auto
  qed (use k sup_okD(1) [OF assms(1,2)] in simp_all)
  then show ?thesis by simp
qed

lemma sup_step_ok: "sup_step s s' \<Longrightarrow> sup_ok s \<Longrightarrow> sup_ok s'"
  by (induction rule: sup_step.induct) (auto intro: sup_ok_Launch sup_ok_Stop sup_ok_StopAll sup_ok_move)

lemma sup_reachable_ok:
  assumes "sup_step\<^sup>*\<^sup>* NewSupervisor s"
  shows "sup_ok s"
  using assms
proof (induction rule: rtranclp_induct)
  case base
  show ?case by (simp add: sup_ok_def NewSupervisor_def)
next
  case (step y z)
  show ?case by (rule sup_step_ok [OF step.hyps(2) step.IH])
qed

text \<open>Once gone, a goroutine never has a process again.\<close>

lemma sup_step_all:
  assumes "sup_step s s'" "i < length (su_all s)"
  shows "i < length (su_all s') \<and> (su_all s' ! i = su_all s ! i \<or> su_all s' ! i = stopped (su_all s ! i) \<or>
    (\<exists>e. supervise e (su_all s ! i) = Some (su_all s' ! i)))"
  using assms
proof (cases rule: sup_step.cases)
  case (stop name)
  then show ?thesis using assms(2)
  proof (cases "procs s name")
    case (Some j)
    then show ?thesis using stop assms(2) by (cases "i = j") (simp_all add: Stop_def)
  qed (simp add: Stop_def)
qed (auto simp: sup_Launch_def StopAll_def nth_append nth_list_update)

lemma gone_step:
  assumes "sup_step s s'" "i < length (su_all s)" "gone (su_all s ! i)"
  shows "i < length (su_all s') \<and> gone (su_all s' ! i)"
  using sup_step_all [OF assms(1,2)] assms(3) supervise_keeps(3) by (auto simp: gone_def stopped_def)

lemma gone_for_good:
  assumes "sup_step\<^sup>*\<^sup>* s s'" "i < length (su_all s)" "gone (su_all s ! i)"
  shows "i < length (su_all s') \<and> gone (su_all s' ! i)"
  using assms by (induction rule: rtranclp_induct) (auto dest: gone_step)

section \<open>Properties\<close>

text \<open>
  C37: However launches, stops and the goroutines interleave, a door has at most one goroutine that
  has not been told to stop, and the table names exactly those: a name is running if and only if
  such a goroutine exists for it. The pause before a relaunch is always between one and 32 seconds.
\<close>

theorem supervisor_one_each:
  assumes "sup_step\<^sup>*\<^sup>* NewSupervisor s"
  shows "(Running n s \<longleftrightarrow> (\<exists>!i. i < length (su_all s) \<and> sp_name (su_all s ! i) = n \<and> \<not> sp_stop (su_all s ! i))) \<and>
    (\<forall>sp \<in> set (su_all s). second \<le> sp_backoff sp \<and> sp_backoff sp \<le> 32 * second)"
proof -
  note ok = sup_reachable_ok [OF assms]
  have "\<forall>sp \<in> set (su_all s). sp_backoff sp \<in> set backoffs" using ok by (simp add: sup_ok_def sp_ok_def)
  moreover have "second \<le> b \<and> b \<le> 32 * second" if "b \<in> set backoffs" for b
    using that by (auto simp: backoffs_def second_def)
  ultimately show ?thesis unfolding Running_def sup_okD(2) [OF ok, symmetric]
    by (cases "procs s n") auto
qed

text \<open>
  Stopping a door ends it for good, unless its goroutine is between its check of the stop
  channel and the start of the binary: from then on, whatever else happens, that goroutine has no
  running process.
\<close>

theorem Stop_ends:
  assumes "sup_step\<^sup>*\<^sup>* NewSupervisor s" "procs s n = Some i" "sp_pc (su_all s ! i) \<notin> {AtPrep, AtStart}"
    "sup_step\<^sup>*\<^sup>* (Stop n s) s'"
  shows "sp_proc (su_all s' ! i) \<noteq> Live \<and> n \<notin> dom (procs (Stop n s))"
proof -
  have i: "i < length (su_all s)" using assms(2) sup_okD(2) [OF sup_reachable_ok [OF assms(1)]] by blast
  then have "gone (su_all (Stop n s) ! i)" "i < length (su_all (Stop n s))"
    using assms(2,3) by (auto simp: Stop_def gone_def)
  with gone_for_good [OF assms(4)] show ?thesis using assms(2) by (auto simp: gone_def Stop_def)
qed

text \<open>A run: launched, at the window, stopped there, launched again, both started.\<close>

definition demo_sp :: superProc where
  "demo_sp = \<lparr>sp_name = [1], sp_bin = [2], sp_dir = [3], sp_addr = [4], sp_stop = False, sp_proc = NoProc, sp_pc = AtTop,
     sp_backoff = second\<rparr>"

lemma demo_launch:
  "procs s [1] = None \<Longrightarrow> sup_step s (s\<lparr>procs := (procs s)([1] \<mapsto> length (su_all s)), su_all := su_all s @ [demo_sp]\<rparr>)"
  using sup_step.launch [of s True "[1]" "[2]" "[3]" "[4]"] by (simp add: sup_Launch_def demo_sp_def)

lemma sup_moves:
  assumes "sup_step\<^sup>*\<^sup>* s0 s" "i < length (su_all s)" "supervise e (su_all s ! i) = Some sp" "s' = s\<lparr>su_all := (su_all s)[i := sp]\<rparr>"
  shows "sup_step\<^sup>*\<^sup>* s0 s'"
  using rtranclp.rtrancl_into_rtrancl [OF assms(1) sup_step.move [OF assms(2,3)]] assms(4) by simp

lemmas sp_moves = supervise_def demo_sp_def stopped_def

lemma to_window:
  assumes "sup_step\<^sup>*\<^sup>* s0 s" "procs s [1] = None" "i = length (su_all s)"
  shows "sup_step\<^sup>*\<^sup>* s0 (s\<lparr>procs := (procs s)([1] \<mapsto> i), su_all := su_all s @ [demo_sp\<lparr>sp_pc := AtPrep\<rparr>]\<rparr>)"
  by (rule sup_moves [OF rtranclp.rtrancl_into_rtrancl [OF assms(1) demo_launch [OF assms(2)]], of i Go])
     (simp_all add: assms(3) sp_moves)

lemma through_window:
  assumes "sup_step\<^sup>*\<^sup>* s0 s" "i < length (su_all s)" "su_all s ! i = sp" "sp_pc sp = AtPrep"
  shows "sup_step\<^sup>*\<^sup>* s0 (s\<lparr>su_all := (su_all s)[i := sp\<lparr>sp_proc := Live, sp_pc := AtWait\<rparr>]\<rparr>)"
proof -
  let ?t = "s\<lparr>su_all := (su_all s)[i := sp\<lparr>sp_proc := NoProc, sp_pc := AtStart\<rparr>]\<rparr>"
  have "sup_step\<^sup>*\<^sup>* s0 ?t" by (rule sup_moves [OF assms(1,2), of Go]) (simp_all add: supervise_def assms(3,4))
  from sup_moves [OF this, of i Started "sp\<lparr>sp_proc := Live, sp_pc := AtWait\<rparr>" "s\<lparr>su_all := (su_all s)[i := sp\<lparr>sp_proc := Live, sp_pc := AtWait\<rparr>]\<rparr>"]
  show ?thesis using assms(2) by (simp add: supervise_def)
qed

text \<open>
  In that window a stop is lost. There is a course of events in which a door is launched,
  stopped, and launched again, after which two processes of it run at once: the first, started
  after the stop because its goroutine had already passed the check and had no process to kill yet,
  is in no table any more, so nothing can stop it until it exits by itself.
\<close>

theorem Stop_race:
  "\<exists>s. sup_step\<^sup>*\<^sup>* NewSupervisor s \<and> procs s = [[1] \<mapsto> 1] \<and>
     map sp_name (su_all s) = [[1], [1]] \<and> map sp_proc (su_all s) = [Live, Live] \<and> map sp_stop (su_all s) = [True, False]"
proof -
  let ?p = "demo_sp\<lparr>sp_pc := AtPrep\<rparr>" let ?l = "\<lambda>sp. sp\<lparr>sp_proc := Live, sp_pc := AtWait\<rparr>"
  have "sup_step\<^sup>*\<^sup>* NewSupervisor \<lparr>procs = [[1] \<mapsto> 0], su_all = [?p]\<rparr>"
    using to_window [OF rtranclp.rtrancl_refl, of NewSupervisor 0] by (simp add: NewSupervisor_def)
  from rtranclp.rtrancl_into_rtrancl [OF this sup_step.stop [of _ "[1]"]]
  have "sup_step\<^sup>*\<^sup>* NewSupervisor \<lparr>procs = Map.empty, su_all = [stopped ?p]\<rparr>" by (simp add: Stop_def)
  from to_window [OF this, of 1]
  have "sup_step\<^sup>*\<^sup>* NewSupervisor \<lparr>procs = [[1] \<mapsto> 1], su_all = [stopped ?p, ?p]\<rparr>" by simp
  from through_window [OF this, of 0 "stopped ?p"]
  have "sup_step\<^sup>*\<^sup>* NewSupervisor \<lparr>procs = [[1] \<mapsto> 1], su_all = [?l (stopped ?p), ?p]\<rparr>" by (simp add: stopped_def)
  from through_window [OF this, of 1 ?p]
  have "sup_step\<^sup>*\<^sup>* NewSupervisor \<lparr>procs = [[1] \<mapsto> 1], su_all = [?l (stopped ?p), ?l ?p]\<rparr>" by simp
  then show ?thesis by (intro exI conjI, assumption) (simp_all add: stopped_def demo_sp_def)
qed

lemma demo_running: "sup_step\<^sup>*\<^sup>* NewSupervisor \<lparr>procs = [[1] \<mapsto> 0], su_all = [demo_sp]\<rparr>"
  using demo_launch [of NewSupervisor] by (auto simp: NewSupervisor_def)

theorem supervisor_one_each_witness:
  "Running [1] \<lparr>procs = [[1] \<mapsto> 0], su_all = [demo_sp]\<rparr> \<and> \<not> Running [2] \<lparr>procs = [[1] \<mapsto> 0], su_all = [demo_sp]\<rparr>"
  using supervisor_one_each [OF demo_running, of "[1]"] supervisor_one_each [OF demo_running, of "[2]"]
  by (simp add: demo_sp_def Ex1_def cong: conj_cong)

theorem Stop_ends_witness:
  "sp_proc (su_all (Stop [1] \<lparr>procs = [[1] \<mapsto> 0], su_all = [demo_sp]\<rparr>) ! 0) \<noteq> Live"
  using Stop_ends [OF demo_running, of "[1]" 0] by (simp add: demo_sp_def)

end
