(* ===== verification/Caller.thy ===== *)
theory Caller
  imports StoreInv SessionInput Supervisor
begin

text \<open>
  One caller's visit: the store, the caller's session (\<open>session/session.go\<close>), the audit
  logger, the handle cache of the screen in hand, and the supervisor of the resident doors.
  The menus of \<open>menu/\<close> are programs over this state. What they take from libraries is the
  argument \<open>L\<close>: JSON, IP addresses and networks, SSH keys, the Unicode tables behind
  \<open>strings.ToLower\<close>, \<open>strings.ToUpper\<close> and \<open>%q\<close>, SQL's \<open>LIKE\<close> and its sum of
  a \<open>REAL\<close> column, the texts of errors, and what the platform makes of a \<open>float64\<close> out of range in
  a conversion to \<open>int64\<close>.

  A loop of the sources that reads from the caller in every round is a \<open>for_loop\<close>. It ends
  because the caller's input is finite; the test that makes the recursion well-founded is
  shown to be no restriction (\<open>for_loop_unfold\<close>, for a body that \<open>eats\<close>).
\<close>

record ('ip, 'net) libs =
  l_json :: json
  l_net :: "('ip, 'net) netlib"
  l_ssh :: ssh_lib
  l_ulow :: "bytes \<Rightarrow> bytes"
  l_uup :: "bytes \<Rightarrow> bytes"
  l_quote :: "bytes \<Rightarrow> bytes"
  l_like :: "bytes \<Rightarrow> bytes \<Rightarrow> bool"
  l_err :: "gerr \<Rightarrow> bytes"
  l_sum :: "float64 list \<Rightarrow> float64"
  l_oor :: "float64 \<Rightarrow> int"

record call = store +
  c_sess :: session
  c_log :: logger
  c_handles :: "(int \<times> bytes) list"
  c_sup :: sup

section \<open>Reading from the caller and writing to the screen\<close>

definition on_sess :: "(session, 'x) prog \<Rightarrow> ('a call_scheme, 'x) prog" where
  "on_sess m s = (case m (c_sess s) of (r, ss) \<Rightarrow> (r, s\<lparr>c_sess := ss\<rparr>))"

definition rd_line :: "('a call_scheme, bytes) prog" where
  "rd_line = on_sess ReadLine"

definition rd_password :: "('a call_scheme, bytes) prog" where
  "rd_password = on_sess ReadPassword"

definition rd_key :: "('a call_scheme, byte) prog" where
  "rd_key = on_sess ReadKey"

text \<open>\<open>screen.New(s, cap.ANSI, cap.Cols)\<close>, and a sequence of calls of the writer.\<close>

definition scr_New :: "('a call_scheme, writer) prog" where
  "scr_New s = (let ss = c_sess s in
     (Inr (NewWriter [] (cap_ansi (s_cap ss)) (cap_cols (s_cap ss)) (s_colorblind ss)), s))"

definition say :: "writer \<Rightarrow> wcall list \<Rightarrow> ('a call_scheme, unit) prog" where
  "say w cs = on_sess (\<lambda>ss. (Inr (), sess_write (wr_out (wr_calls cs w)) ss))"

definition sess_raw_write :: "bytes \<Rightarrow> ('a call_scheme, unit) prog" where
  "sess_raw_write p = on_sess (\<lambda>ss. (Inr (), sess_write p ss))"

definition scr_Red :: int where "scr_Red = 31"
definition scr_Yellow :: int where "scr_Yellow = 33"
definition scr_Magenta :: int where "scr_Magenta = 35"
definition scr_Cyan :: int where "scr_Cyan = 36"
definition scr_White :: int where "scr_White = 37"

text \<open>The green prompt in front of every question, a line break, and the long dash.\<close>

definition ask :: "bytes \<Rightarrow> wcall list" where
  "ask t = [CColor scr_Green, CPrint t, CReset]"

definition nl :: bytes where "nl = [13, 10]"

definition dash :: bytes where "dash = [0xE2, 0x80, 0x94]"

definition quot :: bytes where "quot = [34]"

definition apos :: bytes where "apos = [39]"

section \<open>The audit trail of a session\<close>

definition session_event :: "bytes \<Rightarrow> bytes \<Rightarrow> bytes \<Rightarrow> float64 \<Rightarrow> int \<Rightarrow> session \<Rightarrow> event" where
  "session_event typ action detail minutes now ss = \<lparr>ev_Time = now, ev_Type = typ, ev_SessionID = s_id ss,
     ev_RemoteIP = s_ip ss, ev_Transport = s_transport ss, ev_Username = s_username ss, ev_Action = action,
     ev_Detail = detail, ev_Minutes = minutes\<rparr>"

definition emit :: "('ip, 'net) libs \<Rightarrow> event \<Rightarrow> ('a call_scheme, unit) prog" where
  "emit L e s = (case Emit (st_prims s) (l_json L) [slog_Emit] e (c_log s) s of (l, s') \<Rightarrow> (Inr (), s'\<lparr>c_log := l\<rparr>))"

definition Activity :: "('ip, 'net) libs \<Rightarrow> bytes \<Rightarrow> bytes \<Rightarrow> ('a call_scheme, unit) prog" where
  "Activity L action detail s = chk time_Now (\<lambda>now.
     emit L (session_event TypeActivity action detail 0 now (c_sess s))) s"

text \<open>\<open>New\<close> on a fresh connection: the capability, the start of the clock, the event.\<close>

definition sess_New :: "('ip, 'net) libs \<Rightarrow> bytes \<Rightarrow> bytes \<Rightarrow> int \<Rightarrow> int \<Rightarrow> ('a call_scheme, unit) prog" where
  "sess_New L sid term cols rows = chk time_Now (\<lambda>now.
     chk (on_sess (\<lambda>ss. (Inr (), ss\<lparr>s_id := sid, s_start := now, s_cap := DetectCapability (l_ulow L) term cols rows\<rparr>)))
       (\<lambda>_ s. emit L (session_event TypeConnect [] [] 0 now (c_sess s)) s))"

definition sess_Close :: "('ip, 'net) libs \<Rightarrow> ('a call_scheme, unit) prog" where
  "sess_Close L = chk (on_sess (\<lambda>ss. (Inr (), ss\<lparr>s_idle_at := None, s_budget_at := None\<rparr>))) (\<lambda>_.
     chk time_Now (\<lambda>now.
     chk (\<lambda>s. emit L (session_event TypeDisconnect [] [] (dur_Minutes (time_Sub now (s_start (c_sess s)))) now (c_sess s)) s) (\<lambda>_.
     on_sess (\<lambda>ss. (Inr (), ss\<lparr>s_closed := True\<rparr>)))))"

section \<open>Loops over the caller's input\<close>

definition unread :: "'a call_scheme \<Rightarrow> nat" where
  "unread s = length (s_in (c_sess s))"

text \<open>\<open>body x\<close> runs one round from the loop's variables \<open>x\<close> and either leaves the loop with a
  result (\<open>Inl\<close>) or goes round again with new values (\<open>Inr\<close>).\<close>

function for_loop :: "('x \<Rightarrow> ('a call_scheme, 'y + 'x) prog) \<Rightarrow> 'x \<Rightarrow> ('a call_scheme, 'y) prog" where
  "for_loop body x s = (case body x s of
     (Inl e, s') \<Rightarrow> (Inl e, s')
   | (Inr (Inl y), s') \<Rightarrow> (Inr y, s')
   | (Inr (Inr x'), s') \<Rightarrow> if unread s' < unread s then for_loop body x' s' else (Inl ErrStuck, s'))"
  by pat_completeness auto
termination
  by (relation "measure (\<lambda>(body, x, s). unread s)") auto

declare for_loop.simps [simp del]

definition again :: "'x \<Rightarrow> ('s, 'y + 'x) prog" where
  "again x = ret (Inr x)"

definition leave :: "'y \<Rightarrow> ('s, 'y + 'x) prog" where
  "leave y = ret (Inl y)"

text \<open>A program that succeeds only after it has read something.\<close>

definition gets :: "('a call_scheme, 'x) prog \<Rightarrow> bool" where
  "gets m \<longleftrightarrow> (\<forall>s x s'. m s = (Inr x, s') \<longrightarrow> unread s' < unread s)"

definition eats :: "('x \<Rightarrow> ('a call_scheme, 'y + 'x) prog) \<Rightarrow> bool" where
  "eats body \<longleftrightarrow> (\<forall>x. gets (body x))"

lemma for_loop_unfold:
  assumes "eats body"
  shows "for_loop body x = chk (body x) (\<lambda>r. case r of Inl y \<Rightarrow> ret y | Inr x' \<Rightarrow> for_loop body x')"
proof (rule ext)
  fix s
  show "for_loop body x s = chk (body x) (\<lambda>r. case r of Inl y \<Rightarrow> ret y | Inr x' \<Rightarrow> for_loop body x') s"
  proof (cases "body x s")
    case (Pair r s')
    moreover have "unread s' < unread s" if "r = Inr z" for z
      using assms that Pair unfolding eats_def gets_def by blast
    ultimately show ?thesis by (auto simp: for_loop.simps [of body x s] chk_run split: sum.splits)
  qed
qed

section \<open>What reading does to the input\<close>

lemma nextByte_in:
  assumes "nextByte ss = (r, ss')"
  shows "suffix (s_in ss') (s_in ss)" "r = Inr b \<Longrightarrow> length (s_in ss') < length (s_in ss)"
  using reads_nextByte [OF assms] nextByte_Inr assms by (auto simp: reads_def)

lemma line_loop_in:
  "line_loop buf ss = (r, ss') \<Longrightarrow> suffix (s_in ss') (s_in ss) \<and> (\<forall>x. r = Inr x \<longrightarrow> length (s_in ss') < length (s_in ss))"
proof (induction "length (s_in ss)" arbitrary: buf ss rule: less_induct)
  case less
  obtain q s1 where q: "nextByte ss = (q, s1)" by fastforce
  show ?case
  proof (cases q)
    case (Inl e)
    then show ?thesis using less.prems q nextByte_in [OF q] by (auto simp: line_loop.simps [of buf ss])
  next
    case (Inr b)
    have lt: "length (s_in s1) < length (s_in ss)" and sf: "suffix (s_in s1) (s_in ss)" using nextByte_in [OF q] Inr by auto
    have "(\<exists>w. ss' = sess_write w s1) \<or> (\<exists>buf' s2. s_in s2 = s_in s1 \<and> line_loop buf' s2 = (r, ss'))"
      using less.prems q Inr by (auto simp: line_loop.simps [of buf ss] split: if_splits)
    then show ?thesis
    proof (elim disjE exE conjE)
      fix buf' s2
      assume "s_in s2 = s_in s1" "line_loop buf' s2 = (r, ss')"
      then show ?thesis using less.hyps [of s2 buf'] lt sf by (auto intro: suffix_order.trans)
    qed (use lt sf in simp)
  qed
qed

lemma password_loop_in:
  "password_loop buf ss = (r, ss') \<Longrightarrow> suffix (s_in ss') (s_in ss) \<and> (\<forall>x. r = Inr x \<longrightarrow> length (s_in ss') < length (s_in ss))"
proof (induction "length (s_in ss)" arbitrary: buf ss rule: less_induct)
  case less
  obtain q s1 where q: "nextByte ss = (q, s1)" by fastforce
  show ?case
  proof (cases q)
    case (Inl e)
    then show ?thesis using less.prems q nextByte_in [OF q] by (auto simp: password_loop.simps [of buf ss])
  next
    case (Inr b)
    have lt: "length (s_in s1) < length (s_in ss)" and sf: "suffix (s_in s1) (s_in ss)" using nextByte_in [OF q] Inr by auto
    have "(\<exists>w. ss' = sess_write w s1) \<or> (\<exists>buf' s2. s_in s2 = s_in s1 \<and> password_loop buf' s2 = (r, ss'))"
      using less.prems q Inr by (auto simp: password_loop.simps [of buf ss] split: if_splits)
    then show ?thesis
    proof (elim disjE exE conjE)
      fix buf' s2
      assume "s_in s2 = s_in s1" "password_loop buf' s2 = (r, ss')"
      then show ?thesis using less.hyps [of s2 buf'] lt sf by (auto intro: suffix_order.trans)
    qed (use lt sf in simp)
  qed
qed

lemma ReadKey_in:
  "ReadKey ss = (r, ss') \<Longrightarrow> suffix (s_in ss') (s_in ss) \<and> (\<forall>x. r = Inr x \<longrightarrow> length (s_in ss') < length (s_in ss))"
proof (induction ss rule: ReadKey.induct)
  case (1 ss)
  obtain q s1 where q: "nextByte ss = (q, s1)" by fastforce
  show ?case
  proof (cases q)
    case (Inl e)
    then show ?thesis using 1(2) q nextByte_in [OF q] by (simp add: ReadKey.simps [of ss])
  next
    case (Inr b)
    have "length (s_in s1) < length (s_in ss)" "suffix (s_in s1) (s_in ss)" using nextByte_in [OF q] Inr by auto
    then show ?thesis using 1 q Inr by (fastforce simp: ReadKey.simps [of ss] split: if_splits intro: suffix_order.trans)
  qed
qed

lemma gets_readers: "gets rd_line" "gets rd_password" "gets rd_key"
  by (auto simp: gets_def rd_line_def rd_password_def rd_key_def on_sess_def unread_def ReadLine_def ReadPassword_def
      dest: line_loop_in password_loop_in ReadKey_in split: prod.splits)

section \<open>Frames of a visit\<close>

text \<open>
  What every program of a menu keeps: the statements it executes respect \<open>Q\<close>, the
  caller's input is only consumed, from the front, and the keys and whatever the state is extended by stay. The audit mirror writes to the database in every activity, so \<open>Q\<close> must
  admit that statement.
\<close>

definition hears :: "'a call_scheme \<Rightarrow> 'a call_scheme \<Rightarrow> bool" where
  "hears s s' \<longleftrightarrow> suffix (s_in (c_sess s')) (s_in (c_sess s)) \<and> st_prims s' = st_prims s \<and> st_vault s' = st_vault s \<and>
     call.more s' = call.more s"

lemma hears_unread: "hears s s' \<Longrightarrow> unread s' \<le> unread s"
  by (simp add: hears_def unread_def suffix_length_le)

lemma hears_refl [simp]: "hears s s"
  by (simp add: hears_def)

lemma hears_trans: "hears s t \<Longrightarrow> hears t u \<Longrightarrow> hears s u"
  by (auto simp: hears_def intro: suffix_order.trans)

locale call_frame = db_frame +
  assumes slog_ok: "ins_slog r d = Inr (x, d') \<Longrightarrow> Q d d'"
begin

definition callR :: "'a call_scheme \<Rightarrow> 'a call_scheme \<Rightarrow> bool" where
  "callR s s' \<longleftrightarrow> Q (st_db s) (st_db s') \<and> hears s s'"

end

sublocale call_frame \<subseteq> call: frame_rel callR
  by unfold_locales (auto simp: callR_def intro: db_refl db_trans hears_trans)

context call_frame
begin

lemma fixed_call:
  assumes "dbR (s :: 'a call_scheme) s'"
  shows "callR s s'" "c_sess s' = c_sess s" "c_log s' = c_log s" "c_handles s' = c_handles s" "call.more s' = call.more s"
proof -
  have "store.more s' = store.more s" using assms by (simp add: dbR_def st_fixed_def)
  then show *: "c_sess s' = c_sess s" "c_log s' = c_log s" "c_handles s' = c_handles s" "call.more s' = call.more s"
    by (cases s, cases s', simp)+
  show "callR s s'" using assms * by (simp add: callR_def dbR_def hears_def st_fixed_def)
qed

lemma steps_store: "steps dbR m \<Longrightarrow> steps callR m"
  by (simp add: steps_def fixed_call(1))

lemma steps_on_sess:
  assumes "\<And>ss r ss'. m ss = (r, ss') \<Longrightarrow> suffix (s_in ss') (s_in ss)"
  shows "steps callR (on_sess m)"
  unfolding steps_def
proof (intro allI)
  fix s
  show "callR s (snd (on_sess m s))"
    using assms [of "c_sess s"] by (cases "m (c_sess s)") (simp add: on_sess_def callR_def hears_def db_refl)
qed

lemma steps_readers: "steps callR rd_line" "steps callR rd_password" "steps callR rd_key"
  unfolding rd_line_def rd_password_def rd_key_def ReadLine_def ReadPassword_def
  by (rule steps_on_sess; simp add: line_loop_in password_loop_in ReadKey_in)+

lemma steps_screen: "steps callR scr_New" "steps callR (say w cs)" "steps callR (sess_raw_write p)"
proof -
  show "steps callR scr_New" by (simp add: steps_def scr_New_def call.frame_refl Let_def)
  have "steps callR (on_sess (\<lambda>ss. (Inr (), sess_write p ss)))" for p by (rule steps_on_sess) auto
  then show "steps callR (say w cs)" "steps callR (sess_raw_write p)" by (simp_all add: say_def sess_raw_write_def)
qed

lemma steps_slog: "steps dbR (slog_Emit e)"
  unfolding slog_Emit_def by (intro db_rules; erule slog_ok)

lemma os_Append_same: "st_db (snd (os_Append p b s)) = st_db s" "st_fixed (snd (os_Append p b s)) = st_fixed s"
  by (simp_all add: os_Append_def Let_def st_fixed_def split: option.splits)

lemma emit_locked_dbR: "dbR s (snd (emit_locked P plain l s))"
proof -
  obtain r s1 where seal: "Seal P (lg_vault l) plain s = (r, s1)" by fastforce
  then have 1: "dbR s s1" using steps_vseal unfolding steps_def by (metis snd_conv)
  have "dbR s1 (snd (os_Append p b s1))" for p b by (simp add: dbR_def os_Append_same db_refl)
  moreover have "dbR t (snd (ext err t))" for t :: "'a store_scheme" and err
    by (rule steps_ext [unfolded steps_def, rule_format])
  ultimately show ?thesis using 1 seal
    by (auto simp: emit_locked_def Let_def split: sum.splits prod.splits) (metis frame_trans snd_conv)+
qed

lemma Emit_dbR: "dbR s (snd (Emit P J [slog_Emit] e l s))"
proof -
  have "dbR s (snd (slog_Emit e (snd (emit_locked P plain l s))))" for plain
    using emit_locked_dbR steps_slog frame_trans unfolding steps_def by blast
  then show ?thesis by (auto simp: Emit_def frame_refl split: option.splits prod.splits) (metis snd_conv)
qed

lemma steps_emit: "steps callR (emit L e)"
  unfolding steps_def
proof (intro allI)
  fix s :: "'a call_scheme"
  obtain l s' where run: "Emit (st_prims s) (l_json L) [slog_Emit] e (c_log s) s = (l, s')" by fastforce
  then have "dbR s s'" using Emit_dbR by (metis snd_conv)
  from fixed_call [OF this] show "callR s (snd (emit L e s))"
    using run by (simp add: emit_def callR_def hears_def)
qed

lemma steps_fresh: "(\<And>t. steps R (m t)) \<Longrightarrow> steps R (\<lambda>s. m s s)"
  by (simp add: steps_def)

lemma steps_now_call: "steps callR time_Now"
  by (rule steps_store [OF steps_now])

lemma steps_Activity: "steps callR (Activity L a b)"
proof -
  have "steps callR (\<lambda>s. chk time_Now (\<lambda>now. emit L (session_event TypeActivity a b 0 now (c_sess s))) s)"
    by (rule steps_fresh) (intro call.steps_rules steps_now_call steps_emit)
  then show ?thesis by (simp add: Activity_def [abs_def])
qed

lemma steps_session: "steps callR (sess_New L sid tm cols rows)" "steps callR (sess_Close L)"
proof -
  have ev: "steps callR (\<lambda>s. emit L (f (c_sess s)) s)" for f by (rule steps_fresh) (rule steps_emit)
  have upd: "steps callR (on_sess (\<lambda>ss. (Inr (), f ss)))" if "\<And>ss. s_in (f ss) = s_in ss" for f
    using that by (intro steps_on_sess) auto
  show "steps callR (sess_New L sid tm cols rows)" "steps callR (sess_Close L)"
    unfolding sess_New_def sess_Close_def by (intro call.steps_rules steps_now_call ev upd; simp)+
qed

lemma gets_first: "gets m \<Longrightarrow> (\<And>x. steps callR (k x)) \<Longrightarrow> gets (chk m k)"
  unfolding gets_def steps_def callR_def by (metis (no_types, opaque_lifting) chk_InrE hears_unread le_less_trans snd_conv)

lemma gets_later: "steps callR m \<Longrightarrow> (\<And>x. gets (k x)) \<Longrightarrow> gets (chk m k)"
  unfolding gets_def steps_def callR_def by (metis (no_types, opaque_lifting) chk_InrE hears_unread less_le_trans snd_conv)

lemma gets_att: "steps callR m \<Longrightarrow> (\<And>r. gets (k r)) \<Longrightarrow> gets (att m k)"
  unfolding gets_def steps_def callR_def att_run
  by (metis (no_types, lifting) hears_unread less_le_trans prod.case_eq_if snd_conv)

text \<open>
  A triple: from a state with \<open>P\<close>, \<open>m\<close> keeps the frame and a result it returns satisfies \<open>M\<close>.
  A fact that the frame preserves is \<open>stable\<close> and may be carried past any program.
\<close>

definition triple :: "('a call_scheme \<Rightarrow> bool) \<Rightarrow> ('a call_scheme, 'x) prog \<Rightarrow> ('x \<Rightarrow> 'a call_scheme \<Rightarrow> bool) \<Rightarrow> bool" where
  "triple P m M \<longleftrightarrow> (\<forall>s. P s \<longrightarrow> callR s (snd (m s)) \<and> (\<forall>x. fst (m s) = Inr x \<longrightarrow> M x (snd (m s))))"

definition stable :: "('a call_scheme \<Rightarrow> bool) \<Rightarrow> bool" where
  "stable P \<longleftrightarrow> (\<forall>s s'. callR s s' \<longrightarrow> P s \<longrightarrow> P s')"

lemma triple_ret: "(\<And>s. P s \<Longrightarrow> M x s) \<Longrightarrow> triple P (ret x) M"
  by (simp add: triple_def call.frame_refl)

lemma triple_fail: "triple P (fail e) M"
  by (simp add: triple_def call.frame_refl)

lemma triple_chk:
  assumes "triple P m M" "\<And>x. triple (M x) (k x) N"
  shows "triple P (chk m k) N"
  unfolding triple_def
proof (intro allI impI)
  fix s
  assume P: "P s"
  obtain r s' where run: "m s = (r, s')" by fastforce
  show "callR s (snd (chk m k s)) \<and> (\<forall>x. fst (chk m k s) = Inr x \<longrightarrow> N x (snd (chk m k s)))"
  proof (cases r)
    case (Inr x)
    have "callR s s'" "M x s'" using assms(1) P run Inr unfolding triple_def by (metis fst_conv snd_conv)+
    moreover have "callR s' (snd (k x s')) \<and> (\<forall>y. fst (k x s') = Inr y \<longrightarrow> N y (snd (k x s')))"
      using assms(2) [of x] \<open>M x s'\<close> by (simp add: triple_def)
    ultimately show ?thesis using run Inr call.frame_trans by auto
  next
    case (Inl e)
    then show ?thesis using assms(1) P run unfolding triple_def by (auto dest!: spec [of _ s])
  qed
qed

lemma triple_steps: "steps callR m \<Longrightarrow> stable P \<Longrightarrow> (\<And>x s. P s \<Longrightarrow> M x s) \<Longrightarrow> triple P m M"
  unfolding triple_def steps_def stable_def by blast

lemma triple_frame: "triple P m M \<Longrightarrow> stable P \<Longrightarrow> (\<And>x s. P s \<Longrightarrow> M x s \<Longrightarrow> N x s) \<Longrightarrow> triple P m N"
  unfolding triple_def stable_def by blast

lemma triple_att:
  assumes "triple P m M" "stable P" "\<And>e. triple P (k (Inl e)) N" "\<And>x. triple (\<lambda>s. P s \<and> M x s) (k (Inr x)) N"
  shows "triple P (att m k) N"
  unfolding triple_def
proof (intro allI impI)
  fix s
  assume P: "P s"
  obtain r s' where run: "m s = (r, s')" by fastforce
  have "callR s s'" using assms(1) P run unfolding triple_def by (metis snd_conv)
  moreover from this have "P s'" using assms(2) P unfolding stable_def by blast
  moreover have "callR s' (snd (k r s')) \<and> (\<forall>y. fst (k r s') = Inr y \<longrightarrow> N y (snd (k r s')))"
  proof (cases r)
    case (Inl e)
    then show ?thesis using assms(3) [of e] \<open>P s'\<close> by (simp add: triple_def)
  next
    case (Inr x)
    then have "M x s'" using assms(1) P run unfolding triple_def by (metis fst_conv snd_conv)
    then show ?thesis using assms(4) [of x] \<open>P s'\<close> Inr by (simp add: triple_def)
  qed
  ultimately show "callR s (snd (att m k s)) \<and> (\<forall>x. fst (att m k s) = Inr x \<longrightarrow> N x (snd (att m k s)))"
    using run call.frame_trans by (auto simp: att_run)
qed

lemma triple_seq: "steps callR m \<Longrightarrow> stable P \<Longrightarrow> (\<And>x. triple P (k x) N) \<Longrightarrow> triple P (chk m k) N"
  by (rule triple_chk [where M = "\<lambda>_. P"]) (auto intro: triple_steps)

lemma triple_try:
  assumes "steps callR m" "stable P" "\<And>r. triple P (k r) N"
  shows "triple P (att m k) N"
  by (rule triple_att [where M = "\<lambda>_. P"]) (use assms in \<open>auto intro: triple_steps\<close>)

lemma triple_if: "triple P m N \<Longrightarrow> triple P n N \<Longrightarrow> triple P (if b then m else n) N"
  by simp

lemma triple_option: "triple P n N \<Longrightarrow> (\<And>x. triple P (f x) N) \<Longrightarrow> triple P (case r of None \<Rightarrow> n | Some x \<Rightarrow> f x) N"
  by (cases r) auto

lemma triple_sum: "(\<And>e. triple P (f e) N) \<Longrightarrow> (\<And>x. triple P (g x) N) \<Longrightarrow> triple P (case r of Inl e \<Rightarrow> f e | Inr x \<Rightarrow> g x) N"
  by (cases r) auto

lemma triple_prod: "(\<And>x y. triple P (f x y) N) \<Longrightarrow> triple P (case p of (x, y) \<Rightarrow> f x y) N"
  by (cases p) auto

lemma triple_weaken: "triple Q' m N \<Longrightarrow> (\<And>s. P s \<Longrightarrow> Q' s) \<Longrightarrow> triple P m N"
  by (auto simp: triple_def)

text \<open>A program that keeps the frame anyway, in front of any claim the precondition gives.\<close>

lemma triple_plain: "steps callR m \<Longrightarrow> stable P \<Longrightarrow> triple P m (\<lambda>_. P)"
  by (rule triple_steps)

lemma triple_loop:
  assumes body: "\<And>x. triple (I x) (body x) (\<lambda>r s. case r of Inl y \<Rightarrow> M y s | Inr x' \<Rightarrow> I x' s)"
  shows "triple (I x) (for_loop body x) M"
proof -
  have "callR s (snd (for_loop body x s)) \<and> (\<forall>y. fst (for_loop body x s) = Inr y \<longrightarrow> M y (snd (for_loop body x s)))"
    if "I x s" for s x
    using that
  proof (induction "unread s" arbitrary: x s rule: less_induct)
    case less
    obtain r s' where run: "body x s = (r, s')" by fastforce
    then have step: "callR s s'" "\<And>z. r = Inr z \<Longrightarrow> case z of Inl y \<Rightarrow> M y s' | Inr x' \<Rightarrow> I x' s'"
      using body [of x] less.prems unfolding triple_def by (metis snd_conv, metis fst_conv snd_conv)
    consider e where "r = Inl e" | y where "r = Inr (Inl y)" | x' where "r = Inr (Inr x')" by (metis sum.exhaust)
    then show ?case
    proof cases
      case 3
      then have "I x' s'" using step(2) by fastforce
      with less.hyps [of s' x'] show ?thesis
        using run 3 step(1) call.frame_trans by (auto simp: for_loop.simps [of body x s])
    qed (use run step in \<open>auto simp: for_loop.simps [of body x s]\<close>)
  qed
  then show ?thesis by (simp add: triple_def)
qed

lemma triple_True: "triple (\<lambda>s. True) m (\<lambda>x s. True) \<longleftrightarrow> steps callR m"
  by (simp add: triple_def steps_def)

lemma steps_loop: "(\<And>x. steps callR (body x)) \<Longrightarrow> steps callR (for_loop body x)"
  using triple_loop [of "\<lambda>x s. True" body "\<lambda>y s. True"] by (simp add: triple_True [symmetric] sum.case_eq_if)

lemma steps_ends: "steps callR (again x)" "steps callR (leave y)"
  by (simp_all add: again_def leave_def call.steps_ret)

lemmas call_rules = call.steps_rules steps_readers steps_screen steps_now_call steps_Activity steps_loop steps_ends

end

section \<open>A concrete visit\<close>

text \<open>A call on a working machine with the stand-in cipher, and libraries to go with it.\<close>

definition demo_libs :: "(byte, byte) libs" where
  "demo_libs = \<lparr>l_json = demo_json, l_net = demo_net,
     l_ssh = \<lparr>ssh_parse = (\<lambda>l. if l = [] then None else Some (l, [])), ssh_marshal = id, ssh_fingerprint = id\<rparr>,
     l_ulow = id, l_uup = id, l_quote = id, l_like = (\<lambda>p x. contains x p), l_err = (\<lambda>e. []),
     l_sum = (\<lambda>xs. foldl f64_add 0 xs), l_oor = (\<lambda>_. - (2 ^ 63))\<rparr>"

definition demo_call :: "db \<Rightarrow> session \<Rightarrow> call" where
  "demo_call d ss = store.extend (calm_store d)
     (call.fields ss \<lparr>lg_path = str ''audit'', lg_vault = \<lparr>v_key = [1], v_macKey = []\<rparr>, lg_prevMAC = []\<rparr> [] NewSupervisor)"

lemma demo_call_simps [simp]:
  "sound (demo_call d ss)" "st_db (demo_call d ss) = d" "st_prims (demo_call d ss) = clear_prims"
  "st_vault (demo_call d ss) = \<lparr>v_key = [1], v_macKey = []\<rparr>" "c_sess (demo_call d ss) = ss"
  "e_step (demo_call d ss) = 0" "e_clock (demo_call d ss) = int" "c_handles (demo_call d ss) = []"
  by (simp_all add: demo_call_def calm_store_def calm_env_def call.defs store.defs env.defs sound_def)

text \<open>What a caller types, each byte at once.\<close>

definition keyed :: "bytes \<Rightarrow> (nat \<times> byte) list" where
  "keyed bs = map (Pair 0) bs"

end
