(* ===== verification/Screens.thy ===== *)
theory Screens
  imports Caller
begin

text \<open>
  What the screens of \<open>menu/\<close> share: the pager (\<open>menu/pager.go\<close>), the handle cache, numbered
  lists, the prompt, the body editor that ends with a single dot, and the SysOp's step-up
  password; and what each of them keeps.
\<close>

section \<open>The pager\<close>

definition pageSize :: int where "pageSize = 15"

definition pageWindow :: "int \<Rightarrow> int \<Rightarrow> int \<times> int \<times> int" where
  "pageWindow n page =
     (let pages = (n + pageSize - 1) div pageSize;
          pages = (if pages < 1 then 1 else pages);
          page = (if page < 0 then 0 else page);
          page = (if page \<ge> pages then pages - 1 else page);
          lo = page * pageSize;
          hi = lo + pageSize;
          hi = (if hi > n then n else hi)
      in (lo, hi, pages))"

definition clampPage :: "int \<Rightarrow> int \<Rightarrow> int" where
  "clampPage page pages = (if page < 0 then 0 else if page \<ge> pages then pages - 1 else page)"

definition pageFooter :: "writer \<Rightarrow> int \<Rightarrow> int \<Rightarrow> ('a call_scheme, unit) prog" where
  "pageFooter w page pages = (if pages \<le> 1 then ret () else
     say w [CColor scr_Blue, CPrint (str ''  -- page '' @ itoa (page + 1) @ str ''/'' @ itoa pages @
       str '' --  [>] next  [<] prev'' @ nl), CReset])"

text \<open>The numbered rows of a window, \<open>for i := lo; i < hi; i++ { xs[i] }\<close>; numbers start at 1.\<close>

definition window_rows :: "int \<Rightarrow> int \<Rightarrow> 'x list \<Rightarrow> (int \<times> 'x) list" where
  "window_rows lo hi xs = map (\<lambda>i. (i + 1, xs ! nat i)) [lo..hi - 1]"

definition numbered :: "'x list \<Rightarrow> (int \<times> 'x) list" where
  "numbered xs = window_rows 0 (int (length xs)) xs"

section \<open>Lists and prompts\<close>

fun for_each :: "('x \<Rightarrow> ('s, unit) prog) \<Rightarrow> 'x list \<Rightarrow> ('s, unit) prog" where
  "for_each f [] = ret ()"
| "for_each f (x # xs) = chk (f x) (\<lambda>_. for_each f xs)"

text \<open>\<open>_, _ = m\<close>: run it and drop what it returns.\<close>

definition ignore :: "('s, 'x) prog \<Rightarrow> ('s, unit) prog" where
  "ignore m = att m (\<lambda>_. ret ())"

text \<open>\<open>v, _ := m\<close>: on an error \<open>v\<close> is the zero value the function returned.\<close>

definition default :: "'x \<Rightarrow> ('s, 'x) prog \<Rightarrow> ('s, 'x) prog" where
  "default z m = att m (\<lambda>r. ret (case r of Inl e \<Rightarrow> z | Inr x \<Rightarrow> x))"

definition prompt :: "writer \<Rightarrow> bytes \<Rightarrow> ('a call_scheme, bytes) prog" where
  "prompt w label = chk (say w (ask (nl @ label))) (\<lambda>_. chk (default [] rd_line) (\<lambda>v. ret (TrimSpace v)))"

text \<open>\<open>n, err := strconv.Atoi(in)\<close> with \<open>1 <= n <= len(xs)\<close>: the chosen row.\<close>

definition pick :: "bytes \<Rightarrow> 'x list \<Rightarrow> 'x option" where
  "pick inp xs = (case atoi inp of None \<Rightarrow> None
     | Some n \<Rightarrow> if n < 1 \<or> n > int (length xs) then None else Some (xs ! nat (n - 1)))"

definition is_quit :: "bytes \<Rightarrow> bool" where
  "is_quit inp \<longleftrightarrow> inp = [] \<or> EqualFold1 inp 113 \<or> EqualFold1 inp 120"

text \<open>Read lines up to a single dot.\<close>

definition dot_lines :: "('a call_scheme, bytes list) prog" where
  "dot_lines = for_loop (\<lambda>lines. chk rd_line (\<lambda>line.
     if line = [46] then leave lines else again (lines @ [line]))) []"

definition firstLine :: "bytes \<Rightarrow> bytes" where
  "firstLine s = (case index_byte s 10 of Some i \<Rightarrow> take i s | None \<Rightarrow> s)"

definition trunc :: "bytes \<Rightarrow> nat \<Rightarrow> bytes" where
  "trunc s n = (if length s > n then take n s else s)"

text \<open>\<open>subtle.ConstantTimeCompare\<close> is 1 exactly for equal contents.\<close>

definition sysopPassOK :: "bytes \<Rightarrow> bytes \<Rightarrow> bool" where
  "sysopPassOK provided configured \<longleftrightarrow> provided = configured"

definition CoSysOpLevel :: int where "CoSysOpLevel = SysOpLevel"

section \<open>The handle cache\<close>

definition newHandleCache :: "('a call_scheme, unit) prog" where
  "newHandleCache s = (Inr (), s\<lparr>c_handles := []\<rparr>)"

definition cache_put :: "int \<Rightarrow> bytes \<Rightarrow> ('a call_scheme, bytes) prog" where
  "cache_put i h s = (Inr h, s\<lparr>c_handles := (i, h) # c_handles s\<rparr>)"

definition handle :: "int \<Rightarrow> ('a call_scheme, bytes) prog" where
  "handle i s = (case map_of (c_handles s) i of
     Some h \<Rightarrow> ret h
   | None \<Rightarrow> att (users_ByID i) (\<lambda>r. cache_put i (case r of Inl e \<Rightarrow> str ''unknown'' | Inr u \<Rightarrow> U_Handle u))) s"

section \<open>What a program can return\<close>

definition yields :: "('x \<Rightarrow> bool) \<Rightarrow> ('s, 'x) prog \<Rightarrow> bool" where
  "yields R m \<longleftrightarrow> (\<forall>s x s'. m s = (Inr x, s') \<longrightarrow> R x)"

lemma yieldsD: "yields R m \<Longrightarrow> m s = (Inr x, s') \<Longrightarrow> R x"
  by (auto simp: yields_def)

lemma yields_mono: "yields R m \<Longrightarrow> (\<And>x. R x \<Longrightarrow> Q x) \<Longrightarrow> yields Q m"
  by (auto simp: yields_def)

lemma yields_ret: "R x \<Longrightarrow> yields R (ret x)" "R' (Inr x) \<Longrightarrow> yields R' (again x)" "R'' (Inl y) \<Longrightarrow> yields R'' (leave y)"
  by (simp_all add: yields_def again_def leave_def)

lemma yields_seq: "(\<And>x. yields R (k x)) \<Longrightarrow> yields R (chk m k)" "(\<And>r. yields R (f r)) \<Longrightarrow> yields R (att m f)"
  by (auto simp: yields_def att_run elim!: chk_InrE split: prod.splits)

lemma yields_chk: "yields Q m \<Longrightarrow> (\<And>x. Q x \<Longrightarrow> yields R (k x)) \<Longrightarrow> yields R (chk m k)"
  unfolding yields_def by (blast elim: chk_InrE)

lemma yields_case:
  "yields R m \<Longrightarrow> yields R n \<Longrightarrow> yields R (if b then m else n)"
  "yields R n \<Longrightarrow> (\<And>x. yields R (f x)) \<Longrightarrow> yields R (case r of None \<Rightarrow> n | Some x \<Rightarrow> f x)"
  "(\<And>e. yields R (g e)) \<Longrightarrow> (\<And>x. yields R (h x)) \<Longrightarrow> yields R (case r' of Inl e \<Rightarrow> g e | Inr x \<Rightarrow> h x)"
  by (auto split: option.splits sum.splits)

lemma yields_loop:
  assumes "\<And>x. I x \<Longrightarrow> yields (\<lambda>r. case r of Inl y \<Rightarrow> R y | Inr x' \<Rightarrow> I x') (body x)" "I x"
  shows "yields R (for_loop body x)"
proof -
  have "R y" if "for_loop body x s = (Inr y, s')" "I x" for y s s'
    using that
  proof (induction "unread s" arbitrary: x s rule: less_induct)
    case less
    obtain r s1 where run: "body x s = (r, s1)" by fastforce
    have "case z of Inl y \<Rightarrow> R y | Inr x' \<Rightarrow> I x'" if "r = Inr z" for z
      using yieldsD [OF assms(1) [OF less.prems(2)]] run that by blast
    then show ?case using less run by (auto simp: for_loop.simps [of body x s] split: sum.splits if_splits)
  qed
  then show ?thesis using assms(2) by (auto simp: yields_def)
qed

lemmas yields_rules = yields_ret yields_seq yields_case

section \<open>What they keep\<close>

lemma pick_set: "pick inp xs = Some x \<Longrightarrow> x \<in> set xs"
  by (auto simp: pick_def split: option.splits if_splits)

text \<open>Reading statements and lookups.\<close>

context db_frame
begin

lemma steps_lookups:
  "steps dbR (users_ByID i)" "steps dbR (users_ByHandle h)" "steps dbR users_All" "steps dbR (users_ListByStatus st)"
  "steps dbR (keys_Active i)" "steps dbR memberships_Pending" "steps dbR (messages_list sel)"
  "steps dbR (mail_Inbox i)" "steps dbR (slog_Page n k)" "steps dbR (files_ByID i)"
  by (rule steps_same; simp add: st_fixed_def users_ByID_def users_ByHandle_def users_All_def users_ListByStatus_def
      keys_Active_def memberships_Pending_def messages_list_def mail_Inbox_def slog_Page_def files_ByID_def Let_def
      query_def chk_run ext_def)+

lemma steps_lists:
  "steps dbR (messages_ThreadSorted a b)" "steps dbR (messages_ByAuthor a i)" "steps dbR (messages_Search f a q)"
  "steps dbR (messages_Replies i)" "steps dbR (areas_Visible l)" "steps dbR (readptr_LastSeen i a)"
  "steps dbR (readptr_NewCount i a)" "steps dbR (readptr_MaxMessageID a)" "steps dbR (blocks_BlockedSet i)"
  "steps dbR (blocks_List i)" "steps dbR (fareas_Visible l)" "steps dbR (files_ListSorted a by_col)"
  "steps dbR (files_Search g a q)" "steps dbR (files_ByUploader a i)" "steps dbR (doors_Visible l)"
  unfolding messages_ThreadSorted_def messages_ByAuthor_def messages_Search_def messages_Replies_def areas_Visible_def
    readptr_LastSeen_def readptr_NewCount_def readptr_MaxMessageID_def blocks_BlockedSet_def blocks_List_def
    fareas_Visible_def files_ListSorted_def files_Search_def files_ByUploader_def listFiles_def doors_Visible_def
  by (intro db_rules steps_lookups)+

lemma steps_system:
  "steps dbR (settings_Get k v)" "steps dbR settings_BBSName" "steps dbR settings_Tagline" "steps dbR settings_MOTD"
  "steps dbR (settings_IdleMinutes n)" "steps dbR (settings_DailyMinutes n)" "steps dbR reports_Open"
  "steps dbR reports_OpenCount" "steps dbR bans_Active" "steps dbR (anomalies_Recent n)" "steps dbR slog_Count"
  "steps dbR (slog_MinutesToday f h)" "steps dbR installed_List" "steps dbR (bans_IsBanned N ip)"
  unfolding settings_BBSName_def settings_Tagline_def settings_MOTD_def settings_IdleMinutes_def
    settings_DailyMinutes_def settings_getInt_def settings_Get_def reports_Open_def reports_OpenCount_def bans_Active_def
    anomalies_Recent_def slog_Count_def slog_MinutesToday_def installed_List_def bans_IsBanned_def Let_def
  by (intro db_rules)+

lemmas read_steps = steps_lookups steps_lists steps_system

end

context call_frame
begin

lemmas read_rules = read_steps [THEN steps_store]

lemma steps_for_each: "(\<And>x. steps callR (f x)) \<Longrightarrow> steps callR (for_each f xs)"
  by (induction xs) (simp_all add: call.steps_rules)

lemma steps_default: "steps callR m \<Longrightarrow> steps callR (default z m)" "steps callR m \<Longrightarrow> steps callR (ignore m)"
  by (simp_all add: default_def ignore_def call.steps_rules)

lemma steps_shared:
  "steps callR (pageFooter w p n)" "steps callR (prompt w t)" "steps callR dot_lines" "steps callR newHandleCache"
  unfolding pageFooter_def prompt_def dot_lines_def
  by (intro call_rules steps_default | simp add: steps_def newHandleCache_def callR_def hears_def db_refl)+

lemma steps_handle: "steps callR (handle i)"
proof -
  have put: "steps callR (cache_put i h)" for h by (simp add: steps_def cache_put_def callR_def hears_def db_refl)
  have "steps callR (\<lambda>s. (case map_of (c_handles s) i of Some h \<Rightarrow> ret h
      | None \<Rightarrow> att (users_ByID i) (\<lambda>r. cache_put i (case r of Inl e \<Rightarrow> str ''unknown'' | Inr u \<Rightarrow> U_Handle u))) s)"
    by (rule steps_fresh) (intro call_rules read_rules put)
  then show ?thesis by (simp add: handle_def [abs_def])
qed

lemma triple_do:
  "triple P m (\<lambda>_ _. True) \<Longrightarrow> stable P \<Longrightarrow> (\<And>r. triple P (k r) N) \<Longrightarrow> triple P (att m k) N"
  by (rule triple_att [where M = "\<lambda>_ _. True"]) (auto intro: triple_weaken)

lemma triple_also: "triple P m M \<Longrightarrow> yields R m \<Longrightarrow> triple P m (\<lambda>x s. R x \<and> M x s)"
  unfolding triple_def yields_def by (metis prod.collapse)

lemma triple_yields: "steps callR m \<Longrightarrow> yields R m \<Longrightarrow> stable P \<Longrightarrow> triple P m (\<lambda>x s. R x \<and> P s)"
  by (rule triple_also [OF triple_plain])

lemma triple_cond:
  "(c \<Longrightarrow> triple P m N) \<Longrightarrow> (\<not> c \<Longrightarrow> triple P n N) \<Longrightarrow> triple P (if c then m else n) N"
  by simp

lemma triple_pick:
  "triple P n N \<Longrightarrow> (\<And>x. x \<in> set xs \<Longrightarrow> triple P (f x) N) \<Longrightarrow> triple P (case pick k xs of None \<Rightarrow> n | Some x \<Rightarrow> f x) N"
  by (cases "pick k xs") (auto dest: pick_set)

lemmas screen_rules = call_rules steps_for_each steps_default steps_shared steps_handle read_rules

end

section \<open>Every row is on one page\<close>

lemma window_rows_take:
  assumes "0 \<le> lo" "lo \<le> hi" "hi \<le> int (length xs)"
  shows "map snd (window_rows lo hi xs) = take (nat (hi - lo)) (drop (nat lo) xs)"
proof (rule nth_equalityI)
  show "length (map snd (window_rows lo hi xs)) = length (take (nat (hi - lo)) (drop (nat lo) xs))"
    using assms by (simp add: window_rows_def)
  fix i
  assume "i < length (map snd (window_rows lo hi xs))"
  then show "map snd (window_rows lo hi xs) ! i = take (nat (hi - lo)) (drop (nat lo) xs) ! i"
    using assms by (simp add: window_rows_def nat_add_distrib)
qed

lemma chunks_cover: "concat (map (\<lambda>p. take k (drop (p * k) xs)) [0..<n]) = take (n * k) xs"
proof (induction n)
  case (Suc n)
  have "take (n * k) xs @ take k (drop (n * k) xs) = take (n * k + k) xs" by (simp add: take_add)
  then show ?case using Suc.IH by (simp add: add.commute)
qed simp

lemma pageWindow_bounds:
  assumes "pageWindow n page = (lo, hi, pages)" "0 \<le> n"
  shows "0 \<le> lo \<and> lo \<le> hi \<and> hi \<le> n \<and> hi - lo \<le> pageSize \<and> 1 \<le> pages \<and> n \<le> pages * pageSize"
proof -
  define ps where "ps = (n + pageSize - 1) div pageSize"
  have ps: "ps * pageSize \<le> n + pageSize - 1" "n \<le> ps * pageSize"
    unfolding ps_def pageSize_def by (presburger)+
  show ?thesis using assms ps unfolding pageWindow_def ps_def [symmetric] Let_def
    by (auto simp: pageSize_def split: if_splits)
qed

lemma pageWindow_page:
  assumes "0 \<le> p" "p < snd (snd (pageWindow n q))"
  shows "pageWindow n p = (p * pageSize, min (p * pageSize + pageSize) n, snd (snd (pageWindow n q)))"
  using assms by (auto simp: pageWindow_def Let_def split: if_splits)

text \<open>The rows the pager shows on a page.\<close>

definition shown :: "'x list \<Rightarrow> int \<Rightarrow> 'x list" where
  "shown xs page = (case pageWindow (int (length xs)) page of (lo, hi, _) \<Rightarrow> map snd (window_rows lo hi xs))"

lemma shown_page:
  assumes "int p < snd (snd (pageWindow (int (length xs)) 0))"
  shows "shown xs (int p) = take 15 (drop (p * 15) xs)"
proof -
  let ?n = "int (length xs)"
  have w: "pageWindow ?n (int p) = (int p * pageSize, min (int p * pageSize + pageSize) ?n, snd (snd (pageWindow ?n 0)))"
    using assms by (intro pageWindow_page) auto
  from pageWindow_bounds [OF w] have b: "0 \<le> int p * pageSize" "int p * pageSize \<le> min (int p * pageSize + pageSize) ?n"
    "min (int p * pageSize + pageSize) ?n \<le> ?n" by auto
  have "nat (int p * pageSize) = p * 15" by (simp add: pageSize_def nat_mult_distrib)
  moreover have "take (nat (min (int p * pageSize + pageSize) ?n - int p * pageSize)) (drop (p * 15) xs) = take 15 (drop (p * 15) xs)"
    by (cases "int p * pageSize + pageSize \<le> ?n") (auto simp: pageSize_def min_def)
  ultimately show ?thesis using window_rows_take [OF b] by (simp add: shown_def w)
qed

text \<open>
  C39: Paging a listing neither loses nor repeats a row. The pages from the first to the last,
  one after the other, are the listing, whatever its length; no page has more than 15 rows; and
  whatever page number is asked for, negative or past the end, what is shown is one of them.
\<close>

theorem pager_partition:
  "concat (map (\<lambda>p. shown xs (int p)) [0..<nat (snd (snd (pageWindow (int (length xs)) 0)))]) = xs \<and>
   length (shown xs page) \<le> 15 \<and> (\<exists>p. 0 \<le> p \<and> p < snd (snd (pageWindow (int (length xs)) 0)) \<and> shown xs page = shown xs p)"
proof -
  let ?n = "int (length xs)" let ?ps = "snd (snd (pageWindow ?n 0))"
  have b: "1 \<le> ?ps" "?n \<le> ?ps * pageSize" using pageWindow_bounds [of ?n 0 "fst (pageWindow ?n 0)" "fst (snd (pageWindow ?n 0))" ?ps] by auto
  have "map (\<lambda>p. shown xs (int p)) [0..<nat ?ps] = map (\<lambda>p. take 15 (drop (p * 15) xs)) [0..<nat ?ps]"
    by (rule map_cong) (auto intro: shown_page)
  moreover have "length xs \<le> nat ?ps * 15" using b by (simp add: pageSize_def nat_le_iff)
  ultimately have "concat (map (\<lambda>p. shown xs (int p)) [0..<nat ?ps]) = xs" by (simp only: chunks_cover take_all)
  moreover have "length (shown xs page) \<le> 15"
    using pageWindow_bounds [of ?n page] by (auto simp: shown_def window_rows_def pageSize_def split: prod.splits)
  moreover have "pageWindow ?n page = pageWindow ?n (clampPage page ?ps)"
    using b(1) by (auto simp: pageWindow_def clampPage_def Let_def)
  then have "shown xs page = shown xs (clampPage page ?ps)" by (simp add: shown_def)
  moreover have "0 \<le> clampPage page ?ps \<and> clampPage page ?ps < ?ps" using b(1) by (auto simp: clampPage_def)
  ultimately show ?thesis by blast
qed

end
