(* ===== verification/Authority.thy ===== *)
theory Authority
  imports Screens
begin

text \<open>
  Who may do what to the database. \<open>act u priv\<close> are the statements a session of account \<open>u\<close>
  may execute: all of them for a SysOp (\<open>priv\<close>), and for a member the ones that write \<open>u\<close>'s own
  rows. \<open>confined u\<close> says what they leave alone; it is shown once per statement and holds of
  every sequence of them. The frame \<open>mem\<close> carries both through the programs of the menus.
\<close>

section \<open>The statements of a member\<close>

definition own_profile :: "(user_row \<Rightarrow> user_row) \<Rightarrow> bool" where
  "own_profile f \<longleftrightarrow> (\<forall>r. \<exists>h c t ip. f r = r\<lparr>u_password_hash := h, u_colorblind := c, u_last_login_at := t, u_last_login_ip := ip\<rparr>)"

definition counts_only :: "(file_row \<Rightarrow> file_row) \<Rightarrow> bool" where
  "counts_only g \<longleftrightarrow> (\<forall>r. \<exists>p n. g r = r\<lparr>f_path := p, f_downloads := n\<rparr>)"

definition owned_by :: "('r \<Rightarrow> int) \<Rightarrow> int \<Rightarrow> int \<Rightarrow> 'r tbl \<Rightarrow> bool" where
  "owned_by owner u i t \<longleftrightarrow> (\<forall>r. tbl_get t i = Some r \<longrightarrow> owner r = u)"

inductive act :: "int \<Rightarrow> bool \<Rightarrow> db \<Rightarrow> db \<Rightarrow> bool" for u :: int and priv :: bool where
  a_sysop: "priv \<Longrightarrow> stmt d d' \<Longrightarrow> act u priv d d'"
| a_profile: "upd_user u f d = Inr (x, d') \<Longrightarrow> own_profile f \<Longrightarrow> act u priv d d'"
| a_anomaly: "ins_anomaly an d = Inr (x, d') \<Longrightarrow> an_user_id an = u \<Longrightarrow> act u priv d d'"
| a_key: "ins_key k d = Inr (x, d') \<Longrightarrow> k_user_id k = u \<Longrightarrow> act u priv d d'"
| a_revoke: "upd_revoke i now d = Inr (x, d') \<Longrightarrow> owned_by k_user_id u i (d_key d) \<Longrightarrow> act u priv d d'"
| a_token: "upd_token i now d = Inr (x, d') \<Longrightarrow> owned_by tk_user_id u i (d_token d) \<Longrightarrow> act u priv d d'"
| a_post: "ins_message m d = Inr (x, d') \<Longrightarrow> m_author m = u \<Longrightarrow> act u priv d d'"
| a_edit: "upd_message i u b c d = Inr (x, d') \<Longrightarrow> act u priv d d'"
| a_delete: "del_message i d = Inr (x, d') \<Longrightarrow> owned_by m_author u i (d_message d) \<Longrightarrow> act u priv d d'"
| a_mark: "up_read u a k now d = Inr (x, d') \<Longrightarrow> act u priv d d'"
| a_block: "ins_block u j now d = Inr (x, d') \<Longrightarrow> act u priv d d'"
| a_unblock: "del_block u j d = Inr (x, d') \<Longrightarrow> act u priv d d'"
| a_report: "ins_report rp d = Inr (x, d') \<Longrightarrow> rp_reporter rp = u \<Longrightarrow> act u priv d d'"
| a_send: "ins_pm pm d = Inr (x, d') \<Longrightarrow> pm_from pm = u \<Longrightarrow> act u priv d d'"
| a_read: "upd_read i now d = Inr (x, d') \<Longrightarrow> owned_by pm_to u i (d_pm d) \<Longrightarrow> act u priv d d'"
| a_discard: "del_pm i u d = Inr (x, d') \<Longrightarrow> act u priv d d'"
| a_upload: "ins_file fl d = Inr (x, d') \<Longrightarrow> f_uploader fl = u \<Longrightarrow> \<not> has (same_name (f_area fl) (f_filename fl)) (d_file d) \<Longrightarrow>
     0 \<le> f_size fl \<Longrightarrow> f_size fl \<le> MaxFileBytes \<Longrightarrow> user_bytes (d_file d) (f_uploader fl) + f_size fl \<le> MaxUserBytes \<Longrightarrow>
     act u priv d d'"
| a_count: "upd_file i g d = Inr (x, d') \<Longrightarrow> counts_only g \<Longrightarrow> act u priv d d'"
| a_erase: "del_file i d = Inr (x, d') \<Longrightarrow> owned_by f_uploader u i (d_file d) \<Longrightarrow> act u priv d d'"
| a_log: "ins_slog sl d = Inr (x, d') \<Longrightarrow> act u priv d d'"

lemma own_profileD:
  assumes "own_profile f"
  shows "\<exists>h c t ip. f r = r\<lparr>u_password_hash := h, u_colorblind := c, u_last_login_at := t, u_last_login_ip := ip\<rparr>"
  using assms by (simp add: own_profile_def)

lemma own_profile_handle: "own_profile f \<Longrightarrow> u_handle (f r) = u_handle r"
  using own_profileD [of f r] by auto

lemma counts_only_fields: "counts_only g \<Longrightarrow> f_uploader (g r) = f_uploader r \<and> f_size (g r) = f_size r \<and>
    f_area (g r) = f_area r \<and> f_filename (g r) = f_filename r"
  unfolding counts_only_def by (cases r) (metis file_row.select_convs(1,2,4,6) file_row.update_convs(3,7))

lemma act_stmt: "act u priv d d' \<Longrightarrow> stmt d d'"
proof (induction rule: act.induct)
  case (a_profile f d x d')
  then show ?case by (auto intro: st_upd_user simp: own_profile_handle)
next
  case (a_upload fl d x d')
  then show ?case by (auto intro: st_ins_file)
next
  case (a_count i g d x d')
  then show ?case by (auto intro: st_upd_file simp: counts_only_fields)
qed (blast intro: stmt.intros)+

lemma act_mono: "act u priv d d' \<Longrightarrow> act u True d d'"
  by (auto dest: act_stmt intro: a_sysop)

section \<open>What they leave alone\<close>

text \<open>Rows of other owners are the same before and after, none added, changed or removed.\<close>

definition foreign_kept :: "('r \<Rightarrow> int) \<Rightarrow> int \<Rightarrow> 'r tbl \<Rightarrow> 'r tbl \<Rightarrow> bool" where
  "foreign_kept owner u t t' \<longleftrightarrow> (\<forall>i r. owner r \<noteq> u \<longrightarrow> (tbl_get t' i = Some r \<longleftrightarrow> tbl_get t i = Some r))"

definition entries_kept :: "int \<Rightarrow> ((int \<times> int) \<times> 'v) list \<Rightarrow> ((int \<times> int) \<times> 'v) list \<Rightarrow> bool" where
  "entries_kept u l l' \<longleftrightarrow> filter (\<lambda>x. fst (fst x) \<noteq> u) l' = filter (\<lambda>x. fst (fst x) \<noteq> u) l"

text \<open>Accounts: other accounts are untouched, and of its own a member changes no more than the
  password, the palette and the record of the last login.\<close>

definition profile_of :: "user_row \<Rightarrow> user_row \<Rightarrow> bool" where
  "profile_of r r' \<longleftrightarrow> (\<exists>h c l ip. r' = r\<lparr>u_password_hash := h, u_colorblind := c, u_last_login_at := l, u_last_login_ip := ip\<rparr>)"

definition users_kept :: "int \<Rightarrow> user_row tbl \<Rightarrow> user_row tbl \<Rightarrow> bool" where
  "users_kept u t t' \<longleftrightarrow> (\<forall>i. i \<noteq> u \<longrightarrow> tbl_get t' i = tbl_get t i) \<and> rel_option profile_of (tbl_get t u) (tbl_get t' u)"

text \<open>Posts: other authors' posts are neither added nor changed; one that disappears was a reply
  to a post of \<open>u\<close>.\<close>

definition posts_kept :: "int \<Rightarrow> message_row tbl \<Rightarrow> message_row tbl \<Rightarrow> bool" where
  "posts_kept u t t' \<longleftrightarrow>
     (\<forall>i r r'. tbl_get t i = Some r \<longrightarrow> tbl_get t' i = Some r' \<longrightarrow> m_author r' = m_author r \<and> (m_author r \<noteq> u \<longrightarrow> r' = r)) \<and>
     t_seq t \<le> t_seq t' \<and>
     (\<forall>i r'. tbl_get t i = None \<longrightarrow> tbl_get t' i = Some r' \<longrightarrow> m_author r' = u \<and> t_seq t < i) \<and>
     (\<forall>i r. tbl_get t i = Some r \<longrightarrow> tbl_get t' i = None \<longrightarrow> m_author r \<noteq> u \<longrightarrow>
        (\<exists>p q. m_parent r = Some p \<and> tbl_get t p = Some q \<and> m_author q = u))"

text \<open>Mail: what is addressed to others stays as it is; new mail comes from \<open>u\<close>.\<close>

definition mail_kept :: "int \<Rightarrow> pm_row tbl \<Rightarrow> pm_row tbl \<Rightarrow> bool" where
  "mail_kept u t t' \<longleftrightarrow> (\<forall>i r. pm_to r \<noteq> u \<longrightarrow> (tbl_get t i = Some r \<longrightarrow> tbl_get t' i = Some r) \<and>
     (tbl_get t' i = Some r \<longrightarrow> tbl_get t i = Some r \<or> pm_from r = u))"

text \<open>Files: of other uploaders' files only the download counter moves (and the column that
  repeats the name of the blob).\<close>

definition files_kept :: "int \<Rightarrow> file_row tbl \<Rightarrow> file_row tbl \<Rightarrow> bool" where
  "files_kept u t t' \<longleftrightarrow> (\<forall>i r. f_uploader r \<noteq> u \<longrightarrow>
     ((\<exists>p n. tbl_get t' i = Some (r\<lparr>f_path := p, f_downloads := n\<rparr>)) \<longleftrightarrow>
      (\<exists>p n. tbl_get t i = Some (r\<lparr>f_path := p, f_downloads := n\<rparr>))))"

text \<open>Abuse reports and the session log only grow.\<close>

definition log_kept :: "'r tbl \<Rightarrow> 'r tbl \<Rightarrow> bool" where
  "log_kept t t' \<longleftrightarrow> (\<forall>i r. tbl_get t i = Some r \<longrightarrow> tbl_get t' i = Some r)"

definition confined :: "int \<Rightarrow> db \<Rightarrow> db \<Rightarrow> bool" where
  "confined u d d' \<longleftrightarrow>
     users_kept u (d_user d) (d_user d') \<and> foreign_kept k_user_id u (d_key d) (d_key d') \<and>
     foreign_kept tk_user_id u (d_token d) (d_token d') \<and> foreign_kept an_user_id u (d_anomaly d) (d_anomaly d') \<and>
     posts_kept u (d_message d) (d_message d') \<and> mail_kept u (d_pm d) (d_pm d') \<and> files_kept u (d_file d) (d_file d') \<and>
     log_kept (d_report d) (d_report d') \<and> foreign_kept rp_reporter u (d_report d) (d_report d') \<and>
     log_kept (d_slog d) (d_slog d') \<and> entries_kept u (d_block d) (d_block d') \<and> entries_kept u (d_read d) (d_read d') \<and>
     d_membership d' = d_membership d \<and> d_area d' = d_area d \<and> d_file_area d' = d_file_area d \<and>
     d_door d' = d_door d \<and> d_ban d' = d_ban d \<and> d_installed d' = d_installed d \<and> d_setting d' = d_setting d"

lemma profile_of_refl: "profile_of r r"
  unfolding profile_of_def
  by (rule exI [of _ "u_password_hash r"], rule exI [of _ "u_colorblind r"], rule exI [of _ "u_last_login_at r"],
      rule exI [of _ "u_last_login_ip r"]) simp

lemma profile_of_trans: "profile_of a b \<Longrightarrow> profile_of b c \<Longrightarrow> profile_of a c"
  unfolding profile_of_def by fastforce

lemma kept_refl [simp]:
  "foreign_kept ow u t t" "entries_kept u l l" "users_kept u tu tu" "posts_kept u tm tm" "mail_kept u tp tp"
  "files_kept u tf tf" "log_kept ts ts"
  by (simp_all add: foreign_kept_def entries_kept_def posts_kept_def mail_kept_def files_kept_def log_kept_def)
     (simp add: users_kept_def option.rel_refl profile_of_refl)

lemma posts_kept_trans:
  assumes "posts_kept u a b" "posts_kept u b c" "wf_tbl a"
    "\<And>i r p. tbl_get a i = Some r \<Longrightarrow> m_parent r = Some p \<Longrightarrow> tbl_get a p \<noteq> None"
  shows "posts_kept u a c"
proof -
  note ab = assms(1) [unfolded posts_kept_def] and bc = assms(2) [unfolded posts_kept_def]
  have old: "tbl_get b i \<noteq> None" if "tbl_get a i = Some r" "tbl_get c i = Some r'" for i r r'
    using that ab bc tbl_get_bound [OF assms(3), of i r] by (metis not_less order_trans)
  have gone: "\<exists>p q. m_parent r = Some p \<and> tbl_get a p = Some q \<and> m_author q = u"
    if r: "tbl_get a i = Some r" "tbl_get c i = None" "m_author r \<noteq> u" for i r
  proof (cases "tbl_get b i")
    case None
    then show ?thesis using ab r by blast
  next
    case (Some r')
    then have "r' = r" using ab r by blast
    then obtain p q where q: "m_parent r = Some p" "tbl_get b p = Some q" "m_author q = u"
      using bc r Some by blast
    obtain q' where "tbl_get a p = Some q'" using assms(4) [OF r(1) q(1)] by auto
    then show ?thesis using ab q by metis
  qed
  have new: "m_author r' = u \<and> t_seq a < i" if "tbl_get a i = None" "tbl_get c i = Some r'" for i r'
  proof (cases "tbl_get b i")
    case None
    then show ?thesis using that ab bc by (metis order_le_less_trans)
  next
    case (Some r)
    then show ?thesis using that ab bc by metis
  qed
  have same: "m_author r' = m_author r \<and> (m_author r \<noteq> u \<longrightarrow> r' = r)"
    if "tbl_get a i = Some r" "tbl_get c i = Some r'" for i r r'
    using old [OF that] ab bc that by (metis option.exhaust)
  show ?thesis unfolding posts_kept_def using gone new same ab bc by (meson order_trans)
qed

lemma users_kept_trans: "users_kept u a b \<Longrightarrow> users_kept u b c \<Longrightarrow> users_kept u a c"
  unfolding users_kept_def
  by (cases "tbl_get a u"; cases "tbl_get b u"; cases "tbl_get c u") (auto intro: profile_of_trans)

lemma kept_trans:
  "foreign_kept ow u t1 t2 \<Longrightarrow> foreign_kept ow u t2 t3 \<Longrightarrow> foreign_kept ow u t1 t3"
  "entries_kept u l1 l2 \<Longrightarrow> entries_kept u l2 l3 \<Longrightarrow> entries_kept u l1 l3"
  "mail_kept u m1 m2 \<Longrightarrow> mail_kept u m2 m3 \<Longrightarrow> mail_kept u m1 m3"
  "files_kept u f1 f2 \<Longrightarrow> files_kept u f2 f3 \<Longrightarrow> files_kept u f1 f3"
  "log_kept g1 g2 \<Longrightarrow> log_kept g2 g3 \<Longrightarrow> log_kept g1 g3"
  by (simp_all add: foreign_kept_def entries_kept_def files_kept_def log_kept_def)
     (simp add: mail_kept_def, blast)

lemma confined_trans:
  assumes "confined u a b" "confined u b c" "db_inv a"
  shows "confined u a c"
proof -
  have wf: "wf_tbl (d_message a)" using db_inv_message [OF assms(3)] by simp
  have fk: "all_rows (\<lambda>r. fk_opt (d_message a) (m_parent r)) (d_message a)"
    using db_inv_message [OF assms(3)] by (auto simp: all_rows_def)
  have par: "tbl_get (d_message a) p \<noteq> None" if "tbl_get (d_message a) i = Some r" "m_parent r = Some p" for i r p
    using all_rowsD [OF fk that(1)] that(2) by (simp add: fk_def)
  have ab: "posts_kept u (d_message a) (d_message b)" and bc: "posts_kept u (d_message b) (d_message c)"
    using assms(1,2) by (simp_all add: confined_def)
  have posts: "posts_kept u (d_message a) (d_message c)"
    by (rule posts_kept_trans [OF ab bc wf]) (rule par)
  have tables: "users_kept u (d_user a) (d_user c)" "mail_kept u (d_pm a) (d_pm c)" "files_kept u (d_file a) (d_file c)"
    "log_kept (d_report a) (d_report c)" "log_kept (d_slog a) (d_slog c)"
    "entries_kept u (d_block a) (d_block c)" "entries_kept u (d_read a) (d_read c)"
    using users_kept_trans [of u "d_user a" "d_user b" "d_user c"] kept_trans(3) [of u "d_pm a" "d_pm b" "d_pm c"]
      kept_trans(4) [of u "d_file a" "d_file b" "d_file c"] kept_trans(5) [of "d_report a" "d_report b" "d_report c"]
      kept_trans(5) [of "d_slog a" "d_slog b" "d_slog c"] kept_trans(2) [of u "d_block a" "d_block b" "d_block c"]
      kept_trans(2) [of u "d_read a" "d_read b" "d_read c"] assms(1,2) by (simp_all only: confined_def)
  have owners: "foreign_kept k_user_id u (d_key a) (d_key c)" "foreign_kept tk_user_id u (d_token a) (d_token c)"
    "foreign_kept an_user_id u (d_anomaly a) (d_anomaly c)" "foreign_kept rp_reporter u (d_report a) (d_report c)"
    using assms(1,2) kept_trans(1) [of k_user_id u "d_key a" "d_key b" "d_key c"]
      kept_trans(1) [of tk_user_id u "d_token a" "d_token b" "d_token c"]
      kept_trans(1) [of an_user_id u "d_anomaly a" "d_anomaly b" "d_anomaly c"]
      kept_trans(1) [of rp_reporter u "d_report a" "d_report b" "d_report c"] by (simp_all only: confined_def)
  show ?thesis
    using assms(1,2) by (simp add: confined_def posts tables owners)
qed

text \<open>Table by table, what a statement does to the rows.\<close>

lemma kept_insert:
  "wf_tbl t \<Longrightarrow> owner r = u \<Longrightarrow> foreign_kept owner u t (snd (tbl_insert r t))"
  "wf_tbl t \<Longrightarrow> log_kept t (snd (tbl_insert r t))"
  using tbl_get_fresh [of t "t_seq t + 1"] by (auto simp: foreign_kept_def log_kept_def tbl_simps)

lemma kept_update:
  assumes "owned_by owner u i t" "\<And>r. owner (f r) = owner r"
  shows "foreign_kept owner u t (snd (tbl_update (\<lambda>j r. j = i \<and> q r) f t))"
  unfolding foreign_kept_def tbl_update_get
proof (intro allI impI)
  fix j r
  assume "owner r \<noteq> u"
  then show "map_option (\<lambda>r. if j = i \<and> q r then f r else r) (tbl_get t j) = Some r \<longleftrightarrow> tbl_get t j = Some r"
    using assms by (cases "tbl_get t j") (auto simp: owned_by_def)
qed

lemma users_kept_upd: "own_profile f \<Longrightarrow> users_kept u t (snd (tbl_update (\<lambda>j r. j = u) f t))"
  by (cases "tbl_get t u") (auto simp: users_kept_def tbl_update_get option.map_ident own_profileD profile_of_def)

lemma posts_kept_ins: "wf_tbl t \<Longrightarrow> m_author r = u \<Longrightarrow> posts_kept u t (snd (tbl_insert r t))"
  using tbl_get_fresh [of t "t_seq t + 1"] by (auto simp: posts_kept_def tbl_insert_get)

lemma posts_kept_upd: "posts_kept u t (snd (tbl_update (\<lambda>j r. j = i \<and> m_author r = u) (\<lambda>r. r\<lparr>m_subject := b, m_body := c\<rparr>) t))"
  by (auto simp: posts_kept_def tbl_update_get)

lemma posts_kept_del:
  assumes "wf_tbl t" "owned_by m_author u i t" "\<And>j r p. tbl_get t j = Some r \<Longrightarrow> m_parent r = Some p \<Longrightarrow> tbl_get t p \<noteq> None"
  shows "posts_kept u t (snd (tbl_delete (\<lambda>j r. j = i \<or> m_parent r = Some i) t))"
proof -
  have "\<exists>p q. m_parent r = Some p \<and> tbl_get t p = Some q \<and> m_author q = u"
    if "tbl_get t j = Some r" "m_author r \<noteq> u" "j = i \<or> m_parent r = Some i" for j r
    using that assms(2) assms(3) [OF that(1)] by (auto simp: owned_by_def)
  moreover have "t_seq (snd (tbl_delete (\<lambda>j r. j = i \<or> m_parent r = Some i) t)) = t_seq t" by (simp add: tbl_delete_def)
  ultimately show ?thesis
    unfolding posts_kept_def tbl_delete_get [OF assms(1)] by (auto split: option.splits if_splits)
qed

lemma mail_kept_steps:
  "wf_tbl t \<Longrightarrow> pm_from r = u \<Longrightarrow> mail_kept u t (snd (tbl_insert r t))"
  "owned_by pm_to u i t \<Longrightarrow> mail_kept u t (snd (tbl_update (\<lambda>j r. j = i) (\<lambda>r. r\<lparr>pm_read_at := Some now\<rparr>) t))"
  "wf_tbl t \<Longrightarrow> mail_kept u t (snd (tbl_delete (\<lambda>j r. j = i \<and> pm_to r = u) t))"
proof -
  show "mail_kept u t (snd (tbl_insert r t))" if "wf_tbl t" "pm_from r = u"
    using that tbl_get_fresh [of t "t_seq t + 1"] by (simp add: mail_kept_def tbl_insert_get)
  show "mail_kept u t (snd (tbl_update (\<lambda>j r. j = i) (\<lambda>r. r\<lparr>pm_read_at := Some now\<rparr>) t))" if "owned_by pm_to u i t"
    unfolding mail_kept_def tbl_update_get
  proof (intro allI impI)
    fix j and r :: pm_row
    assume "pm_to r \<noteq> u"
    then show "(tbl_get t j = Some r \<longrightarrow> map_option (\<lambda>r. if j = i then r\<lparr>pm_read_at := Some now\<rparr> else r) (tbl_get t j) = Some r) \<and>
      (map_option (\<lambda>r. if j = i then r\<lparr>pm_read_at := Some now\<rparr> else r) (tbl_get t j) = Some r \<longrightarrow> tbl_get t j = Some r \<or> pm_from r = u)"
      using that by (cases "tbl_get t j") (auto simp: owned_by_def)
  qed
  show "mail_kept u t (snd (tbl_delete (\<lambda>j r. j = i \<and> pm_to r = u) t))" if "wf_tbl t"
    using that by (auto simp: mail_kept_def tbl_delete_get split: option.splits if_splits)
qed

lemma files_kept_ins:
  assumes "wf_tbl t" "f_uploader r = u"
  shows "files_kept u t (snd (tbl_insert r t))"
  using tbl_get_fresh [OF assms(1), of "t_seq t + 1"] assms by (auto simp: files_kept_def tbl_insert_get)

lemma files_kept_upd:
  assumes "counts_only g"
  shows "files_kept u t (snd (tbl_update (\<lambda>j r. j = i) g t))"
proof -
  have eq: "(\<exists>p n. g x = r\<lparr>f_path := p, f_downloads := n\<rparr>) \<longleftrightarrow> (\<exists>p n. x = r\<lparr>f_path := p, f_downloads := n\<rparr>)" for x r
  proof -
    obtain p n where "g x = x\<lparr>f_path := p, f_downloads := n\<rparr>" using assms unfolding counts_only_def by blast
    then show ?thesis by (cases x, cases r) auto
  qed
  show ?thesis
    unfolding files_kept_def tbl_update_get
  proof (intro allI impI)
    fix j and r :: file_row
    show "(\<exists>p n. map_option (\<lambda>r. if j = i then g r else r) (tbl_get t j) = Some (r\<lparr>f_path := p, f_downloads := n\<rparr>)) \<longleftrightarrow>
        (\<exists>p n. tbl_get t j = Some (r\<lparr>f_path := p, f_downloads := n\<rparr>))"
      using eq [of _ r] by (cases "tbl_get t j") auto
  qed
qed

lemma files_kept_del: "wf_tbl t \<Longrightarrow> owned_by f_uploader u i t \<Longrightarrow> files_kept u t (snd (tbl_delete (\<lambda>j r. j = i) t))"
  by (auto simp: files_kept_def tbl_delete_get owned_by_def split: option.splits)

lemma entries_kept_steps:
  "entries_kept u l (l @ [((u, j), v)])" "entries_kept u l (filter (\<lambda>x. fst x \<noteq> (u, j)) l)" "entries_kept u l (upsert (u, j) f l)"
proof -
  show "entries_kept u l (l @ [((u, j), v)])" by (simp add: entries_kept_def)
  show "entries_kept u l (filter (\<lambda>x. fst x \<noteq> (u, j)) l)"
    by (auto simp: entries_kept_def intro!: filter_cong)
  have "filter (\<lambda>x. fst (fst x) \<noteq> u) (map (\<lambda>(k', v'). (k', if k' = (u, j) then w v' else v')) l) = filter (\<lambda>x. fst (fst x) \<noteq> u) l" for w
    by (induction l) auto
  then show "entries_kept u l (upsert (u, j) f l)"
    by (auto simp: entries_kept_def upsert_def split: option.splits)
qed

lemmas kept_steps = kept_insert kept_update users_kept_upd posts_kept_ins posts_kept_upd mail_kept_steps files_kept_ins
  files_kept_upd files_kept_del entries_kept_steps

lemma confined_table:
  "users_kept u (d_user d) tu \<Longrightarrow> confined u d (d\<lparr>d_user := tu\<rparr>)"
  "foreign_kept k_user_id u (d_key d) tk \<Longrightarrow> confined u d (d\<lparr>d_key := tk\<rparr>)"
  "foreign_kept tk_user_id u (d_token d) tt \<Longrightarrow> confined u d (d\<lparr>d_token := tt\<rparr>)"
  "foreign_kept an_user_id u (d_anomaly d) ta \<Longrightarrow> confined u d (d\<lparr>d_anomaly := ta\<rparr>)"
  "posts_kept u (d_message d) tm \<Longrightarrow> confined u d (d\<lparr>d_message := tm\<rparr>)"
  "mail_kept u (d_pm d) tp \<Longrightarrow> confined u d (d\<lparr>d_pm := tp\<rparr>)"
  "files_kept u (d_file d) tf \<Longrightarrow> confined u d (d\<lparr>d_file := tf\<rparr>)"
  "log_kept (d_report d) tr \<Longrightarrow> foreign_kept rp_reporter u (d_report d) tr \<Longrightarrow> confined u d (d\<lparr>d_report := tr\<rparr>)"
  "log_kept (d_slog d) ts \<Longrightarrow> confined u d (d\<lparr>d_slog := ts\<rparr>)"
  "entries_kept u (d_block d) lb \<Longrightarrow> confined u d (d\<lparr>d_block := lb\<rparr>)"
  "entries_kept u (d_read d) lr \<Longrightarrow> confined u d (d\<lparr>d_read := lr\<rparr>)"
  by (simp_all add: confined_def)

lemma confined_refl [simp]: "confined u d d"
  by (simp add: confined_def)

lemma act_confined:
  assumes "act u False d d'" "db_inv d"
  shows "confined u d d'"
  using assms(1)
proof cases
  case a_delete
  have msg: "wf_tbl (d_message d)" "all_rows (\<lambda>r. fk_opt (d_message d) (m_parent r)) (d_message d)"
    using db_inv_message [OF assms(2)] by (auto simp: all_rows_def)
  have "tbl_get (d_message d) p \<noteq> None" if "tbl_get (d_message d) j = Some r" "m_parent r = Some p" for j r p
    using all_rowsD [OF msg(2) that(1)] that(2) by (simp add: fk_def)
  with a_delete msg(1) show ?thesis
    by (auto simp: del_message_def Let_def split: if_splits intro!: confined_table posts_kept_del)
qed (use db_invD [OF assms(2)] in \<open>auto simp: upd_user_def ins_anomaly_def ins_key_def upd_revoke_def upd_token_def
    ins_message_def upd_message_def up_read_def ins_block_def del_block_def ins_report_def ins_pm_def upd_read_def del_pm_def
    ins_file_def upd_file_def del_file_def ins_slog_def Let_def split: if_splits intro!: confined_table kept_steps\<close>)

section \<open>The frame of a session\<close>

definition memQ :: "int \<Rightarrow> bool \<Rightarrow> db \<Rightarrow> db \<Rightarrow> bool" where
  "memQ u priv d d' \<longleftrightarrow> (db_inv d \<longrightarrow> db_inv d' \<and> (act u priv)\<^sup>*\<^sup>* d d')"

lemma act_inv: "act u priv d d' \<Longrightarrow> db_inv d \<Longrightarrow> db_inv d'"
  using stmt_inv [OF act_stmt] by (auto simp: inv_rel_def)

lemma memQ_act: "(db_inv d \<Longrightarrow> act u priv d d') \<Longrightarrow> memQ u priv d d'"
  by (auto simp: memQ_def intro: act_inv)

interpretation mem: call_frame "memQ u priv" for u priv
  by unfold_locales (auto simp: memQ_def intro: act_inv a_log)

lemma memQ_confined: "memQ u False d d' \<Longrightarrow> db_inv d \<Longrightarrow> confined u d d'"
proof -
  assume "memQ u False d d'" "db_inv d"
  then have "(act u False)\<^sup>*\<^sup>* d d'" by (simp add: memQ_def)
  then have "confined u d d' \<and> db_inv d'"
    using \<open>db_inv d\<close>
  proof (induction rule: rtranclp_induct)
    case (step b c)
    then show ?case using act_confined act_inv confined_trans by blast
  qed simp
  then show ?thesis by simp
qed

lemma memQ_stmts: "memQ u priv d d' \<Longrightarrow> db_inv d \<Longrightarrow> stmt\<^sup>*\<^sup>* d d'"
proof -
  assume "memQ u priv d d'" "db_inv d"
  then have "(act u priv)\<^sup>*\<^sup>* d d'" by (simp add: memQ_def)
  then show ?thesis by (induction rule: rtranclp_induct) (auto intro: rtranclp.rtrancl_into_rtrancl act_stmt)
qed

lemmas act_plain = a_post a_edit a_mark a_block a_unblock a_report a_send a_discard a_key a_log a_anomaly

lemma member_steps:
  "steps (mem.dbR u priv) (messages_Post a u p sb b)" "steps (mem.dbR u priv) (messages_Edit i u sb b)"
  "steps (mem.dbR u priv) (readptr_Mark u a k)" "steps (mem.dbR u priv) (blocks_Block u w)"
  "steps (mem.dbR u priv) (blocks_Unblock u w)" "steps (mem.dbR u priv) (reports_File u t c n)"
  "steps (mem.dbR u priv) (mail_Send u t sb b)" "steps (mem.dbR u priv) (mail_Delete i u)"
  "steps (mem.dbR u priv) (keys_Add K u l)"
  unfolding messages_Post_def messages_Edit_def readptr_Mark_def blocks_Block_def blocks_Unblock_def reports_File_def
    reports_byID_def mail_Send_def mail_Delete_def keys_Add_def keys_byID_def Let_def
  by (intro mem.db_rules memQ_act; (erule act_plain; simp))+

lemma own_profile_fields:
  "own_profile (\<lambda>r. r\<lparr>u_password_hash := h\<rparr>)" "own_profile (\<lambda>r. r\<lparr>u_colorblind := c\<rparr>)"
  "own_profile (\<lambda>r. r\<lparr>u_last_login_at := t\<rparr>)" "own_profile (\<lambda>r. r\<lparr>u_last_login_at := t, u_last_login_ip := ip\<rparr>)"
proof -
  have "own_profile f" if "\<And>r. f r = r\<lparr>u_password_hash := u_password_hash (f r), u_colorblind := u_colorblind (f r),
      u_last_login_at := u_last_login_at (f r), u_last_login_ip := u_last_login_ip (f r)\<rparr>" for f
    unfolding own_profile_def using that by metis
  then show "own_profile (\<lambda>r. r\<lparr>u_password_hash := h\<rparr>)" "own_profile (\<lambda>r. r\<lparr>u_colorblind := c\<rparr>)"
    "own_profile (\<lambda>r. r\<lparr>u_last_login_at := t\<rparr>)" "own_profile (\<lambda>r. r\<lparr>u_last_login_at := t, u_last_login_ip := ip\<rparr>)"
    by simp_all
qed

lemma counts_only_fields':
  "counts_only (\<lambda>r. r\<lparr>f_path := p\<rparr>)" "counts_only (\<lambda>r. r\<lparr>f_downloads := f_downloads r + 1\<rparr>)"
proof -
  have "counts_only g" if "\<And>r. g r = r\<lparr>f_path := f_path (g r), f_downloads := f_downloads (g r)\<rparr>" for g
    unfolding counts_only_def using that by metis
  then show "counts_only (\<lambda>r. r\<lparr>f_path := p\<rparr>)" "counts_only (\<lambda>r. r\<lparr>f_downloads := f_downloads r + 1\<rparr>)" by simp_all
qed

lemma account_member_steps:
  "steps (mem.dbR u priv) (users_SetPassword u h)" "steps (mem.dbR u priv) (users_SetColorblind u c)"
  "steps (mem.dbR u priv) (users_TouchLogin u now)" "steps (mem.dbR u priv) (users_RecordLogin u ip now)"
  unfolding users_SetPassword_def users_SetColorblind_def users_TouchLogin_def users_RecordLogin_def Let_def
  by (intro mem.db_rules memQ_act; (erule a_profile, rule own_profile_fields | erule a_anomaly, simp))+

lemma files_member_steps:
  "steps (mem.dbR u priv) (files_Content i)" "steps (mem.dbR u priv) (files_Add a u n dsc c)"
  by (rule steps_state [OF _ files_Content_def], intro mem.db_rules memQ_act, erule a_count, rule counts_only_fields')
     (rule mem.files_Add_frame; rule memQ_act; (erule a_count, rule counts_only_fields' | erule a_upload; simp))

text \<open>One statement whose permission depends on the row it meets.\<close>

lemma exec_mem:
  assumes "\<And>x d'. db_inv (st_db s) \<Longrightarrow> f (st_db s) = Inr (x, d') \<Longrightarrow> act u priv (st_db s) d'"
  shows "mem.dbR u priv s (snd (exec f s))"
proof (cases "exec f s")
  case (Pair r s')
  show ?thesis
  proof (cases r)
    case (Inl e)
    then show ?thesis using exec_InlD Pair by (fastforce simp: mem.dbR_def st_fixed_def mem.db_refl)
  next
    case (Inr x)
    from Pair [unfolded Inr] obtain d where "f (st_db s) = Inr (x, d)" "s' = s\<lparr>e_step := e_step s + 1, st_db := d\<rparr>"
      by (rule exec_InrD)
    then show ?thesis using assms Pair by (auto simp: mem.dbR_def st_fixed_def intro: memQ_act)
  qed
qed

lemma mail_Get_member: "steps (mem.dbR u priv) (mail_Get i u)"
proof (rule steps_runI)
  fix s :: "'a store_scheme"
  let ?q = "\<lambda>d. norows_notfound (bind_err (first_row (sel_id (d_pm d) i)) (mail_scan (st_prims s) (st_vault s)))"
  obtain r s1 where run: "query ?q s = (r, s1)" by fastforce
  then obtain k where s1: "s1 = s\<lparr>e_step := k\<rparr>" using query_db by blast
  have 1: "mem.dbR u priv s s1" by (simp add: s1 mem.dbR_def st_fixed_def mem.db_refl)
  have 2: "mem.dbR u priv s1 (snd (exec (upd_read i now) s1))" if "r = Inr m" "Pm_ToID m = u" for m now
  proof (rule exec_mem, rule a_read)
    assume inv: "db_inv (st_db s1)"
    have "?q (st_db s) = Inr m" using query_InrD [OF run [unfolded that(1)]] by simp
    then have "mail_scan (st_prims s) (st_vault s) (i, row) = Inr m" if "tbl_get (d_pm (st_db s)) i = Some row" for row
      using that inv db_inv_pm [of "st_db s"] s1
      by (auto simp: norows_notfound_def bind_err_def first_sel_id split: sum.splits option.splits)
    then show "owned_by pm_to u i (d_pm (st_db s1))"
      using that(2) by (auto simp: owned_by_def s1 mail_scan_def split: sum.splits)
  qed
  have "snd (mail_Get i u s) = s1 \<or> (\<exists>m now. r = Inr m \<and> Pm_ToID m = u \<and> snd (mail_Get i u s) = snd (exec (upd_read i now) s1))"
    using run unfolding mail_Get_def
    by (cases r) (auto simp: chk_run att_run time_Now_def split: prod.splits sum.splits, (metis snd_conv)+)
  then show "mem.dbR u priv s (snd (mail_Get i u s))"
    using 1 2 mem.frame_trans by metis
qed

lemma tokens_Redeem_member: "steps (mem.dbR u priv) (tokens_Redeem u plain)"
proof (rule steps_runI)
  fix s :: "'a store_scheme"
  let ?q = "\<lambda>d. Inr (tbl_select (\<lambda>i r. tk_user_id r = u \<and> tk_used_at r = None) (d_token d)) :: gerr + _"
  obtain r s1 where run: "query ?q s = (r, s1)" by fastforce
  then obtain k where s1: "s1 = s\<lparr>e_step := k\<rparr>" using query_db by blast
  have 1: "mem.dbR u priv s s1" by (simp add: s1 mem.dbR_def st_fixed_def mem.db_refl)
  have 2: "mem.dbR u priv s1 (snd (exec (upd_token i now) s1))" if "r = Inr rows" "(i, row) \<in> set rows" for rows i row now
  proof (rule exec_mem, rule a_token)
    assume "db_inv (st_db s1)"
    then have "wf_tbl (d_token (st_db s))" using db_inv_token s1 by simp
    moreover have "rows = tbl_select (\<lambda>i r. tk_user_id r = u \<and> tk_used_at r = None) (d_token (st_db s))"
      using query_InrD [OF run [unfolded that(1)]] by simp
    ultimately show "owned_by tk_user_id u i (d_token (st_db s1))"
      using that(2) by (auto simp: owned_by_def s1 tbl_select_get)
  qed
  have "snd (tokens_Redeem u plain s) = s1 \<or> (\<exists>rows i row now. r = Inr rows \<and> (i, row) \<in> set rows \<and>
      snd (tokens_Redeem u plain s) = snd (exec (upd_token i now) s1))"
  proof (cases r)
    case (Inr rows)
    let ?ok = "filter (\<lambda>(i, r). tk_hash r = hashToken (st_prims s) plain \<and> e_clock s1 (e_step s1) < tk_expires_at r) rows"
    show ?thesis
    proof (cases ?ok)
      case (Cons x xs)
      then have "x \<in> set rows" by (metis filter_is_subset list.set_intros(1) subsetD)
      then show ?thesis using run Inr Cons unfolding tokens_Redeem_def
        by (cases x) (auto simp: chk_run time_Now_def split: prod.splits sum.splits, (metis snd_conv)+)
    qed (use run Inr in \<open>simp add: tokens_Redeem_def chk_run time_Now_def\<close>)
  qed (use run in \<open>simp add: tokens_Redeem_def chk_run\<close>)
  then show "mem.dbR u priv s (snd (tokens_Redeem u plain s))"
    using 1 2 mem.frame_trans by metis
qed

text \<open>The operations that take an id and leave it to the menu to check the owner.\<close>

lemma messages_Delete_member:
  "mem.triple u priv (\<lambda>s. priv \<or> owned_by m_author u i (d_message (st_db s))) (messages_Delete i) (\<lambda>_ _. True)"
  unfolding mem.triple_def messages_Delete_def
  by (intro allI impI conjI TrueI mem.fixed_call(1) exec_mem) (auto intro: a_sysop a_delete st_del_message)

lemma keys_Revoke_member:
  "mem.triple u priv (\<lambda>s. priv \<or> owned_by k_user_id u i (d_key (st_db s))) (keys_Revoke i) (\<lambda>_ _. True)"
  unfolding mem.triple_def keys_Revoke_def chk_run time_Now_def prod.case sum.case
  by (intro allI impI conjI TrueI mem.fixed_call(1) exec_mem) (auto intro: a_sysop a_revoke st_upd_revoke)

lemma files_Delete_member:
  "mem.triple u priv (\<lambda>s. priv \<or> owned_by f_uploader u i (d_file (st_db s))) (files_Delete i) (\<lambda>_ _. True)"
  unfolding mem.triple_def files_Delete_def
proof (intro allI impI conjI TrueI)
  fix s :: "'a call_scheme"
  assume own: "priv \<or> owned_by f_uploader u i (d_file (st_db s))"
  have del: "mem.dbR u priv s (snd (exec (del_file i) s))"
    using own by (intro exec_mem) (auto intro: a_sysop a_erase st_del_file)
  obtain r s1 where run: "exec (del_file i) s = (r, s1)" by fastforce
  have "mem.dbR u priv s1 (snd (os_Remove p s1))" for p
    by (rule mem.steps_files(3) [unfolded steps_def, rule_format])
  then have "mem.dbR u priv s (snd (chk (exec (del_file i)) (\<lambda>_. os_Remove (blobPath (st_filesDir s) i)) s))"
    using del run by (cases r) (auto intro: mem.frame_trans)
  then show "mem.callR u priv s (snd (chk (exec (del_file i)) (\<lambda>_. os_Remove (blobPath (st_filesDir s) i)) s))"
    by (rule mem.fixed_call(1))
qed

lemma create_priv_steps:
  assumes priv
  shows "steps (mem.dbR u priv) (areas_Create n dsc l)" "steps (mem.dbR u priv) (fareas_Create n l)"
  unfolding areas_Create_def fareas_Create_def Let_def
  by (intro mem.db_rules memQ_act a_sysop; (rule assms | erule st_ins_area st_ins_file_area))+

lemmas member_ops = member_steps account_member_steps files_member_steps mail_Get_member tokens_Redeem_member
lemmas member_rules = member_ops [THEN mem.steps_store] mem.screen_rules

text \<open>The frame that only watches the input, for the loops whose permission is conditional.\<close>

interpretation io: call_frame "\<lambda>_ _. True"
  by unfold_locales auto

lemma io_store: "steps ops.dbR m \<Longrightarrow> steps io.callR m"
  by (rule io.steps_store) (simp add: steps_def ops.dbR_def io.dbR_def)

lemma io_mem: "steps (mem.callR u priv) m \<Longrightarrow> steps io.callR m"
  by (simp add: steps_def mem.callR_def io.callR_def)

lemma io_hears: "steps io.callR m \<Longrightarrow> m s = (r, s') \<Longrightarrow> hears s s'"
  unfolding steps_def io.callR_def by (metis snd_conv)

lemmas io_rules = op_steps [THEN io_store] io.screen_rules

lemma mem_steps_triple:
  "mem.triple u priv (\<lambda>s. db_inv (st_db s)) m (\<lambda>_ _. True) \<Longrightarrow> steps io.callR m \<Longrightarrow> steps (mem.callR u priv) m"
  by (auto simp: mem.triple_def steps_def mem.callR_def io.callR_def memQ_def)

lemma stable_inv: "mem.stable u priv (\<lambda>s. db_inv (st_db s))"
  by (simp add: mem.stable_def mem.callR_def memQ_def)

lemma gets_prod: "(\<And>x y. gets (f x y)) \<Longrightarrow> gets (case p of (x, y) \<Rightarrow> f x y)"
  by (cases p) simp

lemma gets_sum: "(\<And>x. gets (f x)) \<Longrightarrow> (\<And>y. gets (g y)) \<Longrightarrow> gets (case r of Inl x \<Rightarrow> f x | Inr y \<Rightarrow> g y)"
  by (cases r) simp_all

lemma gets_if: "gets m \<Longrightarrow> gets n \<Longrightarrow> gets (if b then m else n)"
  by simp

text \<open>A round of a loop reads a line or a key before it decides anything.\<close>

lemmas eat_rules = io.gets_first [OF gets_readers(1)] io.gets_first [OF gets_readers(2)] io.gets_first [OF gets_readers(3)]
  io.gets_later io.gets_att gets_prod gets_sum gets_if

section \<open>Rows keep their owners\<close>

text \<open>
  Ids are never given out twice and no statement changes the owner of a row. So what a
  listing said of a row's owner stays right for as long as the row exists.
\<close>

definition owners_kept :: "('r \<Rightarrow> int) \<Rightarrow> 'r tbl \<Rightarrow> 'r tbl \<Rightarrow> bool" where
  "owners_kept owner t t' \<longleftrightarrow> t_seq t \<le> t_seq t' \<and>
     (\<forall>i r'. tbl_get t' i = Some r' \<longrightarrow> i \<le> t_seq t \<longrightarrow> (\<exists>r. tbl_get t i = Some r \<and> owner r = owner r'))"

definition known :: "('r \<Rightarrow> int) \<Rightarrow> int \<Rightarrow> int \<Rightarrow> 'r tbl \<Rightarrow> bool" where
  "known owner i u t \<longleftrightarrow> i \<le> t_seq t \<and> owned_by owner u i t"

lemma owners_kept_refl [simp]: "owners_kept owner t t"
  by (simp add: owners_kept_def)

lemma owners_kept_known: "owners_kept owner t t' \<Longrightarrow> known owner i u t \<Longrightarrow> known owner i u t'"
  unfolding owners_kept_def known_def owned_by_def by (metis order_trans)

lemma owners_kept_steps:
  "wf_tbl t \<Longrightarrow> owners_kept owner t (snd (tbl_insert r t))"
  "(\<And>r. owner (f r) = owner r) \<Longrightarrow> owners_kept owner t (snd (tbl_update p f t))"
  "wf_tbl t \<Longrightarrow> owners_kept owner t (snd (tbl_delete p t))"
proof -
  show "wf_tbl t \<Longrightarrow> owners_kept owner t (snd (tbl_insert r t))"
    by (auto simp: owners_kept_def tbl_insert_get split: if_splits)
  show "(\<And>r. owner (f r) = owner r) \<Longrightarrow> owners_kept owner t (snd (tbl_update p f t))"
    by (auto simp: owners_kept_def tbl_update_get)
  show "wf_tbl t \<Longrightarrow> owners_kept owner t (snd (tbl_delete p t))"
    by (auto simp: owners_kept_def tbl_delete_get split: option.splits if_splits)
qed

lemma stmt_owners:
  assumes "stmt d d'" "db_inv d"
  shows "owners_kept m_author (d_message d) (d_message d') \<and> owners_kept f_uploader (d_file d) (d_file d') \<and>
    owners_kept k_user_id (d_key d) (d_key d')"
  using assms(1)
  by cases (use db_inv_message [OF assms(2)] db_inv_file [OF assms(2)] db_inv_key [OF assms(2)] in \<open>auto simp: ins_user_def
    upd_user_def ins_anomaly_def ins_key_def upd_revoke_def ins_membership_def upd_review_def ins_token_def upd_token_def
    ins_area_def ins_message_def upd_message_def del_message_def up_read_def ins_block_def del_block_def ins_report_def
    upd_resolve_def resolve_db_def ins_pm_def upd_read_def del_pm_def ins_file_area_def ins_file_def upd_file_def del_file_def ins_ban_def
    up_setting_def ins_door_def upd_resident_def up_installed_def del_installed_def ins_slog_def lift_db_def Let_def
    split: if_splits option.splits intro!: owners_kept_steps\<close>)

lemma stable_known:
  assumes "\<And>d d'. stmt d d' \<Longrightarrow> db_inv d \<Longrightarrow> owners_kept owner (g d) (g d')"
  shows "mem.stable u priv (\<lambda>s. db_inv (st_db s) \<and> (\<forall>x \<in> A. known owner (i x) (w x) (g (st_db s))))"
proof -
  have "db_inv d' \<and> (\<forall>x \<in> A. known owner (i x) (w x) (g d'))"
    if "(act u priv)\<^sup>*\<^sup>* d d'" "db_inv d" "\<forall>x \<in> A. known owner (i x) (w x) (g d)" for d d'
    using that
  proof (induction rule: rtranclp_induct)
    case (step b c)
    then have b: "db_inv b" "\<forall>x \<in> A. known owner (i x) (w x) (g b)" by auto
    then show ?case
      using act_inv [OF step(2)] owners_kept_known [OF assms [OF act_stmt [OF step(2)]]] by blast
  qed simp
  then show ?thesis by (auto simp: mem.stable_def mem.callR_def memQ_def)
qed


lemma known_row: "wf_tbl t \<Longrightarrow> (i, r) \<in> set (t_rows t) \<Longrightarrow> known owner i (owner r) t"
  using tbl_get_iff [of t i r] tbl_get_bound [of t i r] by (simp add: known_def owned_by_def)

lemma scan_rows_source: "scan_rows f rs = Inr xs \<Longrightarrow> x \<in> set xs \<Longrightarrow> \<exists>r \<in> set rs. f r = Inr x"
  by (induction rs arbitrary: xs) (auto split: sum.splits)

section \<open>Listings\<close>

text \<open>
  A screen that keeps a listing between its rounds and lets the caller act on an entry by its
  number: the owner it shows is the owner the statement will meet.
\<close>

locale listing =
  fixes owner :: "'r \<Rightarrow> int"
    and tab :: "db \<Rightarrow> 'r tbl"
    and ident :: "'e \<Rightarrow> int"
    and author :: "'e \<Rightarrow> int"
  assumes owners: "stmt d d' \<Longrightarrow> db_inv d \<Longrightarrow> owners_kept owner (tab d) (tab d')"
    and wf: "db_inv d \<Longrightarrow> wf_tbl (tab d)"
begin

definition known_all :: "'e list \<Rightarrow> 'a call_scheme \<Rightarrow> bool" where
  "known_all xs s \<longleftrightarrow> db_inv (st_db s) \<and> (\<forall>x \<in> set xs. known owner (ident x) (author x) (tab (st_db s)))"

lemma stable_known_all: "mem.stable u priv (known_all xs)"
  unfolding known_all_def by (rule stable_known) (rule owners)

lemma known_sub: "known_all xs s \<Longrightarrow> set ys \<subseteq> set xs \<Longrightarrow> known_all ys s"
  by (auto simp: known_all_def)

lemma known_owner: "known_all xs s \<Longrightarrow> x \<in> set xs \<Longrightarrow> owned_by owner (author x) (ident x) (tab (st_db s))"
  by (auto simp: known_all_def known_def)

lemma known_append: "known_all (xs @ ys) s \<longleftrightarrow> known_all xs s \<and> known_all ys s"
  by (auto simp: known_all_def)

text \<open>What a query of the table returns is known.\<close>

lemma query_known:
  assumes "steps (mem.callR u priv) m"
    and "\<And>s xs s'. m s = (Inr xs, s') \<Longrightarrow> st_db s' = st_db s \<and>
      (\<forall>x \<in> set xs. \<exists>r. (ident x, r) \<in> set (t_rows (tab (st_db s))) \<and> author x = owner r)"
  shows "mem.triple u priv (\<lambda>s. db_inv (st_db s)) m known_all"
  unfolding mem.triple_def
proof (intro allI impI conjI)
  fix s :: "'a call_scheme" and xs
  assume inv: "db_inv (st_db s)"
  show "mem.callR u priv s (snd (m s))" using assms(1) by (simp add: steps_def)
  assume "fst (m s) = Inr xs"
  then obtain s' where run: "m s = (Inr xs, s')" by (cases "m s") auto
  from assms(2) [OF run] show "known_all xs (snd (m s))"
    using run inv known_row [OF wf [OF inv]] by (auto simp: known_all_def)
qed

lemma relist:
  assumes "mem.triple u priv (\<lambda>s. db_inv (st_db s)) m known_all" "\<And>l. lst (g l) = l"
  shows "mem.triple u priv (known_all xs) (chk m (\<lambda>l. ret (g l))) (\<lambda>b. known_all (lst b))"
  by (rule mem.triple_chk [OF mem.triple_weaken [OF assms(1)]])
     (auto simp: assms(2) known_all_def intro!: mem.triple_ret)

lemma triple_again:
  "(\<And>s. P s \<Longrightarrow> known_all (lst b) s) \<Longrightarrow> mem.triple u priv P (again b) (\<lambda>r s. case r of Inl _ \<Rightarrow> True | Inr b \<Rightarrow> known_all (lst b) s)"
  unfolding again_def by (rule mem.triple_ret) simp

lemma triple_keep:
  assumes "mem.triple u priv (known_all xs) m (\<lambda>_ _. True)" "set xs \<subseteq> set ys" "\<And>x. mem.triple u priv (known_all ys) (k x) N"
  shows "mem.triple u priv (known_all ys) (chk m k) N"
proof (rule mem.triple_chk [OF mem.triple_frame [where N = "\<lambda>_. known_all ys"]])
  show "mem.triple u priv (known_all ys) m (\<lambda>_ _. True)"
    by (rule mem.triple_weaken [OF assms(1)]) (erule known_sub [OF _ assms(2)])
qed (auto intro: stable_known_all assms(3))

end

lemma plain_triple: "steps (mem.callR u priv) p \<Longrightarrow> mem.triple u priv P p (\<lambda>_ _. True)"
  by (simp add: mem.triple_def steps_def)

end
