(* ===== verification/MenuMail.thy ===== *)
theory MenuMail
  imports Authority
begin

text \<open>
  The private-mail screens, \<open>menu/mail.go\<close>: the inbox with its pager, reading, replying,
  composing to several recipients, the member directory, and the abuse report that the
  boards use too.
\<close>

section \<open>Reports\<close>

definition reportUser :: "('ip, 'net) libs \<Rightarrow> User \<Rightarrow> int \<Rightarrow> bytes \<Rightarrow> ('a call_scheme, unit) prog" where
  "reportUser L u target context =
     chk scr_New (\<lambda>w.
     chk (handle target) (\<lambda>h.
     chk (say w (ask (nl @ str ''Report '' @ h @ str '' to the SysOp. Describe the problem: ''))) (\<lambda>_.
     att rd_line (\<lambda>r. case r of
       Inl e \<Rightarrow> ret ()
     | Inr note \<Rightarrow>
         att (reports_File (U_ID u) target context note) (\<lambda>r. case r of
           Inl e \<Rightarrow> say w [CColorLine scr_Red (str ''could not file report'')]
         | Inr _ \<Rightarrow>
             chk (handle target) (\<lambda>h.
             chk (Activity L (str ''report-user'') h) (\<lambda>_.
             chk (say w [CColorLine scr_Cyan (str ''Report filed. A SysOp will review it.'')]) (\<lambda>_.
             ignore rd_key))))))))"

section \<open>Composing\<close>

text \<open>The deliveries of \<open>sendToMany\<close>, with the number that succeeded.\<close>

fun deliver :: "('ip, 'net) libs \<Rightarrow> writer \<Rightarrow> int \<Rightarrow> bytes \<Rightarrow> bytes \<Rightarrow> int list \<Rightarrow> int \<Rightarrow> ('a call_scheme, int) prog" where
  "deliver L w from subject body [] sent = ret sent"
| "deliver L w from subject body (to # tos) sent = att (mail_Send from to subject body) (\<lambda>r. case r of
     Inl e \<Rightarrow> chk (say w [CColorLine scr_Red (str ''could not send to one recipient: '' @ l_err L e)])
       (\<lambda>_. deliver L w from subject body tos sent)
   | Inr _ \<Rightarrow> deliver L w from subject body tos (sent + 1))"

definition sendToMany :: "('ip, 'net) libs \<Rightarrow> User \<Rightarrow> int list \<Rightarrow> bytes \<Rightarrow> ('a call_scheme, unit) prog" where
  "sendToMany L u toIDs presetSubject =
     chk scr_New (\<lambda>w.
     if toIDs = [] then ret () else
     chk (if presetSubject = [] then chk (say w (ask (str ''Subject: ''))) (\<lambda>_. rd_line) else ret presetSubject) (\<lambda>subject.
     if TrimSpace subject = [] then ret () else
     chk (say w [CLine (str ''Enter your message. End with a single '' @ apos @ str ''.'' @ apos @ str '' on its own line.'')]) (\<lambda>_.
     chk dot_lines (\<lambda>lines.
     chk (deliver L w (U_ID u) subject (join [10] lines) toIDs 0) (\<lambda>sent.
     chk (Activity L (str ''send-mail'') []) (\<lambda>_.
     if sent > 1 then say w [CColorLine scr_Cyan (str ''Mail sent to '' @ itoa sent @ str '' recipients.'')]
     else say w [CColorLine scr_Cyan (str ''Mail sent.'')]))))))"

definition sendMail :: "('ip, 'net) libs \<Rightarrow> User \<Rightarrow> int \<Rightarrow> bytes \<Rightarrow> ('a call_scheme, unit) prog" where
  "sendMail L u toID presetSubject = sendToMany L u [toID] presetSubject"

section \<open>The directory\<close>

definition dir_entries :: "('ip, 'net) libs \<Rightarrow> User \<Rightarrow> bytes \<Rightarrow> User list \<Rightarrow> User list" where
  "dir_entries L u flt all = filter (\<lambda>m. U_ID m \<noteq> U_ID u \<and>
     \<not> (flt \<noteq> [] \<and> \<not> contains (ToLower (l_ulow L) (U_Handle m)) flt)) all"

definition lookup_round :: "User list \<Rightarrow> int \<Rightarrow> ('a call_scheme, User option + int) prog" where
  "lookup_round dir page =
     chk scr_New (\<lambda>w.
     case pageWindow (int (length dir)) page of (lo, hi, pages) \<Rightarrow>
     let page = clampPage page pages in
     chk (say w [CClear, CColorLine scr_Cyan (str ''Member Directory''), CColorLine scr_Cyan (str ''----------------'')]) (\<lambda>_.
     chk (for_each (\<lambda>(i, m). say w [CColor scr_Yellow, CPrint (str ''  '' @ itoa i @ str '') ''), CColor scr_White,
         CSafe (U_Handle m), CReset, CPrint nl]) (window_rows lo hi dir)) (\<lambda>_.
     chk (pageFooter w page pages) (\<lambda>_.
     chk (say w (ask (nl @ str ''[#] pick  [>]/[<] page  [Q] cancel: ''))) (\<lambda>_.
     chk rd_line (\<lambda>inp. let inp = TrimSpace inp in
       if is_quit inp then leave None
       else if inp = [62] then again (page + 1)
       else if inp = [60] then again (page - 1)
       else (case pick inp dir of Some m \<Rightarrow> leave (Some m) | None \<Rightarrow> again page)))))))"

definition lookupUser :: "('ip, 'net) libs \<Rightarrow> User \<Rightarrow> bytes \<Rightarrow> ('a call_scheme, User option) prog" where
  "lookupUser L u filter0 =
     chk (users_ListByStatus StatusApproved) (\<lambda>all.
     let flt = ToLower (l_ulow L) (TrimSpace filter0); dir = dir_entries L u flt all in
     if dir = [] then
       chk scr_New (\<lambda>w.
       chk (if flt \<noteq> [] then say w [CColorLine scr_Red (str ''no members match '' @ quot @ flt @ quot)]
            else say w [CColorLine scr_Red (str ''no other members to message yet'')]) (\<lambda>_.
       chk (ignore rd_key) (\<lambda>_. ret None)))
     else for_loop (lookup_round dir) 0)"

definition resolveRecipient :: "('ip, 'net) libs \<Rightarrow> User \<Rightarrow> bytes \<Rightarrow> ('a call_scheme, User option) prog" where
  "resolveRecipient L u entry0 = (let entry = TrimSpace entry0 in
     if entry = [] then ret None
     else if entry = [63] then lookupUser L u []
     else if contains entry [42] then lookupUser L u (filter (\<lambda>b. b \<noteq> 42) entry)
     else att (users_ByHandle entry) (\<lambda>r. case r of
         Inl e \<Rightarrow> chk scr_New (\<lambda>w.
           chk (say w [CColorLine scr_Red (str ''no such user '' @ dash @ str '' type ? to browse or use * to search'')])
             (\<lambda>_. ret None))
       | Inr m \<Rightarrow> ret (Some m)))"

definition pickRecipient :: "('ip, 'net) libs \<Rightarrow> User \<Rightarrow> ('a call_scheme, User option) prog" where
  "pickRecipient L u =
     chk scr_New (\<lambda>w.
     chk (say w ([CPrint nl] @ ask (str ''To (handle, ? to browse, * to search): ''))) (\<lambda>_.
     chk rd_line (\<lambda>to. resolveRecipient L u to)))"

text \<open>\<open>seen\<close> holds the caller, the recipient and the copies added so far.\<close>

definition cc_round :: "('ip, 'net) libs \<Rightarrow> User \<Rightarrow> int \<Rightarrow> int list \<Rightarrow> ('a call_scheme, int list + int list) prog" where
  "cc_round L u toID out =
     chk scr_New (\<lambda>w.
     chk (say w (ask (str ''CC (handle, ? to browse, * to search, blank to finish): ''))) (\<lambda>_.
     chk rd_line (\<lambda>entry.
       if TrimSpace entry = [] then leave out else
       chk (resolveRecipient L u entry) (\<lambda>r. case r of
         None \<Rightarrow> again out
       | Some m \<Rightarrow>
           if U_ID m \<in> set (U_ID u # toID # out) then again out
           else chk (say w [CColorLine scr_Cyan (str ''CC: '' @ U_Handle m @ str '' added.'')]) (\<lambda>_.
             again (out @ [U_ID m]))))))"

definition pickCC :: "('ip, 'net) libs \<Rightarrow> User \<Rightarrow> int \<Rightarrow> ('a call_scheme, int list) prog" where
  "pickCC L u toID = for_loop (cc_round L u toID) []"

definition composeMail :: "('ip, 'net) libs \<Rightarrow> User \<Rightarrow> ('a call_scheme, unit) prog" where
  "composeMail L u = chk (pickRecipient L u) (\<lambda>r. case r of
     None \<Rightarrow> ret ()
   | Some recipient \<Rightarrow> chk (pickCC L u (U_ID recipient)) (\<lambda>cc.
       sendToMany L u (U_ID recipient # cc) []))"

section \<open>Reading\<close>

definition readMail :: "('ip, 'net) libs \<Rightarrow> User \<Rightarrow> int \<Rightarrow> ('a call_scheme, unit) prog" where
  "readMail L u i = att (mail_Get i (U_ID u)) (\<lambda>r. case r of
     Inl e \<Rightarrow> ret ()
   | Inr m \<Rightarrow>
     chk scr_New (\<lambda>w.
     chk (say w [CClear, CColor scr_Cyan, CPrint (str ''Subject: ''), CSafe (Pm_Subject m), CPrint nl, CReset]) (\<lambda>_.
     chk (handle (Pm_FromID m)) (\<lambda>from.
     chk (say w ([CPrint (str ''From: '' @ from @ str ''   '' @ fmt_datetime (Pm_SentAt m) @ nl @ nl), CSafe (Pm_Body m),
         CPrint nl] @ ask (nl @ str ''[R]eply  [D]elete  [B]lock sender  re[P]ort  [Q]uit: ''))) (\<lambda>_.
     chk rd_key (\<lambda>key. let k = lower_byte key in
       if k = 114 then sendMail L u (Pm_FromID m) (str ''re: '' @ Pm_Subject m)
       else if k = 100 then
         att (mail_Delete (Pm_ID m) (U_ID u)) (\<lambda>r. case r of
           Inl e \<Rightarrow> say w [CColorLine scr_Red (str ''could not delete'')]
         | Inr _ \<Rightarrow> chk (Activity L (str ''delete-mail'') []) (\<lambda>_.
             chk (say w [CColorLine scr_Cyan (nl @ str ''Deleted.'')]) (\<lambda>_. ignore rd_key)))
       else if k = 98 then
         att (blocks_Block (U_ID u) (Pm_FromID m)) (\<lambda>r. case r of
           Inl e \<Rightarrow> say w [CColorLine scr_Red (str ''could not block'')]
         | Inr _ \<Rightarrow> chk (handle (Pm_FromID m)) (\<lambda>h.
             chk (Activity L (str ''block-user'') h) (\<lambda>_.
             chk (say w [CColorLine scr_Cyan (nl @ str ''Blocked. You won'' @ apos @ str ''t see their mail or posts.'')]) (\<lambda>_.
             ignore rd_key))))
       else if k = 112 then reportUser L u (Pm_FromID m) (str ''mail #'' @ itoa (Pm_ID m))
       else ret ()))))))"

definition hide_senders :: "int \<Rightarrow> PrivateMessage list \<Rightarrow> ('a call_scheme, PrivateMessage list) prog" where
  "hide_senders viewer inbox = att (blocks_BlockedSet viewer) (\<lambda>r. case r of
     Inl e \<Rightarrow> ret inbox
   | Inr blocked \<Rightarrow> ret (if blocked = {} then inbox else filter (\<lambda>m. Pm_FromID m \<notin> blocked) inbox))"

definition inbox_line :: "writer \<Rightarrow> int \<times> PrivateMessage \<Rightarrow> ('a call_scheme, unit) prog" where
  "inbox_line w x = (case x of (i, m) \<Rightarrow>
     chk (say w [CColor scr_Yellow, CPrint (str ''  '' @ itoa i @ str '') ''),
       CColor (if Pm_ReadAt m = None then scr_Magenta else scr_White),
       CPrint (str ''['' @ (if Pm_ReadAt m = None then str ''NEW'' else str ''   '') @ str ''] ''),
       CSafe (firstLine (Pm_Subject m)), CReset]) (\<lambda>_.
     chk (handle (Pm_FromID m)) (\<lambda>from.
     say w [CPrint (str ''  '' @ dash @ str '' from '' @ from @ str '', '' @ fmt_date (Pm_SentAt m) @ nl)])))"

definition mail_round :: "('ip, 'net) libs \<Rightarrow> User \<Rightarrow> int \<Rightarrow> ('a call_scheme, unit + int) prog" where
  "mail_round L u page =
     chk scr_New (\<lambda>w.
     chk (say w [CClear, CColorLine scr_Cyan (str ''Private Mail''), CColorLine scr_Cyan (str ''------------'')]) (\<lambda>_.
     chk (mail_Inbox (U_ID u)) (\<lambda>all.
     chk (hide_senders (U_ID u) all) (\<lambda>inbox.
     case pageWindow (int (length inbox)) page of (lo, hi, pages) \<Rightarrow>
     let page = clampPage page pages in
     chk (if inbox = [] then say w [CLine (str ''  (your inbox is empty)'')] else ret ()) (\<lambda>_.
     chk (for_each (inbox_line w) (window_rows lo hi inbox)) (\<lambda>_.
     chk (pageFooter w page pages) (\<lambda>_.
     chk (say w (ask (nl @ str ''[#] read  [C]ompose  [Q]uit: ''))) (\<lambda>_.
     chk rd_line (\<lambda>inp. let inp = TrimSpace inp in
       if is_quit inp then leave ()
       else if inp = [62] then again (page + 1)
       else if inp = [60] then again (page - 1)
       else if EqualFold1 inp 99 then chk (composeMail L u) (\<lambda>_. again page)
       else (case pick inp inbox of
           Some m \<Rightarrow> chk (readMail L u (Pm_ID m)) (\<lambda>_. again page)
         | None \<Rightarrow> again page))))))))))"

definition RunMail :: "('ip, 'net) libs \<Rightarrow> User \<Rightarrow> ('a call_scheme, unit) prog" where
  "RunMail L u = chk newHandleCache (\<lambda>_. for_loop (mail_round L u) 0)"

section \<open>What the mail screens keep\<close>

lemma report_steps: "steps (mem.callR (U_ID u) priv) (reportUser L u t c)"
  unfolding reportUser_def by (intro member_rules)

lemma deliver_steps: "steps (mem.callR u priv) (deliver L w u sb b tos n)"
proof (induction tos arbitrary: n)
  case (Cons to tos)
  show ?case by (simp only: deliver.simps) (intro member_rules Cons.IH)
qed (simp add: mem.call.steps_ret)

lemma send_steps: "steps (mem.callR (U_ID u) priv) (sendToMany L u tos sb)" "steps (mem.callR (U_ID u) priv) (sendMail L u to sb)"
  unfolding sendMail_def sendToMany_def by (intro member_rules deliver_steps)+

lemma directory_steps: "steps (mem.callR v priv) (lookupUser L u flt)"
  unfolding lookupUser_def lookup_round_def Let_def by (intro member_rules)

lemma recipient_steps: "steps (mem.callR v priv) (resolveRecipient L u e)" "steps (mem.callR v priv) (pickRecipient L u)"
  "steps (mem.callR v priv) (pickCC L u t)"
  unfolding pickRecipient_def pickCC_def cc_round_def resolveRecipient_def Let_def
  by (intro member_rules directory_steps)+

lemma mail_handler_steps: "steps (mem.callR (U_ID u) priv) (composeMail L u)" "steps (mem.callR (U_ID u) priv) (readMail L u i)"
  "steps (mem.callR (U_ID u) priv) (hide_senders v ms)" "steps (mem.callR (U_ID u) priv) (inbox_line w x)"
  unfolding composeMail_def readMail_def hide_senders_def inbox_line_def Let_def
  by (intro member_rules report_steps send_steps recipient_steps)+

lemma RunMail_steps: "steps (mem.callR (U_ID u) priv) (RunMail L u)"
  unfolding RunMail_def mail_round_def Let_def by (intro member_rules mail_handler_steps)

lemma mail_loops: "eats (lookup_round dir)" "eats (cc_round L u t)" "eats (mail_round L u)"
  unfolding eats_def lookup_round_def cc_round_def mail_round_def Let_def
  by (intro allI eat_rules io_rules mail_handler_steps [THEN io_mem] recipient_steps [THEN io_mem])+

end
