(* ===== verification/MenuBoards.thy ===== *)
theory MenuBoards
  imports MenuMail
begin

text \<open>
  The message-board screens, \<open>menu/boards.go\<close>: the list of boards, browsing one with search,
  filter and sort, reading a post and what can be done to it, posting and editing, and the
  SysOp's new board.

  A listing that is kept between rounds (\<open>listed\<close>) is \<open>None\<close> where the Go slice is nil; an
  empty result of a search is such a slice. \<open>hideBlocked\<close> filters in place, so it also
  returns what it leaves in the array behind the slice it was given.
\<close>

section \<open>Posting\<close>

definition compose :: "('ip, 'net) libs \<Rightarrow> User \<Rightarrow> int \<Rightarrow> int option \<Rightarrow> ('a call_scheme, unit) prog" where
  "compose L u areaID parentID =
     chk scr_New (\<lambda>w.
     chk (say w ([CPrint nl] @ ask (str ''Subject: ''))) (\<lambda>_.
     chk rd_line (\<lambda>subject.
     if TrimSpace subject = [] then ret () else
     chk (say w [CLine (str ''Enter your message. End with a single '' @ apos @ str ''.'' @ apos @ str '' on its own line.'')]) (\<lambda>_.
     chk dot_lines (\<lambda>lines.
     att (messages_Post areaID (U_ID u) parentID subject (join [10] lines)) (\<lambda>r. case r of
       Inl e \<Rightarrow> say w [CColorLine scr_Red (str ''could not post: '' @ l_err L e)]
     | Inr _ \<Rightarrow> chk (Activity L (str ''post-message'') []) (\<lambda>_.
         say w [CColorLine scr_Cyan (str ''Posted.'')])))))))"

definition editMessage :: "('ip, 'net) libs \<Rightarrow> User \<Rightarrow> Message \<Rightarrow> writer \<Rightarrow> ('a call_scheme, unit) prog" where
  "editMessage L u m w =
     chk (say w (ask (nl @ str ''New subject (blank = keep): ''))) (\<lambda>_.
     chk rd_line (\<lambda>inp. let subj = (if TrimSpace inp = [] then Ms_Subject m else inp) in
     chk (say w [CLine (str ''New body. End with a single '' @ apos @ str ''.'' @ apos @
         str '' on its own line (blank body = keep):'')]) (\<lambda>_.
     chk dot_lines (\<lambda>lines. let body = (if lines \<noteq> [] then join [10] lines else Ms_Body m) in
     att (messages_Edit (Ms_ID m) (U_ID u) subj body) (\<lambda>r. case r of
       Inl e \<Rightarrow> say w [CColorLine scr_Red (str ''could not edit'')]
     | Inr _ \<Rightarrow> chk (Activity L (str ''edit-message'') (firstLine subj)) (\<lambda>_.
         chk (say w [CColorLine scr_Cyan (str ''Updated.'')]) (\<lambda>_. ignore rd_key)))))))"

section \<open>Reading a post\<close>

definition hideBlocked :: "int \<Rightarrow> Message list \<Rightarrow> ('a call_scheme, Message list \<times> Message list) prog" where
  "hideBlocked viewer msgs = att (blocks_BlockedSet viewer) (\<lambda>r. case r of
     Inl e \<Rightarrow> ret (msgs, msgs)
   | Inr blocked \<Rightarrow>
       if blocked = {} then ret (msgs, msgs)
       else let kept = filter (\<lambda>m. Ms_AuthorID m \<notin> blocked) msgs in ret (kept, kept @ drop (length kept) msgs))"

definition reply_lines :: "writer \<Rightarrow> Message \<Rightarrow> ('a call_scheme, unit) prog" where
  "reply_lines w rep =
     chk (say w [CColor scr_Blue]) (\<lambda>_.
     chk (handle (Ms_AuthorID rep)) (\<lambda>h.
     say w [CPrint (nl @ str ''  '' @ [0xE2, 0x94, 0x8C] @ str '' reply from '' @ h @ str '', '' @ fmt_date (Ms_PostedAt rep) @ nl),
       CReset, CPrint (str ''  ''), CSafe (join [10, 32, 32] (split_on 10 (Ms_Body rep))), CPrint nl]))"

definition read_actions :: "('ip, 'net) libs \<Rightarrow> User \<Rightarrow> Message \<Rightarrow> writer \<Rightarrow> byte \<Rightarrow> ('a call_scheme, unit) prog" where
  "read_actions L u m w k = (let own = (Ms_AuthorID m = U_ID u) in
     if k = 114 then compose L u (Ms_AreaID m) (Some (Ms_ID m))
     else if k = 101 then (if own then editMessage L u m w else ret ())
     else if k = 100 then
       (if own \<or> U_AccessLevel u \<ge> CoSysOpLevel then
          att (messages_Delete (Ms_ID m)) (\<lambda>r. case r of
            Inl e \<Rightarrow> say w [CColorLine scr_Red (str ''could not delete'')]
          | Inr _ \<Rightarrow> chk (Activity L (str ''delete-message'') (firstLine (Ms_Subject m))) (\<lambda>_.
              chk (say w [CColorLine scr_Cyan (nl @ str ''Deleted.'')]) (\<lambda>_. ignore rd_key)))
        else ret ())
     else if k = 98 then
       (if Ms_AuthorID m = U_ID u then ret () else
        att (blocks_Block (U_ID u) (Ms_AuthorID m)) (\<lambda>r. case r of
          Inl e \<Rightarrow> say w [CColorLine scr_Red (str ''could not block'')]
        | Inr _ \<Rightarrow> chk (handle (Ms_AuthorID m)) (\<lambda>h.
            chk (Activity L (str ''block-user'') h) (\<lambda>_.
            chk (say w [CColorLine scr_Cyan (nl @ str ''Blocked. Their posts are now hidden from you.'')]) (\<lambda>_.
            ignore rd_key)))))
     else if k = 112 then reportUser L u (Ms_AuthorID m) (str ''board post #'' @ itoa (Ms_ID m))
     else ret ())"

definition readMessage :: "('ip, 'net) libs \<Rightarrow> User \<Rightarrow> Message \<Rightarrow> ('a call_scheme, unit) prog" where
  "readMessage L u m =
     chk scr_New (\<lambda>w.
     chk (say w [CClear, CColor scr_Cyan, CPrint (str ''Subject: ''), CSafe (Ms_Subject m), CPrint nl, CReset]) (\<lambda>_.
     chk (handle (Ms_AuthorID m)) (\<lambda>h.
     chk (say w [CPrint (str ''From: '' @ h @ str ''   '' @ fmt_datetime (Ms_PostedAt m) @ nl @ nl), CSafe (Ms_Body m),
       CPrint nl]) (\<lambda>_.
     chk (messages_Replies (Ms_ID m)) (\<lambda>replies0.
     chk (hideBlocked (U_ID u) replies0) (\<lambda>(replies, _).
     chk (for_each (reply_lines w) replies) (\<lambda>_.
     chk (say w (ask (nl @ (if Ms_AuthorID m = U_ID u then str ''[R]eply  [E]dit  [D]elete  re[P]ort  [Q]uit: ''
         else if U_AccessLevel u \<ge> CoSysOpLevel then str ''[R]eply  [D]elete  [B]lock author  re[P]ort  [Q]uit: ''
         else str ''[R]eply  [B]lock author  re[P]ort  [Q]uit: '')))) (\<lambda>_.
     chk rd_key (\<lambda>key. read_actions L u m w (lower_byte key))))))))))"

section \<open>Browsing a board\<close>

text \<open>The variables of the loop: the order, the page, the active listing and its header.\<close>

record browse =
  br_newest :: bool
  br_page :: int
  br_listed :: "Message list option"
  br_header :: bytes

definition nonempty :: "'x list \<Rightarrow> 'x list option" where
  "nonempty xs = (if xs = [] then None else Some xs)"

definition unlisted :: "browse \<Rightarrow> browse" where
  "unlisted b = b\<lparr>br_listed := None, br_header := [], br_page := 0\<rparr>"

definition mark_read :: "User \<Rightarrow> int \<Rightarrow> ('a call_scheme, unit) prog" where
  "mark_read u aid = att (readptr_MaxMessageID aid) (\<lambda>r. case r of
     Inl e \<Rightarrow> ret () | Inr maxID \<Rightarrow> ignore (readptr_Mark (U_ID u) aid maxID))"

definition post_line :: "writer \<Rightarrow> int \<Rightarrow> int \<times> Message \<Rightarrow> ('a call_scheme, unit) prog" where
  "post_line w entrySeen x = (case x of (i, m) \<Rightarrow>
     chk (say w ([CColor scr_Yellow, CPrint (str ''  '' @ itoa i @ str '') '')] @
       (if Ms_ID m > entrySeen then [CColor scr_Magenta, CPrint (str ''* '')] else [CColor scr_White, CPrint (str ''  '')]) @
       [CSafe (firstLine (Ms_Subject m)), CReset])) (\<lambda>_.
     chk (handle (Ms_AuthorID m)) (\<lambda>h.
     say w [CPrint (str ''  '' @ dash @ str '' '' @ h @ str '', '' @ fmt_date (Ms_PostedAt m) @ nl)])))"

definition browse_screen :: "writer \<Rightarrow> bytes \<Rightarrow> int \<Rightarrow> browse \<Rightarrow> Message list \<Rightarrow> int \<Rightarrow> int \<Rightarrow> int \<Rightarrow> ('a call_scheme, unit) prog" where
  "browse_screen w name entrySeen b msgs lo hi pages =
     chk (say w [CClear, CColor scr_Cyan, CPrint (str ''Board: ''), CSafe name,
       CPrint (str ''   ('' @ (if br_newest b then str ''newest first'' else str ''oldest first'') @ str '')'' @ nl), CReset]) (\<lambda>_.
     chk (if br_header b \<noteq> [] then say w [CColorLine scr_Blue (br_header b)] else ret ()) (\<lambda>_.
     chk (if msgs = [] then say w [CLine (str ''  (no messages)'')] else ret ()) (\<lambda>_.
     chk (for_each (post_line w entrySeen) (window_rows lo hi msgs)) (\<lambda>_.
     chk (pageFooter w (br_page b) pages) (\<lambda>_.
     say w (ask (nl @ str ''[#] read  [P]ost  [S]earch  [U] by user  [D] sort  [C]lear  [Q]uit: '')))))))"

definition browse_search :: "('ip, 'net) libs \<Rightarrow> int \<Rightarrow> writer \<Rightarrow> browse \<Rightarrow> ('a call_scheme, browse) prog" where
  "browse_search L aid w b =
     chk (say w (ask (nl @ str ''Search text: ''))) (\<lambda>_.
     chk (default [] rd_line) (\<lambda>q0. let q = TrimSpace q0 in
     if q = [] then ret b else
     chk (messages_Search (l_ulow L) aid q) (\<lambda>res.
       ret (b\<lparr>br_listed := nonempty res, br_page := 0, br_header := str ''search '' @ l_quote L q @ str '' '' @ dash @ str '' '' @
         itoa (int (length res)) @ str '' hit(s)''\<rparr>))))"

definition browse_by_user :: "int \<Rightarrow> writer \<Rightarrow> browse \<Rightarrow> ('a call_scheme, browse) prog" where
  "browse_by_user aid w b =
     chk (say w (ask (nl @ str ''Filter by handle: ''))) (\<lambda>_.
     chk (default [] rd_line) (\<lambda>h.
     att (users_ByHandle (TrimSpace h)) (\<lambda>r. case r of
       Inl e \<Rightarrow> chk (say w [CColorLine scr_Red (str ''no such user'')]) (\<lambda>_. ret b)
     | Inr target \<Rightarrow> chk (messages_ByAuthor aid (U_ID target)) (\<lambda>res.
         ret (b\<lparr>br_listed := nonempty res, br_page := 0, br_header := str ''by '' @ U_Handle target @ str '' '' @ dash @ str '' '' @
           itoa (int (length res)) @ str '' message(s)''\<rparr>)))))"

definition browse_cmd :: "('ip, 'net) libs \<Rightarrow> User \<Rightarrow> int \<Rightarrow> writer \<Rightarrow> browse \<Rightarrow> Message list \<Rightarrow> bytes
    \<Rightarrow> ('a call_scheme, unit + browse) prog" where
  "browse_cmd L u aid w b msgs inp =
     (if is_quit inp then chk (mark_read u aid) (\<lambda>_. leave ())
      else if inp = [62] then again (b\<lparr>br_page := br_page b + 1\<rparr>)
      else if inp = [60] then again (b\<lparr>br_page := br_page b - 1\<rparr>)
      else if EqualFold1 inp 112 then chk (compose L u aid None) (\<lambda>_. again (unlisted b))
      else if EqualFold1 inp 100 then again (unlisted (b\<lparr>br_newest := \<not> br_newest b\<rparr>))
      else if EqualFold1 inp 99 then again (unlisted b)
      else if EqualFold1 inp 115 then chk (browse_search L aid w b) again
      else if EqualFold1 inp 117 then chk (browse_by_user aid w b) again
      else (case pick inp msgs of
          Some m \<Rightarrow> chk (readMessage L u m) (\<lambda>_. again b)
        | None \<Rightarrow> again b))"

definition browse_round :: "('ip, 'net) libs \<Rightarrow> User \<Rightarrow> int \<times> area_row \<Rightarrow> int \<Rightarrow> browse \<Rightarrow> ('a call_scheme, unit + browse) prog" where
  "browse_round L u area entrySeen b =
     chk scr_New (\<lambda>w.
     chk (case br_listed b of Some l \<Rightarrow> ret l | None \<Rightarrow> messages_ThreadSorted (fst area) (br_newest b)) (\<lambda>msgs0.
     chk (hideBlocked (U_ID u) msgs0) (\<lambda>(msgs, behind).
     case pageWindow (int (length msgs)) (br_page b) of (lo, hi, pages) \<Rightarrow>
     let b = b\<lparr>br_page := clampPage (br_page b) pages, br_listed := map_option (\<lambda>_. behind) (br_listed b)\<rparr> in
     chk (browse_screen w (a_name (snd area)) entrySeen b msgs lo hi pages) (\<lambda>_.
     chk rd_line (\<lambda>inp. browse_cmd L u (fst area) w b msgs (TrimSpace inp))))))"

definition browseArea :: "('ip, 'net) libs \<Rightarrow> User \<Rightarrow> int \<times> area_row \<Rightarrow> ('a call_scheme, unit) prog" where
  "browseArea L u area = chk (default 0 (readptr_LastSeen (U_ID u) (fst area))) (\<lambda>entrySeen.
     for_loop (browse_round L u area entrySeen) \<lparr>br_newest = False, br_page = 0, br_listed = None, br_header = []\<rparr>)"

section \<open>The list of boards\<close>

text \<open>The step-up question of \<open>newBoard\<close> and \<open>newFileArea\<close>; the SysOp panel asks its own.\<close>

definition sysop_gate :: "('ip, 'net) libs \<Rightarrow> writer \<Rightarrow> bytes \<Rightarrow> bytes \<Rightarrow> ('a call_scheme, bool) prog" where
  "sysop_gate L w sysopPass denied = (if sysopPass = [] then ret True else
     chk (say w (ask (nl @ str ''SysOp password: ''))) (\<lambda>_.
     chk rd_password (\<lambda>entered.
     if \<not> sysopPassOK entered sysopPass then
       chk (Activity L denied (str ''bad sysop password'')) (\<lambda>_.
       chk (say w [CColorLine scr_Red (str ''Denied.'')]) (\<lambda>_.
       chk (ignore rd_key) (\<lambda>_. ret False)))
     else ret True)))"

definition min_level :: "bytes \<Rightarrow> int" where
  "min_level v = (if v = [] then 0 else (case atoi v of Some l \<Rightarrow> if 0 \<le> l then l else 0 | None \<Rightarrow> 0))"

definition newBoard :: "('ip, 'net) libs \<Rightarrow> User \<Rightarrow> bytes \<Rightarrow> ('a call_scheme, unit) prog" where
  "newBoard L u sysopPass =
     chk scr_New (\<lambda>w.
     if U_AccessLevel u < CoSysOpLevel then ret () else
     chk (sysop_gate L w sysopPass (str ''board-create-denied'')) (\<lambda>ok.
     if \<not> ok then ret () else
     chk (prompt w (str ''New board name (blank to cancel): '')) (\<lambda>name.
     if name = [] then ret () else
     chk (prompt w (str ''Description: '')) (\<lambda>desc.
     chk (prompt w (str ''Min access level [0]: '')) (\<lambda>v.
     att (areas_Create name desc (min_level v)) (\<lambda>r. case r of
       Inl e \<Rightarrow> chk (say w [CColorLine scr_Red (str ''could not create board: '' @ l_err L e)]) (\<lambda>_. ignore rd_key)
     | Inr _ \<Rightarrow> chk (Activity L (str ''board-create'') name) (\<lambda>_.
         chk (say w [CColorLine scr_Cyan (str ''Board created.'')]) (\<lambda>_. ignore rd_key))))))))"

definition board_line :: "writer \<Rightarrow> User \<Rightarrow> int \<times> (int \<times> area_row) \<Rightarrow> ('a call_scheme, unit) prog" where
  "board_line w u x = (case x of (i, (aid, a)) \<Rightarrow>
     chk (say w [CColor scr_Yellow, CPrint (str ''  '' @ itoa i @ str '') ''), CColor scr_White, CSafe (a_name a), CReset,
       CPrint (str '' '' @ dash @ str '' ''), CSafe (a_description a)]) (\<lambda>_.
     chk (default 0 (readptr_NewCount (U_ID u) aid)) (\<lambda>n.
     chk (if n > 0 then say w [CColor scr_Magenta, CPrint (str ''  ('' @ itoa (int n) @ str '' new)''), CReset] else ret ()) (\<lambda>_.
     say w [CPrint nl]))))"

definition boards_round :: "('ip, 'net) libs \<Rightarrow> User \<Rightarrow> bytes \<Rightarrow> unit \<Rightarrow> ('a call_scheme, unit + unit) prog" where
  "boards_round L u sysopPass _ = (let isSysOp = (U_AccessLevel u \<ge> CoSysOpLevel) in
     chk scr_New (\<lambda>w.
     chk (say w [CClear, CColorLine scr_Cyan (str ''Message Boards''), CColorLine scr_Cyan (str ''--------------'')]) (\<lambda>_.
     chk (areas_Visible (U_AccessLevel u)) (\<lambda>areas.
     chk (for_each (board_line w u) (numbered areas)) (\<lambda>_.
     chk (say w (ask (nl @ (if isSysOp then str ''Area # ([N]ew board, [Q]uit): '' else str ''Area # (or [Q]uit): '')))) (\<lambda>_.
     chk rd_line (\<lambda>inp. let inp = TrimSpace inp in
       if is_quit inp then leave ()
       else if isSysOp \<and> EqualFold1 inp 110 then chk (newBoard L u sysopPass) (\<lambda>_. again ())
       else (case pick inp areas of
           Some a \<Rightarrow> chk (browseArea L u a) (\<lambda>_. again ())
         | None \<Rightarrow> again ()))))))))"

definition RunBoards :: "('ip, 'net) libs \<Rightarrow> User \<Rightarrow> bytes \<Rightarrow> ('a call_scheme, unit) prog" where
  "RunBoards L u sysopPass = chk newHandleCache (\<lambda>_. for_loop (boards_round L u sysopPass) ())"

section \<open>What the board screens keep\<close>

lemma compose_steps: "steps (mem.callR (U_ID u) priv) (compose L u a p)" "steps (mem.callR (U_ID u) priv) (editMessage L u m w)"
  "steps (mem.callR (U_ID u) priv) (mark_read u a)"
  unfolding compose_def editMessage_def mark_read_def Let_def by (intro member_rules)+

lemma board_screen_steps:
  "steps (mem.callR v priv) (hideBlocked i ms)" "steps (mem.callR v priv) (reply_lines w m)" "steps (mem.callR v priv) (post_line w n x)"
  "steps (mem.callR v priv) (board_line w u y)" "steps (mem.callR v priv) (sysop_gate L w sp dn)"
  "steps (mem.callR v priv) (browse_search L a w b)" "steps (mem.callR v priv) (browse_by_user a w b)"
  unfolding hideBlocked_def reply_lines_def post_line_def board_line_def sysop_gate_def browse_search_def browse_by_user_def Let_def
  by (intro member_rules)+

lemma browse_screen_steps: "steps (mem.callR v priv) (browse_screen w n e b ms lo hi pg)"
  unfolding browse_screen_def by (intro member_rules board_screen_steps)

lemma newBoard_steps: "priv \<longleftrightarrow> CoSysOpLevel \<le> U_AccessLevel u \<Longrightarrow> steps (mem.callR (U_ID u) priv) (newBoard L u sp)"
proof (cases "U_AccessLevel u < CoSysOpLevel")
  case True
  then show ?thesis unfolding newBoard_def by (simp add: member_rules)
next
  case False
  moreover assume "priv \<longleftrightarrow> CoSysOpLevel \<le> U_AccessLevel u"
  ultimately have priv by simp
  then show ?thesis unfolding newBoard_def
    by (intro member_rules board_screen_steps create_priv_steps [THEN mem.steps_store])
qed

text \<open>The posts of a listing and their authors.\<close>

interpretation posts: listing m_author d_message Ms_ID Ms_AuthorID
  by unfold_locales (use stmt_owners db_inv_message in auto)

lemma list_known:
  assumes "\<And>d. set (sel d) \<subseteq> set (t_rows (d_message d))"
  shows "mem.triple u priv (\<lambda>s. db_inv (st_db s)) (messages_list sel) posts.known_all"
proof (rule posts.query_known [OF mem.read_rules(7)])
  fix s :: "'a call_scheme" and ms s'
  assume "messages_list sel s = (Inr ms, s')"
  from query_InrD [OF this [unfolded messages_list_def]]
  have sc: "scan_rows (messages_scan (st_prims s) (st_vault s)) (sel (st_db s)) = Inr ms" and s': "st_db s' = st_db s" by auto
  have "\<exists>r. (Ms_ID m, r) \<in> set (t_rows (d_message (st_db s))) \<and> Ms_AuthorID m = m_author r" if m: "m \<in> set ms" for m
    using scan_rows_source [OF sc m] assms [of "st_db s"] by (fastforce simp: messages_scan_def split: sum.splits)
  then show "st_db s' = st_db s \<and> (\<forall>m \<in> set ms. \<exists>r. (Ms_ID m, r) \<in> set (t_rows (d_message (st_db s))) \<and> Ms_AuthorID m = m_author r)"
    using s' by blast
qed

lemma known_lists:
  "mem.triple u priv (\<lambda>s. db_inv (st_db s)) (messages_ThreadSorted a b) posts.known_all"
  "mem.triple u priv (\<lambda>s. db_inv (st_db s)) (messages_ByAuthor a v) posts.known_all"
  unfolding messages_ThreadSorted_def messages_ByAuthor_def by (rule list_known; auto simp: tbl_select_def)+

lemma known_search: "mem.triple u priv (\<lambda>s. db_inv (st_db s)) (messages_Search f a q) posts.known_all"
  unfolding messages_Search_def
  by (rule mem.triple_chk [OF list_known]) (auto simp: tbl_select_def intro!: mem.triple_ret elim: posts.known_sub)

lemma delete_known:
  assumes "priv \<or> Ms_AuthorID m = u"
  shows "mem.triple u priv (posts.known_all [m]) (messages_Delete (Ms_ID m)) (\<lambda>_ _. True)"
  by (rule mem.triple_weaken [OF messages_Delete_member]) (use assms in \<open>auto simp: posts.known_all_def known_def\<close>)

lemma read_actions_triple:
  assumes "priv \<longleftrightarrow> CoSysOpLevel \<le> U_AccessLevel u"
  shows "mem.triple (U_ID u) priv (posts.known_all [m]) (read_actions L u m w k) (\<lambda>_ _. True)"
proof -
  have del: "mem.triple (U_ID u) priv (posts.known_all [m]) (att (messages_Delete (Ms_ID m)) f) (\<lambda>_ _. True)"
    if "Ms_AuthorID m = U_ID u \<or> U_AccessLevel u \<ge> CoSysOpLevel" "\<And>r. steps (mem.callR (U_ID u) priv) (f r)" for f
    by (rule mem.triple_att [OF delete_known posts.stable_known_all]) (use assms that in \<open>auto intro!: plain_triple\<close>)
  have act: "steps (mem.callR (U_ID u) priv) (case r of Inl e \<Rightarrow> say w [CColorLine scr_Red (str ''could not delete'')]
     | Inr _ \<Rightarrow> chk (Activity L (str ''delete-message'') (firstLine (Ms_Subject m))) (\<lambda>_.
         chk (say w [CColorLine scr_Cyan (nl @ str ''Deleted.'')]) (\<lambda>_. ignore rd_key)))" for r :: "gerr + unit"
    by (intro member_rules)
  have cond: "mem.triple (U_ID u) priv P (if b then p else ret ()) (\<lambda>_ _. True)"
    if "b \<Longrightarrow> mem.triple (U_ID u) priv P p (\<lambda>_ _. True)" for b P p
    using that by (cases b) (simp_all add: mem.triple_ret)
  show ?thesis
    unfolding read_actions_def Let_def
    by (rule mem.triple_if, (rule plain_triple, intro member_rules compose_steps report_steps))
       (rule mem.triple_if, (rule plain_triple, intro member_rules compose_steps report_steps),
        rule mem.triple_if, (rule cond, rule del, assumption, rule act),
        (rule plain_triple, intro member_rules compose_steps report_steps))
qed

lemma readMessage_triple:
  assumes "priv \<longleftrightarrow> CoSysOpLevel \<le> U_AccessLevel u"
  shows "mem.triple (U_ID u) priv (posts.known_all [m]) (readMessage L u m) (\<lambda>_ _. True)"
  unfolding readMessage_def
  by (intro mem.triple_seq [OF _ posts.stable_known_all] mem.triple_prod read_actions_triple assms member_rules board_screen_steps)

text \<open>The loop of \<open>browseArea\<close>: every post a listing holds is known by its author.\<close>

definition listed_of :: "browse \<Rightarrow> Message list" where
  "listed_of b = (case br_listed b of None \<Rightarrow> [] | Some l \<Rightarrow> l)"

abbreviation browse_post :: "unit + browse \<Rightarrow> 'a call_scheme \<Rightarrow> bool" where
  "browse_post r s \<equiv> (case r of Inl _ \<Rightarrow> True | Inr b \<Rightarrow> posts.known_all (listed_of b) s)"

lemma listed_of_simps [simp]:
  "listed_of (b\<lparr>br_page := p\<rparr>) = listed_of b" "listed_of (b\<lparr>br_newest := v\<rparr>) = listed_of b"
  "listed_of (b\<lparr>br_header := h\<rparr>) = listed_of b" "listed_of (unlisted b) = []"
  "listed_of (b\<lparr>br_listed := nonempty l\<rparr>) = l"
  by (simp_all add: listed_of_def unlisted_def nonempty_def)

lemma hide_known:
  "mem.triple u priv (posts.known_all ms) (hideBlocked i ms) (\<lambda>r s. posts.known_all (fst r) s \<and> posts.known_all (snd r) s)"
  unfolding hideBlocked_def Let_def
  by (intro mem.triple_try [OF _ posts.stable_known_all] mem.triple_sum mem.triple_if mem.triple_ret member_rules)
     (auto elim!: posts.known_sub dest: in_set_dropD)

lemma stable_and: "mem.stable u priv P \<Longrightarrow> mem.stable u priv Q \<Longrightarrow> mem.stable u priv (\<lambda>s. P s \<and> Q s)"
  unfolding mem.stable_def by blast

lemma browse_search_known:
  "mem.triple u priv (posts.known_all (listed_of b)) (browse_search L a w b) (\<lambda>b. posts.known_all (listed_of b))"
  "mem.triple u priv (posts.known_all (listed_of b)) (browse_by_user a w b) (\<lambda>b. posts.known_all (listed_of b))"
proof -
  show "mem.triple u priv (posts.known_all (listed_of b)) (browse_search L a w b) (\<lambda>b. posts.known_all (listed_of b))"
    unfolding browse_search_def Let_def
    by (intro mem.triple_seq [OF _ posts.stable_known_all] member_rules mem.triple_if mem.triple_ret posts.relist known_search) simp_all
  show "mem.triple u priv (posts.known_all (listed_of b)) (browse_by_user a w b) (\<lambda>b. posts.known_all (listed_of b))"
    unfolding browse_by_user_def
    by (intro posts.relist known_lists mem.triple_seq [OF _ posts.stable_known_all] mem.triple_try [OF _ posts.stable_known_all] member_rules
      mem.triple_sum mem.triple_ret) simp_all
qed

lemma browse_cmd_triple:
  assumes "priv \<longleftrightarrow> CoSysOpLevel \<le> U_AccessLevel u"
  shows "mem.triple (U_ID u) priv (posts.known_all (msgs @ listed_of b)) (browse_cmd L u a w b msgs inp) browse_post"
proof -
  let ?P = "posts.known_all (msgs @ listed_of b)"
  have old: "posts.known_all (listed_of b) s" "posts.known_all [] s" if "?P s" for s
    using that by (simp_all add: posts.known_all_def)
  have re: "mem.triple (U_ID u) priv ?P (chk m again) browse_post"
    if "mem.triple (U_ID u) priv (posts.known_all (listed_of b)) m (\<lambda>b. posts.known_all (listed_of b))" for m
    by (rule mem.triple_chk [OF mem.triple_weaken [OF that old(1)]]) (auto intro!: posts.triple_again)
  have quit: "mem.triple (U_ID u) priv ?P (chk (mark_read u a) (\<lambda>_. leave ())) browse_post"
    by (intro mem.triple_seq [OF compose_steps(3) posts.stable_known_all]) (simp add: leave_def mem.triple_ret)
  have post: "mem.triple (U_ID u) priv ?P (chk (compose L u a None) (\<lambda>_. again (unlisted b))) browse_post"
    by (intro mem.triple_seq [OF compose_steps(1) posts.stable_known_all] posts.triple_again) (simp add: old)
  have rd: "mem.triple (U_ID u) priv ?P (chk (readMessage L u m) (\<lambda>_. again b)) browse_post" if "m \<in> set msgs" for m
    by (rule posts.triple_keep [OF readMessage_triple [OF assms]]) (use that old in \<open>auto intro: posts.triple_again\<close>)
  have pk: "mem.triple (U_ID u) priv ?P (case pick inp msgs of Some m \<Rightarrow> chk (readMessage L u m) (\<lambda>_. again b) | None \<Rightarrow> again b)
      browse_post"
    by (cases "pick inp msgs") (auto intro!: posts.triple_again rd elim: old pick_set)
  show ?thesis
    unfolding browse_cmd_def
    by (intro mem.triple_if quit post pk re browse_search_known posts.triple_again) (simp_all add: old)
qed

lemma browse_round_triple:
  assumes "priv \<longleftrightarrow> CoSysOpLevel \<le> U_AccessLevel u"
  shows "mem.triple (U_ID u) priv (posts.known_all (listed_of b)) (browse_round L u area e b) browse_post"
proof -
  let ?fetch = "case br_listed b of Some l \<Rightarrow> ret l | None \<Rightarrow> messages_ThreadSorted (fst area) (br_newest b)"
  have fetch: "mem.triple (U_ID u) priv (posts.known_all (listed_of b)) ?fetch posts.known_all"
    by (cases "br_listed b") (auto simp: listed_of_def posts.known_all_def intro!: mem.triple_ret mem.triple_weaken [OF known_lists(1)])
  have cmd: "mem.triple (U_ID u) priv (\<lambda>s. posts.known_all ms s \<and> posts.known_all bh s)
      (chk (browse_screen w (a_name (snd area)) e b' ms lo hi pages) (\<lambda>_.
       chk rd_line (\<lambda>inp. browse_cmd L u (fst area) w b' ms (TrimSpace inp)))) browse_post"
    if "set (listed_of b') \<subseteq> set bh" for b' ms bh lo hi pages w
    by (intro mem.triple_seq [OF _ stable_and [OF posts.stable_known_all posts.stable_known_all]] browse_screen_steps member_rules
        mem.triple_weaken [OF browse_cmd_triple [OF assms]])
       (use that in \<open>auto simp: posts.known_all_def\<close>)
  show ?thesis
    unfolding browse_round_def
    by (rule mem.triple_seq [OF _ posts.stable_known_all mem.triple_chk [OF fetch mem.triple_chk [OF hide_known]]])
       (auto simp: Let_def listed_of_def split: prod.splits option.splits intro!: cmd member_rules)
qed

text \<open>Every round reads a line before it goes round again.\<close>

lemma read_io: "steps io.callR (readMessage L u m)"
proof -
  have act: "steps io.callR (read_actions L u m w k)" for w k
    unfolding read_actions_def Let_def
    by (intro io_rules compose_steps [THEN io_mem] report_steps [THEN io_mem])
  show ?thesis
    unfolding readMessage_def by (intro io_rules act board_screen_steps [THEN io_mem])
qed

lemma browse_io: "steps io.callR (browse_cmd L u a w b ms inp)"
  unfolding browse_cmd_def by (intro io_rules read_io compose_steps [THEN io_mem] board_screen_steps [THEN io_mem])

lemma browseArea_io: "steps io.callR (browseArea L u area)"
  unfolding browseArea_def browse_round_def Let_def
  by (intro io_rules browse_io board_screen_steps [THEN io_mem] browse_screen_steps [THEN io_mem])

lemma board_loops: "eats (browse_round L u area e)" "eats (boards_round L u sp)"
  unfolding eats_def browse_round_def boards_round_def Let_def
  by (intro allI eat_rules io_rules browse_io browseArea_io board_screen_steps [THEN io_mem] browse_screen_steps [THEN io_mem]
      newBoard_steps [OF refl, THEN io_mem])+

lemma browseArea_steps:
  assumes "priv \<longleftrightarrow> CoSysOpLevel \<le> U_AccessLevel u"
  shows "steps (mem.callR (U_ID u) priv) (browseArea L u area)"
proof (rule mem_steps_triple [OF _ browseArea_io])
  let ?b = "\<lparr>br_newest = False, br_page = 0, br_listed = None, br_header = []\<rparr>"
  have "mem.triple (U_ID u) priv (posts.known_all (listed_of ?b)) (for_loop (browse_round L u area e) ?b) (\<lambda>_ _. True)" for e
    by (rule mem.triple_loop [where I = "\<lambda>b. posts.known_all (listed_of b)", OF browse_round_triple [OF assms]])
  then have "mem.triple (U_ID u) priv (\<lambda>s. db_inv (st_db s)) (for_loop (browse_round L u area e) ?b) (\<lambda>_ _. True)" for e
    by (rule mem.triple_weaken) (simp add: listed_of_def posts.known_all_def)
  then show "mem.triple (U_ID u) priv (\<lambda>s. db_inv (st_db s)) (browseArea L u area) (\<lambda>_ _. True)"
    unfolding browseArea_def by (intro mem.triple_seq [OF _ stable_inv] member_rules)
qed

lemma RunBoards_steps:
  assumes "priv \<longleftrightarrow> CoSysOpLevel \<le> U_AccessLevel u"
  shows "steps (mem.callR (U_ID u) priv) (RunBoards L u sp)"
  unfolding RunBoards_def boards_round_def Let_def
  by (intro member_rules board_screen_steps newBoard_steps [OF assms] browseArea_steps [OF assms])

end
