(* ===== verification/MenuFiles.thy ===== *)
theory MenuFiles
  imports MenuBoards Xmodem
begin

text \<open>
  The file library, \<open>menu/files.go\<close>: the list of areas, browsing one with search, filter and
  sort, downloads (XMODEM or inline), the three ways to upload, deletion, and the SysOp's
  new area; and \<open>session.Raw\<close>, the byte-level wire the transfers use.
\<close>

section \<open>The raw wire\<close>

text \<open>
  \<open>rawIO.Read\<close> hands out the bytes as they come, each postponing the idle watchdog.
  \<open>raw_in\<close> are the bytes such reads would still deliver, \<open>raw_skip n\<close> the session after \<open>n\<close> of
  them. A program over the wire runs on these bytes; what it wrote goes to the caller, and a
  read past the last of them is one more read of the session, which fails.
\<close>

function raw_in :: "session \<Rightarrow> bytes" where
  "raw_in s = (case ReadByte s of (Inl e, s1) \<Rightarrow> [] | (Inr b, s1) \<Rightarrow> b # raw_in (resetIdle s1))"
  by pat_completeness auto
termination
  by (relation "measure (\<lambda>s. length (s_in s))") (auto dest: ReadByte_length')

declare raw_in.simps [simp del]

fun raw_skip :: "nat \<Rightarrow> session \<Rightarrow> session" where
  "raw_skip 0 s = s"
| "raw_skip (Suc n) s = (case ReadByte s of (Inl e, s1) \<Rightarrow> s1 | (Inr b, s1) \<Rightarrow> raw_skip n (resetIdle s1))"

definition raw_wire :: "session \<Rightarrow> xio" where
  "raw_wire ss = \<lparr>x_in = raw_in ss, x_out = [], x_wleft = (if s_closed ss then Some 0 else None)\<rparr>"

definition on_raw :: "(xio, 'x) prog \<Rightarrow> ('a call_scheme, 'x) prog" where
  "on_raw m = on_sess (\<lambda>ss. case m (raw_wire ss) of (r, x) \<Rightarrow>
     let s1 = sess_write (x_out x) (raw_skip (length (raw_in ss) - length (x_in x)) ss) in
     (r, if r = Inl ErrEOF then snd (ReadByte s1) else s1))"

section \<open>Sizes and orders\<close>

definition humanSize :: "int \<Rightarrow> bytes" where
  "humanSize b = (if b \<ge> 2 ^ 20 then fixed1 b 20 @ str ''MB''
     else if b \<ge> 2 ^ 10 then fixed1 b 10 @ str ''KB'' else itoa b @ str ''B'')"

definition nextFileSort :: "bytes \<Rightarrow> bytes" where
  "nextFileSort cur = (if cur = str ''newest'' then str ''oldest''
     else if cur = str ''oldest'' then str ''name''
     else if cur = str ''name'' then str ''size''
     else if cur = str ''size'' then str ''downloads''
     else str ''newest'')"

section \<open>Transfers\<close>

definition downloadFile :: "('ip, 'net) libs \<Rightarrow> FileEntry \<Rightarrow> ('a call_scheme, unit) prog" where
  "downloadFile L f = att (files_Content (Fe_ID f)) (\<lambda>r. case r of
     Inl e \<Rightarrow> ret ()
   | Inr content \<Rightarrow>
     chk scr_New (\<lambda>w.
     chk (say w ([CClear] @ ask (str ''[X]MODEM transfer or [V]iew inline? ''))) (\<lambda>_.
     chk rd_key (\<lambda>mode.
     chk (Activity L (str ''download-file'') (Fe_Filename f)) (\<lambda>_.
     chk (if lower_byte mode = 120 then
            chk (say w [CLine (nl @ str ''Start your XMODEM receive now...'')]) (\<lambda>_.
            att (on_raw (Send content)) (\<lambda>r. case r of
              Inl e \<Rightarrow> say w [CColorLine scr_Red (nl @ str ''transfer failed: '' @ l_err L e)]
            | Inr _ \<Rightarrow> say w [CColorLine scr_Cyan (nl @ str ''transfer complete.'')]))
          else
            chk (say w [CColorLine scr_Cyan (str ''----- BEGIN '' @ Fe_Filename f @ str '' -----'')]) (\<lambda>_.
            chk (sess_raw_write content) (\<lambda>_.
            say w [CPrint nl, CColorLine scr_Cyan (str ''----- END '' @ Fe_Filename f @ str '' -----'')]))) (\<lambda>_.
     chk (say w (ask (nl @ str ''Press any key to continue...''))) (\<lambda>_.
     chk rd_key (\<lambda>_. ret ()))))))))"

text \<open>The content of an upload; \<open>None\<close> where the function has told the caller and returns nil.\<close>

definition paste_base64 :: "('a call_scheme, bytes) prog" where
  "paste_base64 = for_loop (\<lambda>sb. chk rd_line (\<lambda>line.
     if line = [46] then leave sb else again (sb @ TrimSpace line))) []"

definition upload_content :: "('ip, 'net) libs \<Rightarrow> writer \<Rightarrow> byte \<Rightarrow> ('a call_scheme, bytes option) prog" where
  "upload_content L w mode =
     (if lower_byte mode = 120 then
        chk (say w [CLine (nl @ str ''Start your XMODEM send now...'')]) (\<lambda>_.
        att (on_raw (Receive MaxFileBytes)) (\<lambda>r. case r of
          Inl e \<Rightarrow> chk (say w [CColorLine scr_Red (nl @ str ''upload failed: '' @ l_err L e)]) (\<lambda>_. ret None)
        | Inr data \<Rightarrow> ret (Some data)))
      else if lower_byte mode = 98 then
        chk (say w [CLine (nl @ str ''Paste the file'' @ apos @ str ''s base64 (e.g. `base64 file`). End with a single '' @
          apos @ str ''.'' @ apos @ str '' on its own line.'')]) (\<lambda>_.
        chk paste_base64 (\<lambda>sb. case DecodeString sb of
          Inl p \<Rightarrow> chk (say w [CColorLine scr_Red (str ''that isn'' @ apos @ str ''t valid base64 '' @ dash @
            str '' try again: illegal base64 data at input byte '' @ itoa (int p))]) (\<lambda>_. ret None)
        | Inr data \<Rightarrow> ret (Some data)))
      else
        chk (say w [CLine (nl @ str ''Paste the file contents (text/ANSI). End with a single '' @ apos @ str ''.'' @ apos @
          str '' on its own line.'')]) (\<lambda>_.
        chk dot_lines (\<lambda>lines. ret (Some (join [10] lines)))))"

definition upload_failure :: "('ip, 'net) libs \<Rightarrow> gerr \<Rightarrow> bytes" where
  "upload_failure L e = (if e = ErrTooLarge then str ''too large '' @ dash @ str '' limit is 10 MiB''
     else if e = ErrQuotaExceeded then str ''over your storage quota (100 MiB) '' @ dash @ str '' delete some files first''
     else if e = ErrDuplicateName then str ''a file with that name already exists here '' @ dash @ str '' delete it first to replace''
     else str ''upload failed: '' @ l_err L e)"

definition uploadFile :: "('ip, 'net) libs \<Rightarrow> User \<Rightarrow> int \<Rightarrow> ('a call_scheme, unit) prog" where
  "uploadFile L u areaID =
     chk scr_New (\<lambda>w.
     chk (say w ([CPrint nl] @ ask (str ''Filename: ''))) (\<lambda>_.
     chk rd_line (\<lambda>filename.
     if TrimSpace filename = [] then ret () else
     chk (say w (ask (str ''Description: ''))) (\<lambda>_.
     chk rd_line (\<lambda>desc.
     chk (say w (ask (str ''[B]ase64 (binary paste), [P]aste text, or [X]MODEM? ''))) (\<lambda>_.
     chk rd_key (\<lambda>mode.
     chk (upload_content L w mode) (\<lambda>c. case c of
       None \<Rightarrow> ret ()
     | Some content \<Rightarrow>
         att (files_Add areaID (U_ID u) (TrimSpace filename) desc content) (\<lambda>r. case r of
           Inl e \<Rightarrow> say w [CColorLine scr_Red (upload_failure L e)]
         | Inr _ \<Rightarrow> chk (Activity L (str ''upload-file'') (TrimSpace filename)) (\<lambda>_.
             say w [CColorLine scr_Cyan (str ''Uploaded.'')]))))))))))"

section \<open>Browsing an area\<close>

record fbrowse =
  fb_sort :: bytes
  fb_page :: int
  fb_listed :: "FileEntry list option"
  fb_header :: bytes

definition f_unlisted :: "fbrowse \<Rightarrow> fbrowse" where
  "f_unlisted b = b\<lparr>fb_listed := None, fb_header := [], fb_page := 0\<rparr>"

definition file_line :: "writer \<Rightarrow> int \<times> FileEntry \<Rightarrow> ('a call_scheme, unit) prog" where
  "file_line w x = (case x of (i, f) \<Rightarrow>
     chk (say w [CColor scr_Yellow, CPrint (str ''  '' @ itoa i @ str '') ''), CColor scr_White, CSafe (Fe_Filename f), CReset]) (\<lambda>_.
     chk (handle (Fe_UploaderID f)) (\<lambda>h.
     say w [CPrint (str ''  '' @ humanSize (Fe_SizeBytes f) @ str '' ('' @ itoa (Fe_DownloadCount f) @ str ''x) by '' @ h @ str ''  ''),
       CSafe (firstLine (Fe_Description f)), CPrint nl])))"

definition files_screen :: "writer \<Rightarrow> bytes \<Rightarrow> fbrowse \<Rightarrow> FileEntry list \<Rightarrow> int \<Rightarrow> int \<Rightarrow> int \<Rightarrow> ('a call_scheme, unit) prog" where
  "files_screen w name b files lo hi pages =
     chk (say w [CClear, CColor scr_Cyan, CPrint (str ''Files: ''), CSafe name, CPrint (str ''   ('' @ fb_sort b @ str '')'' @ nl),
       CReset]) (\<lambda>_.
     chk (if fb_header b \<noteq> [] then say w [CColorLine scr_Blue (fb_header b)] else ret ()) (\<lambda>_.
     chk (if files = [] then say w [CLine (str ''  (no files)'')] else ret ()) (\<lambda>_.
     chk (for_each (file_line w) (window_rows lo hi files)) (\<lambda>_.
     chk (pageFooter w (fb_page b) pages) (\<lambda>_.
     say w (ask (nl @
       str ''[#] download  [U]pload  [S]earch  [B] by user  [R] sort  [K] delete  [C]lear  [Q]uit: '')))))))"

definition files_search :: "('ip, 'net) libs \<Rightarrow> int \<Rightarrow> writer \<Rightarrow> fbrowse \<Rightarrow> ('a call_scheme, fbrowse) prog" where
  "files_search L aid w b =
     chk (say w (ask (nl @ str ''Search text: ''))) (\<lambda>_.
     chk (default [] rd_line) (\<lambda>q0. let q = TrimSpace q0 in
     if q = [] then ret b else
     chk (files_Search (l_like L) aid q) (\<lambda>res.
       ret (b\<lparr>fb_listed := nonempty res, fb_page := 0, fb_header := str ''search '' @ l_quote L q @ str '' '' @ dash @ str '' '' @
         itoa (int (length res)) @ str '' hit(s)''\<rparr>))))"

definition files_by_user :: "int \<Rightarrow> writer \<Rightarrow> fbrowse \<Rightarrow> ('a call_scheme, fbrowse) prog" where
  "files_by_user aid w b =
     chk (say w (ask (nl @ str ''Filter by uploader handle: ''))) (\<lambda>_.
     chk (default [] rd_line) (\<lambda>h.
     att (users_ByHandle (TrimSpace h)) (\<lambda>r. case r of
       Inl e \<Rightarrow> chk (say w [CColorLine scr_Red (str ''no such user'')]) (\<lambda>_. ret b)
     | Inr target \<Rightarrow> chk (files_ByUploader aid (U_ID target)) (\<lambda>res.
         ret (b\<lparr>fb_listed := nonempty res, fb_page := 0, fb_header := str ''by '' @ U_Handle target @ str '' '' @ dash @ str '' '' @
           itoa (int (length res)) @ str '' file(s)''\<rparr>)))))"

definition files_delete :: "('ip, 'net) libs \<Rightarrow> User \<Rightarrow> writer \<Rightarrow> fbrowse \<Rightarrow> FileEntry list \<Rightarrow> ('a call_scheme, fbrowse) prog" where
  "files_delete L u w b files =
     chk (say w (ask (nl @ str ''Delete file # (blank to cancel): ''))) (\<lambda>_.
     chk (default [] rd_line) (\<lambda>ks. case pick (TrimSpace ks) files of
       None \<Rightarrow> ret b
     | Some f \<Rightarrow>
         if Fe_UploaderID f = U_ID u \<or> U_AccessLevel u \<ge> CoSysOpLevel then
           att (files_Delete (Fe_ID f)) (\<lambda>r. case r of
             Inl e \<Rightarrow> chk (say w [CColorLine scr_Red (str ''delete failed'')]) (\<lambda>_. ret b)
           | Inr _ \<Rightarrow> chk (Activity L (str ''delete-file'') (Fe_Filename f)) (\<lambda>_. ret (f_unlisted b)))
         else chk (say w [CColorLine scr_Red (str ''you can only delete your own files'')]) (\<lambda>_.
           chk (ignore rd_key) (\<lambda>_. ret b))))"

definition files_cmd :: "('ip, 'net) libs \<Rightarrow> User \<Rightarrow> int \<Rightarrow> writer \<Rightarrow> fbrowse \<Rightarrow> FileEntry list \<Rightarrow> bytes
    \<Rightarrow> ('a call_scheme, unit + fbrowse) prog" where
  "files_cmd L u aid w b files inp =
     (if is_quit inp then leave ()
      else if inp = [62] then again (b\<lparr>fb_page := fb_page b + 1\<rparr>)
      else if inp = [60] then again (b\<lparr>fb_page := fb_page b - 1\<rparr>)
      else if EqualFold1 inp 117 then chk (uploadFile L u aid) (\<lambda>_. again (f_unlisted b))
      else if EqualFold1 inp 99 then again (f_unlisted b)
      else if EqualFold1 inp 114 then again (f_unlisted (b\<lparr>fb_sort := nextFileSort (fb_sort b)\<rparr>))
      else if EqualFold1 inp 115 then chk (files_search L aid w b) again
      else if EqualFold1 inp 98 then chk (files_by_user aid w b) again
      else if EqualFold1 inp 107 then chk (files_delete L u w b files) again
      else (case pick inp files of
          Some f \<Rightarrow> chk (downloadFile L f) (\<lambda>_. again b)
        | None \<Rightarrow> again b))"

definition files_round :: "('ip, 'net) libs \<Rightarrow> User \<Rightarrow> int \<times> area_row \<Rightarrow> fbrowse \<Rightarrow> ('a call_scheme, unit + fbrowse) prog" where
  "files_round L u area b =
     chk scr_New (\<lambda>w.
     chk (case fb_listed b of Some l \<Rightarrow> ret l | None \<Rightarrow> files_ListSorted (fst area) (fb_sort b)) (\<lambda>files.
     case pageWindow (int (length files)) (fb_page b) of (lo, hi, pages) \<Rightarrow>
     let b = b\<lparr>fb_page := clampPage (fb_page b) pages\<rparr> in
     chk (files_screen w (a_name (snd area)) b files lo hi pages) (\<lambda>_.
     chk rd_line (\<lambda>inp. files_cmd L u (fst area) w b files (TrimSpace inp)))))"

definition browseFileArea :: "('ip, 'net) libs \<Rightarrow> User \<Rightarrow> int \<times> area_row \<Rightarrow> ('a call_scheme, unit) prog" where
  "browseFileArea L u area =
     for_loop (files_round L u area) \<lparr>fb_sort = str ''newest'', fb_page = 0, fb_listed = None, fb_header = []\<rparr>"

section \<open>The list of areas\<close>

definition newFileArea :: "('ip, 'net) libs \<Rightarrow> User \<Rightarrow> bytes \<Rightarrow> ('a call_scheme, unit) prog" where
  "newFileArea L u sysopPass =
     chk scr_New (\<lambda>w.
     if U_AccessLevel u < CoSysOpLevel then ret () else
     chk (sysop_gate L w sysopPass (str ''filearea-create-denied'')) (\<lambda>ok.
     if \<not> ok then ret () else
     chk (prompt w (str ''New file area name (blank to cancel): '')) (\<lambda>name.
     if name = [] then ret () else
     chk (prompt w (str ''Min access level [0]: '')) (\<lambda>v.
     att (fareas_Create name (min_level v)) (\<lambda>r. case r of
       Inl e \<Rightarrow> chk (say w [CColorLine scr_Red (str ''could not create area: '' @ l_err L e)]) (\<lambda>_. ignore rd_key)
     | Inr _ \<Rightarrow> chk (Activity L (str ''filearea-create'') name) (\<lambda>_.
         chk (say w [CColorLine scr_Cyan (str ''File area created.'')]) (\<lambda>_. ignore rd_key)))))))"

definition farea_line :: "writer \<Rightarrow> int \<times> (int \<times> area_row) \<Rightarrow> ('a call_scheme, unit) prog" where
  "farea_line w x = (case x of (i, (aid, a)) \<Rightarrow>
     say w [CColor scr_Yellow, CPrint (str ''  '' @ itoa i @ str '') ''), CColor scr_White, CSafe (a_name a), CReset, CPrint nl])"

definition fareas_round :: "('ip, 'net) libs \<Rightarrow> User \<Rightarrow> bytes \<Rightarrow> unit \<Rightarrow> ('a call_scheme, unit + unit) prog" where
  "fareas_round L u sysopPass _ = (let isSysOp = (U_AccessLevel u \<ge> CoSysOpLevel) in
     chk scr_New (\<lambda>w.
     chk (say w [CClear, CColorLine scr_Cyan (str ''File Library''), CColorLine scr_Cyan (str ''------------'')]) (\<lambda>_.
     chk (fareas_Visible (U_AccessLevel u)) (\<lambda>areas.
     chk (for_each (farea_line w) (numbered areas)) (\<lambda>_.
     chk (say w (ask (nl @ (if isSysOp then str ''Area # ([N]ew area, [Q]uit): '' else str ''Area # (or [Q]uit): '')))) (\<lambda>_.
     chk rd_line (\<lambda>inp. let inp = TrimSpace inp in
       if is_quit inp then leave ()
       else if isSysOp \<and> EqualFold1 inp 110 then chk (newFileArea L u sysopPass) (\<lambda>_. again ())
       else (case pick inp areas of
           Some a \<Rightarrow> chk (browseFileArea L u a) (\<lambda>_. again ())
         | None \<Rightarrow> again ()))))))))"

definition RunFiles :: "('ip, 'net) libs \<Rightarrow> User \<Rightarrow> bytes \<Rightarrow> ('a call_scheme, unit) prog" where
  "RunFiles L u sysopPass = chk newHandleCache (\<lambda>_. for_loop (fareas_round L u sysopPass) ())"

section \<open>What the file screens keep\<close>

lemma ReadByte_in: "suffix (s_in (snd (ReadByte s))) (s_in s)"
  using reads_ReadByte [of s] by (cases "ReadByte s") (auto simp: reads_def)

lemma raw_skip_in: "suffix (s_in (raw_skip n s)) (s_in s)"
proof (induction n arbitrary: s)
  case (Suc n)
  then show ?case using ReadByte_in [of s] Suc [of "resetIdle (snd (ReadByte s))"]
    by (auto split: prod.splits sum.splits intro: suffix_order.trans)
qed simp

context call_frame
begin

lemma steps_raw: "steps callR (on_raw m)"
  unfolding on_raw_def
proof (rule steps_on_sess)
  fix ss r ss'
  assume "(case m (raw_wire ss) of (r, x) \<Rightarrow>
     let s1 = sess_write (x_out x) (raw_skip (length (raw_in ss) - length (x_in x)) ss) in
     (r, if r = Inl ErrEOF then snd (ReadByte s1) else s1)) = (r, ss')"
  then show "suffix (s_in ss') (s_in ss)"
    using suffix_order.trans [OF ReadByte_in] raw_skip_in by (auto simp: Let_def split: prod.splits if_splits)
qed

end

lemma transfer_steps:
  "steps (mem.callR v priv) (downloadFile L f)" "steps (mem.callR v priv) (upload_content L w k)"
  unfolding downloadFile_def upload_content_def paste_base64_def
  by (intro member_rules mem.steps_raw)+

lemma uploadFile_steps: "steps (mem.callR (U_ID u) priv) (uploadFile L u a)"
  unfolding uploadFile_def by (intro member_rules transfer_steps)

lemma file_screen_steps:
  "steps (mem.callR v priv) (file_line w x)" "steps (mem.callR v priv) (farea_line w y)"
  "steps (mem.callR v priv) (files_search L a w b)" "steps (mem.callR v priv) (files_by_user a w b)"
  unfolding file_line_def farea_line_def files_search_def files_by_user_def Let_def
  by (intro member_rules)+

lemma files_screen_steps: "steps (mem.callR v priv) (files_screen w n b fs lo hi pg)"
  unfolding files_screen_def by (intro member_rules file_screen_steps)

lemma newFileArea_steps: "priv \<longleftrightarrow> CoSysOpLevel \<le> U_AccessLevel u \<Longrightarrow> steps (mem.callR (U_ID u) priv) (newFileArea L u sp)"
proof (cases "U_AccessLevel u < CoSysOpLevel")
  case True
  then show ?thesis unfolding newFileArea_def by (simp add: member_rules)
next
  case False
  moreover assume "priv \<longleftrightarrow> CoSysOpLevel \<le> U_AccessLevel u"
  ultimately have priv by simp
  then show ?thesis unfolding newFileArea_def
    by (intro member_rules board_screen_steps create_priv_steps [THEN mem.steps_store])
qed

interpretation flist: listing f_uploader d_file Fe_ID Fe_UploaderID
  by unfold_locales (use stmt_owners db_inv_file in auto)

lemma listFiles_known:
  assumes "\<And>d. set (sel d) \<subseteq> set (t_rows (d_file d))"
  shows "mem.triple u priv (\<lambda>s. db_inv (st_db s)) (listFiles sel) flist.known_all"
proof (rule flist.query_known)
  show "steps (mem.callR u priv) (listFiles sel)" unfolding listFiles_def by (intro mem.db_rules [THEN mem.steps_store])
  fix s :: "'a call_scheme" and fs s'
  assume "listFiles sel s = (Inr fs, s')"
  from query_InrD [OF this [unfolded listFiles_def]]
  show "st_db s' = st_db s \<and> (\<forall>f \<in> set fs. \<exists>r. (Fe_ID f, r) \<in> set (t_rows (d_file (st_db s))) \<and> Fe_UploaderID f = f_uploader r)"
    using assms [of "st_db s"] by (fastforce simp: files_scan_def)
qed

lemma known_files:
  "mem.triple u priv (\<lambda>s. db_inv (st_db s)) (files_ListSorted a b) flist.known_all"
  "mem.triple u priv (\<lambda>s. db_inv (st_db s)) (files_Search f a q) flist.known_all"
  "mem.triple u priv (\<lambda>s. db_inv (st_db s)) (files_ByUploader a v) flist.known_all"
  unfolding files_ListSorted_def files_Search_def files_ByUploader_def Let_def
  by (rule listFiles_known; auto simp: tbl_select_def file_order_def)+

definition files_of :: "fbrowse \<Rightarrow> FileEntry list" where
  "files_of b = (case fb_listed b of None \<Rightarrow> [] | Some l \<Rightarrow> l)"

abbreviation files_post :: "unit + fbrowse \<Rightarrow> 'a call_scheme \<Rightarrow> bool" where
  "files_post r s \<equiv> (case r of Inl _ \<Rightarrow> True | Inr b \<Rightarrow> flist.known_all (files_of b) s)"

lemma files_of_simps [simp]:
  "files_of (b\<lparr>fb_page := p\<rparr>) = files_of b" "files_of (b\<lparr>fb_sort := v\<rparr>) = files_of b"
  "files_of (b\<lparr>fb_header := h\<rparr>) = files_of b" "files_of (f_unlisted b) = []"
  "files_of (b\<lparr>fb_listed := nonempty l\<rparr>) = l"
  by (simp_all add: files_of_def f_unlisted_def nonempty_def)

lemma files_search_known:
  "mem.triple u priv (flist.known_all (files_of b)) (files_search L a w b) (\<lambda>b. flist.known_all (files_of b))"
  "mem.triple u priv (flist.known_all (files_of b)) (files_by_user a w b) (\<lambda>b. flist.known_all (files_of b))"
  unfolding files_search_def files_by_user_def Let_def
  by (intro flist.relist known_files mem.triple_seq [OF _ flist.stable_known_all] mem.triple_try [OF _ flist.stable_known_all]
      member_rules mem.triple_if mem.triple_sum mem.triple_ret; simp)+

lemma files_delete_known:
  assumes "priv \<longleftrightarrow> CoSysOpLevel \<le> U_AccessLevel u"
  shows "mem.triple (U_ID u) priv (flist.known_all (files @ files_of b)) (files_delete L u w b files) (\<lambda>b. flist.known_all (files_of b))"
proof -
  let ?P = "flist.known_all (files @ files_of b)"
  have old: "flist.known_all (files_of b) s" "flist.known_all [] s" if "?P s" for s
    using that by (simp_all add: flist.known_all_def)
  have del: "mem.triple (U_ID u) priv ?P (files_Delete (Fe_ID f)) (\<lambda>_ _. True)"
    if "f \<in> set files" "Fe_UploaderID f = U_ID u \<or> U_AccessLevel u \<ge> CoSysOpLevel" for f
    by (rule mem.triple_weaken [OF files_Delete_member]) (use assms that in \<open>auto dest: flist.known_owner [where x = f]\<close>)
  show ?thesis
    unfolding files_delete_def
    by (intro mem.triple_seq [OF _ flist.stable_known_all] member_rules mem.triple_pick mem.triple_cond
        mem.triple_do [OF del flist.stable_known_all] mem.triple_sum mem.triple_ret) (simp_all add: old)
qed

lemma files_cmd_triple:
  assumes "priv \<longleftrightarrow> CoSysOpLevel \<le> U_AccessLevel u"
  shows "mem.triple (U_ID u) priv (flist.known_all (files @ files_of b)) (files_cmd L u a w b files inp) files_post"
proof -
  let ?P = "flist.known_all (files @ files_of b)"
  have old: "flist.known_all (files_of b) s" "flist.known_all [] s" if "?P s" for s
    using that by (simp_all add: flist.known_all_def)
  have re: "mem.triple (U_ID u) priv ?P (chk m again) files_post"
    if "mem.triple (U_ID u) priv Q m (\<lambda>b. flist.known_all (files_of b))" "\<And>s. ?P s \<Longrightarrow> Q s" for m Q
    by (rule mem.triple_chk [OF mem.triple_weaken [OF that]]) (auto intro!: flist.triple_again)
  have quit: "mem.triple (U_ID u) priv ?P (leave ()) files_post"
    by (simp add: leave_def mem.triple_ret)
  show ?thesis
    unfolding files_cmd_def
    by (intro mem.triple_if quit re [OF files_search_known(1)] re [OF files_search_known(2)] re [OF files_delete_known [OF assms]]
        mem.triple_option mem.triple_seq [OF uploadFile_steps flist.stable_known_all]
        mem.triple_seq [OF transfer_steps(1) flist.stable_known_all] flist.triple_again) (simp_all add: old)
qed

lemma files_round_triple:
  assumes "priv \<longleftrightarrow> CoSysOpLevel \<le> U_AccessLevel u"
  shows "mem.triple (U_ID u) priv (flist.known_all (files_of b)) (files_round L u area b) files_post"
proof -
  let ?fetch = "case fb_listed b of Some l \<Rightarrow> ret l | None \<Rightarrow> files_ListSorted (fst area) (fb_sort b)"
  have "mem.triple (U_ID u) priv (flist.known_all (files_of b)) ?fetch flist.known_all"
    by (cases "fb_listed b") (auto simp: files_of_def flist.known_all_def intro!: mem.triple_ret mem.triple_weaken [OF known_files(1)])
  then have fetch: "mem.triple (U_ID u) priv (flist.known_all (files_of b)) ?fetch (\<lambda>fs. flist.known_all (fs @ files_of b))"
    by (rule mem.triple_frame) (simp_all add: flist.stable_known_all flist.known_append)
  show ?thesis
    unfolding files_round_def Let_def
    by (intro mem.triple_seq [OF mem.steps_screen(1) flist.stable_known_all mem.triple_chk [OF fetch]] mem.triple_prod
        mem.triple_seq [OF _ flist.stable_known_all] files_screen_steps member_rules
        mem.triple_weaken [OF files_cmd_triple [OF assms]]) simp
qed

text \<open>Every round reads a line before it goes round again.\<close>

lemma files_delete_io: "steps io.callR (files_delete L u w b fs)"
  unfolding files_delete_def by (intro io_rules)

lemma files_cmd_io: "steps io.callR (files_cmd L u a w b fs inp)"
  unfolding files_cmd_def
  by (intro io_rules uploadFile_steps [THEN io_mem] file_screen_steps [THEN io_mem] files_delete_io transfer_steps [THEN io_mem])

lemma browseFileArea_io: "steps io.callR (browseFileArea L u area)"
  unfolding browseFileArea_def files_round_def Let_def
  by (intro io_rules files_cmd_io file_screen_steps [THEN io_mem] files_screen_steps [THEN io_mem])

lemma file_loops: "eats (files_round L u area)" "eats (fareas_round L u sp)"
  unfolding eats_def files_round_def fareas_round_def Let_def
  by (intro allI eat_rules io_rules files_cmd_io browseFileArea_io file_screen_steps [THEN io_mem] files_screen_steps [THEN io_mem]
      newFileArea_steps [OF refl, THEN io_mem])+

lemma browseFileArea_steps:
  assumes "priv \<longleftrightarrow> CoSysOpLevel \<le> U_AccessLevel u"
  shows "steps (mem.callR (U_ID u) priv) (browseFileArea L u area)"
proof (rule mem_steps_triple [OF _ browseFileArea_io])
  show "mem.triple (U_ID u) priv (\<lambda>s. db_inv (st_db s)) (browseFileArea L u area) (\<lambda>_ _. True)"
    unfolding browseFileArea_def
    by (rule mem.triple_weaken [OF mem.triple_loop [where I = "\<lambda>b. flist.known_all (files_of b)", OF files_round_triple [OF assms]]])
       (simp add: files_of_def flist.known_all_def)
qed

lemma RunFiles_steps:
  assumes "priv \<longleftrightarrow> CoSysOpLevel \<le> U_AccessLevel u"
  shows "steps (mem.callR (U_ID u) priv) (RunFiles L u sp)"
  unfolding RunFiles_def fareas_round_def Let_def
  by (intro member_rules file_screen_steps newFileArea_steps [OF assms] browseFileArea_steps [OF assms])

end
