(* ===== verification/MenuProfile.thy ===== *)
theory MenuProfile
  imports MenuFiles
begin

text \<open>
  A member's own account: \<open>menu/profile.go\<close> (SSH keys, password, palette, block list) and the
  second factor of \<open>menu/login.go\<close> (password, or the one-time token on a first login).
  \<open>u\<close> is a pointer in the sources; here a function that changes the fields of \<open>u\<close> returns the
  new value.
\<close>

section \<open>Passwords\<close>

definition minPasswordLen :: nat where "minPasswordLen = 8"

text \<open>\<open>ok, _ := VerifyPassword(hash, pw)\<close> and \<open>HashPassword(pw)\<close> with the program's KDF.\<close>

definition verify_pw :: "bytes \<Rightarrow> bytes \<Rightarrow> ('a call_scheme, bool) prog" where
  "verify_pw hash pw s = (Inr (case VerifyPassword (st_prims s) hash pw of Inl e \<Rightarrow> False | Inr ok \<Rightarrow> ok), s)"

definition hash_pw :: "bytes \<Rightarrow> ('a call_scheme, bytes) prog" where
  "hash_pw pw s = HashPassword (st_prims s) pw s"

definition changePassword :: "('ip, 'net) libs \<Rightarrow> User \<Rightarrow> writer \<Rightarrow> ('a call_scheme, User) prog" where
  "changePassword L u w =
     chk (say w (ask (nl @ str ''Current password: ''))) (\<lambda>_.
     chk rd_password (\<lambda>cur.
     chk (verify_pw (U_PasswordHash u) cur) (\<lambda>ok.
     if \<not> ok then
       chk (say w [CColorLine scr_Red (str ''wrong password'')]) (\<lambda>_. chk (ignore rd_key) (\<lambda>_. ret u))
     else
     chk (say w (ask (str ''New password (min 8): ''))) (\<lambda>_.
     chk rd_password (\<lambda>p1.
     chk (say w (ask (str ''Confirm: ''))) (\<lambda>_.
     chk rd_password (\<lambda>p2.
     if p1 \<noteq> p2 \<or> length p1 < minPasswordLen then
       chk (say w [CColorLine scr_Red (str ''passwords didn'' @ apos @ str ''t match or were too short'')]) (\<lambda>_.
       chk (ignore rd_key) (\<lambda>_. ret u))
     else
     chk (hash_pw p1) (\<lambda>hash.
     chk (users_SetPassword (U_ID u) hash) (\<lambda>_.
     chk (Activity L (str ''password-change'') []) (\<lambda>_.
     chk (say w [CColorLine scr_Cyan (str ''Password changed.'')]) (\<lambda>_.
     chk (ignore rd_key) (\<lambda>_. ret (u\<lparr>U_PasswordHash := hash\<rparr>)))))))))))))"

section \<open>The block list\<close>

text \<open>Print the list and collect the handles shown.\<close>

fun block_lines :: "writer \<Rightarrow> int \<Rightarrow> int list \<Rightarrow> ('a call_scheme, bytes list) prog" where
  "block_lines w i [] = ret []"
| "block_lines w i (x # xs) = att (users_ByID x) (\<lambda>r. let h = (case r of Inl e \<Rightarrow> str ''unknown'' | Inr bu \<Rightarrow> U_Handle bu) in
     chk (say w [CPrint (str ''  '' @ itoa i @ str '') '' @ h @ nl)]) (\<lambda>_.
     chk (block_lines w (i + 1) xs) (\<lambda>hs. ret (h # hs))))"

definition block_add :: "('ip, 'net) libs \<Rightarrow> User \<Rightarrow> writer \<Rightarrow> ('a call_scheme, unit) prog" where
  "block_add L u w =
     chk (say w [CPrint (nl @ str ''Handle to block: '')]) (\<lambda>_.
     chk rd_line (\<lambda>inp.
     att (users_ByHandle (TrimSpace inp)) (\<lambda>r. case r of
       Inl e \<Rightarrow> say w [CColorLine scr_Red (str ''  [x] no such user'')]
     | Inr target \<Rightarrow>
         if U_ID target = U_ID u then say w [CColorLine scr_Red (str ''  [x] you can'' @ apos @ str ''t block yourself'')]
         else att (blocks_Block (U_ID u) (U_ID target)) (\<lambda>r. case r of
             Inl e \<Rightarrow> say w [CColorLine scr_Red (str ''  [x] could not block'')]
           | Inr _ \<Rightarrow> chk (Activity L (str ''block-user'') (U_Handle target)) (\<lambda>_.
               say w [CColorLine scr_Cyan (str ''  [ok] blocked'')])))))"

definition block_remove :: "('ip, 'net) libs \<Rightarrow> User \<Rightarrow> writer \<Rightarrow> int list \<Rightarrow> bytes list \<Rightarrow> ('a call_scheme, unit) prog" where
  "block_remove L u w ids handles =
     (if ids = [] then ret () else
     chk (say w [CPrint (nl @ str ''Number to unblock (or blank to cancel): '')]) (\<lambda>_.
     chk rd_line (\<lambda>inp. case pick (TrimSpace inp) (zip ids handles) of
       None \<Rightarrow> ret ()
     | Some (i, h) \<Rightarrow> att (blocks_Unblock (U_ID u) i) (\<lambda>r. case r of
           Inl e \<Rightarrow> say w [CColorLine scr_Red (str ''  [x] could not unblock'')]
         | Inr _ \<Rightarrow> chk (Activity L (str ''unblock-user'') h) (\<lambda>_.
             say w [CColorLine scr_Cyan (str ''  [ok] unblocked'')])))))"

definition blocks_round :: "('ip, 'net) libs \<Rightarrow> User \<Rightarrow> unit \<Rightarrow> ('a call_scheme, unit + unit) prog" where
  "blocks_round L u _ =
     chk scr_New (\<lambda>w.
     chk (say w [CClear, CColorLine scr_Cyan (str ''Blocked Users''), CColorLine scr_Cyan (str ''-------------'')]) (\<lambda>_.
     chk (blocks_List (U_ID u)) (\<lambda>ids.
     chk (if ids = [] then say w [CLine (str ''  (you haven'' @ apos @ str ''t blocked anyone)'')] else ret ()) (\<lambda>_.
     chk (block_lines w 1 ids) (\<lambda>handles.
     chk (say w (ask (nl @ str ''[A]dd by handle  [U]nblock #  [Q]uit: ''))) (\<lambda>_.
     chk rd_key (\<lambda>key. let k = lower_byte key in
       if k = 97 then chk (block_add L u w) again
       else if k = 117 then chk (block_remove L u w ids handles) again
       else if k = 113 \<or> k = 120 then leave ()
       else again ())))))))"

definition manageBlocks :: "('ip, 'net) libs \<Rightarrow> User \<Rightarrow> ('a call_scheme, unit) prog" where
  "manageBlocks L u = for_loop (blocks_round L u) ()"

section \<open>The profile\<close>

definition profile_screen :: "User \<Rightarrow> writer \<Rightarrow> (int \<times> key_row) list \<Rightarrow> ('a call_scheme, unit) prog" where
  "profile_screen stats w active =
     chk (if active = [] then say w [CLine (str ''  (none '' @ dash @ str '' add one before you lose access!)'')] else ret ()) (\<lambda>_.
     chk (for_each (\<lambda>(i, (kid, k)). say w [CPrint (str ''  '' @ itoa i @ str '') '' @ k_fingerprint k @ str ''  '' @
         k_comment k @ nl)]) (numbered active)) (\<lambda>_.
     say w ([CPrint (str ''  Colorblind-friendly colors: '' @ (if U_Colorblind stats then str ''on'' else str ''off'') @ nl)] @
       ask (nl @ str ''[A]dd key  [R]evoke key  [P]assword  [C]olorblind  [B]locked users  [Q]uit: ''))))"

definition profile_colorblind :: "('ip, 'net) libs \<Rightarrow> User \<Rightarrow> User \<Rightarrow> ('a call_scheme, User) prog" where
  "profile_colorblind L stats u = (let on = (\<not> U_Colorblind stats) in
     chk (users_SetColorblind (U_ID u) on) (\<lambda>_.
     chk (on_sess (\<lambda>ss. (Inr (), SetColorblind on ss))) (\<lambda>_.
     chk (Activity L (str ''colorblind-toggle'') (if U_Colorblind stats then str ''on'' else str ''off'')) (\<lambda>_.
     ret (u\<lparr>U_Colorblind := on\<rparr>)))))"

definition profile_add_key :: "('ip, 'net) libs \<Rightarrow> User \<Rightarrow> writer \<Rightarrow> ('a call_scheme, unit) prog" where
  "profile_add_key L u w =
     chk (say w [CPrint (nl @ str ''Paste public key: '')]) (\<lambda>_.
     chk rd_line (\<lambda>line.
     att (keys_Add (l_ssh L) (U_ID u) (TrimSpace line)) (\<lambda>r. case r of
       Inl e \<Rightarrow> say w [CColorLine scr_Red (if e = ErrKeyTaken then str ''  [x] that key is already registered to an account''
           else str ''  [x] invalid SSH public key'')]
     | Inr _ \<Rightarrow> chk (say w [CColorLine scr_Cyan (str ''  [ok] key added'')]) (\<lambda>_. Activity L (str ''key-add'') []))))"

definition profile_revoke :: "('ip, 'net) libs \<Rightarrow> writer \<Rightarrow> (int \<times> key_row) list \<Rightarrow> ('a call_scheme, unit) prog" where
  "profile_revoke L w active =
     (if active = [] then ret () else
     chk (say w [CPrint (nl @ str ''Number to revoke (or blank to cancel): '')]) (\<lambda>_.
     chk rd_line (\<lambda>inp. case pick (TrimSpace inp) active of
       None \<Rightarrow> say w [CColorLine scr_Red (str ''  [x] no such key'')]
     | Some x \<Rightarrow> att (keys_Revoke (fst x)) (\<lambda>r. case r of
           Inl e \<Rightarrow> say w [CColorLine scr_Red (str ''  [x] could not revoke'')]
         | Inr _ \<Rightarrow> chk (say w [CColorLine scr_Cyan (str ''  [ok] key revoked'')]) (\<lambda>_.
             Activity L (str ''key-revoke'') (k_fingerprint (snd x)))))))"

definition profile_cmd :: "('ip, 'net) libs \<Rightarrow> User \<Rightarrow> User \<Rightarrow> writer \<Rightarrow> (int \<times> key_row) list \<Rightarrow> byte
    \<Rightarrow> ('a call_scheme, User + User) prog" where
  "profile_cmd L u stats w active k =
     (if k = 99 then chk (profile_colorblind L stats u) again
      else if k = 112 then chk (changePassword L u w) again
      else if k = 98 then chk (manageBlocks L u) (\<lambda>_. again u)
      else if k = 97 then chk (profile_add_key L u w) (\<lambda>_. again u)
      else if k = 114 then chk (profile_revoke L w active) (\<lambda>_. again u)
      else if k = 113 \<or> k = 120 then leave u
      else again u)"

definition profile_round :: "('ip, 'net) libs \<Rightarrow> User \<Rightarrow> ('a call_scheme, User + User) prog" where
  "profile_round L u =
     chk scr_New (\<lambda>w.
     chk (say w [CClear]) (\<lambda>_.
     chk (default u (users_ByID (U_ID u))) (\<lambda>stats.
     chk (say w [CColorLine scr_Cyan (str ''Your Stats''), CColorLine scr_Cyan (str ''----------''),
       CPrint (str ''  Handle: '' @ U_Handle stats @ str ''   Access level: '' @ itoa (U_AccessLevel stats) @ nl),
       CPrint (str ''  Points: '' @ itoa (U_Points stats) @ str ''   Member since: '' @ fmt_date (U_CreatedAt stats) @ nl @ nl),
       CColorLine scr_Cyan (str ''Your SSH Keys''), CColorLine scr_Cyan (str ''-------------'')]) (\<lambda>_.
     chk (keys_Active (U_ID u)) (\<lambda>active.
     chk (profile_screen stats w active) (\<lambda>_.
     chk rd_key (\<lambda>key. profile_cmd L u stats w active (lower_byte key))))))))"

definition RunProfile :: "('ip, 'net) libs \<Rightarrow> User \<Rightarrow> ('a call_scheme, User) prog" where
  "RunProfile L u = for_loop (profile_round L) u"

section \<open>The second factor\<close>

text \<open>The result is \<open>Some u\<close> where the sources return \<open>u, true\<close>. The backoff between attempts
  only delays the reply.\<close>

definition genericLoginFail :: bytes where "genericLoginFail = str ''login failed''"

definition onboard_password :: "('ip, 'net) libs \<Rightarrow> writer \<Rightarrow> User \<Rightarrow> bytes \<Rightarrow> bytes \<Rightarrow> ('a call_scheme, User option) prog" where
  "onboard_password L w u p1 p2 =
     (if p1 \<noteq> p2 \<or> length p1 < minPasswordLen then
        chk (say w [CColorLine scr_Red (str ''passwords did not match or were too short'')]) (\<lambda>_. ret None)
      else att (hash_pw p1) (\<lambda>r. case r of
        Inl e \<Rightarrow> chk (say w [CColorLine scr_Red (str ''could not set password'')]) (\<lambda>_. ret None)
      | Inr hash \<Rightarrow> att (users_SetPassword (U_ID u) hash) (\<lambda>r. case r of
          Inl e \<Rightarrow> chk (say w [CColorLine scr_Red (str ''could not set password'')]) (\<lambda>_. ret None)
        | Inr _ \<Rightarrow>
            chk time_Now (\<lambda>now.
            chk (ignore (users_TouchLogin (U_ID u) now)) (\<lambda>_.
            chk (Activity L (str ''onboarded'') []) (\<lambda>_.
            chk (say w [CColorLine scr_Cyan (str ''Password set. Welcome aboard!'')]) (\<lambda>_.
            ret (Some (u\<lparr>U_PasswordHash := hash\<rparr>)))))))))"

definition onboard_new :: "('ip, 'net) libs \<Rightarrow> writer \<Rightarrow> User \<Rightarrow> ('a call_scheme, User option) prog" where
  "onboard_new L w u =
     chk (say w ([CPrint nl, CLine (str ''Set your password (min 8 chars). It is never sent in the clear again.'')] @
       ask (str ''New password: ''))) (\<lambda>_.
     att rd_password (\<lambda>r. case r of
       Inl e \<Rightarrow> ret None
     | Inr p1 \<Rightarrow> chk (say w (ask (str ''Confirm password: ''))) (\<lambda>_.
         att rd_password (\<lambda>r. case r of
           Inl e \<Rightarrow> ret None
         | Inr p2 \<Rightarrow> onboard_password L w u p1 p2))))"

definition onboard_token :: "('ip, 'net) libs \<Rightarrow> writer \<Rightarrow> User \<Rightarrow> ('a call_scheme, User option) prog" where
  "onboard_token L w u = att rd_line (\<lambda>r. case r of
     Inl e \<Rightarrow> ret None
   | Inr tok \<Rightarrow> att (tokens_Redeem (U_ID u) (TrimSpace tok)) (\<lambda>r. case r of
       Inl e \<Rightarrow> chk (say w [CColorLine scr_Red (str ''invalid or expired token'')]) (\<lambda>_.
         chk (Activity L (str ''onboard-failed'') (str ''bad token'')) (\<lambda>_. ret None))
     | Inr _ \<Rightarrow> onboard_new L w u))"

definition onboard :: "('ip, 'net) libs \<Rightarrow> writer \<Rightarrow> User \<Rightarrow> ('a call_scheme, User option) prog" where
  "onboard L w u =
     chk (say w ([CClear, CColorLine scr_Cyan (str ''Welcome, '' @ U_Handle u @ str '' '' @ dash @ str '' first login.''),
       CLine (str ''Enter the one-time token your SysOp sent you.'')] @ ask (str ''Token: ''))) (\<lambda>_.
     onboard_token L w u)"

definition record_login :: "User \<Rightarrow> int \<Rightarrow> ('a call_scheme, bool) prog" where
  "record_login u now s = default False (users_RecordLogin (U_ID u) (s_ip (c_sess s)) now) s"

definition login_ok :: "('ip, 'net) libs \<Rightarrow> User \<Rightarrow> ('a call_scheme, User option) prog" where
  "login_ok L u =
     chk time_Now (\<lambda>now.
     chk (record_login u now) (\<lambda>flagged.
     chk (Activity L (str ''login'') (if flagged then str ''ok (rapid-ip-change flagged)'' else str ''ok'')) (\<lambda>_.
     ret (Some u))))"

fun verify :: "nat \<Rightarrow> ('ip, 'net) libs \<Rightarrow> writer \<Rightarrow> User \<Rightarrow> ('a call_scheme, User option) prog" where
  "verify 0 L w u = ret None"
| "verify (Suc left) L w u =
     chk (say w (ask (str ''Password: ''))) (\<lambda>_.
     att rd_password (\<lambda>r. case r of
       Inl e \<Rightarrow> ret None
     | Inr pw \<Rightarrow>
       chk (verify_pw (U_PasswordHash u) pw) (\<lambda>ok.
       if ok then login_ok L u else
         chk (Activity L (str ''login-failed'') []) (\<lambda>_.
         chk (say w [CColorLine scr_Red genericLoginFail]) (\<lambda>_.
         verify left L w u)))))"

definition RunLogin :: "('ip, 'net) libs \<Rightarrow> ('a call_scheme, User option) prog" where
  "RunLogin L s = chk scr_New (\<lambda>w.
     att (users_ByHandle (s_username (c_sess s))) (\<lambda>r. case r of
       Inl e \<Rightarrow> chk (say w [CColorLine scr_Red genericLoginFail]) (\<lambda>_. ret None)
     | Inr u \<Rightarrow>
         if U_Status u \<noteq> StatusApproved then chk (say w [CColorLine scr_Red genericLoginFail]) (\<lambda>_. ret None)
         else if U_PasswordHash u = [] then onboard L w u
         else verify 3 L w u)) s"

section \<open>What they keep\<close>

text \<open>The account a screen works for: its fields may change, its identity and level do not.\<close>

definition same_user :: "User \<Rightarrow> User \<Rightarrow> bool" where
  "same_user u u' \<longleftrightarrow> U_ID u' = U_ID u \<and> U_AccessLevel u' = U_AccessLevel u \<and> U_Handle u' = U_Handle u \<and> U_Status u' = U_Status u"

lemma same_user_simps [simp]: "same_user u u" "same_user u (v\<lparr>U_PasswordHash := h\<rparr>) = same_user u v"
  "same_user u (v\<lparr>U_Colorblind := c\<rparr>) = same_user u v"
  by (simp_all add: same_user_def)

lemma same_user_trans: "same_user u v \<Longrightarrow> same_user v w \<Longrightarrow> same_user u w"
  by (simp add: same_user_def)

context call_frame
begin

lemma steps_pw: "steps callR (verify_pw h p)" "steps callR (hash_pw p)"
proof -
  show "steps callR (verify_pw h p)" by (simp add: steps_def verify_pw_def call.frame_refl)
  show "steps callR (hash_pw p)"
    by (rule steps_state [OF _ hash_pw_def], rule steps_store, unfold HashPassword_def, intro db_rules)
qed

lemma steps_set: "(\<And>ss. s_in (f ss) = s_in ss) \<Longrightarrow> steps callR (on_sess (\<lambda>ss. (Inr (), f ss)))"
  by (rule steps_on_sess) auto

end

lemma block_lines_steps: "steps (mem.callR v priv) (block_lines w i ids)"
proof (induction ids arbitrary: i)
  case (Cons x xs)
  show ?case by (simp only: block_lines.simps) (intro member_rules Cons.IH)
qed (simp add: mem.call.steps_ret)

lemma block_steps: "steps (mem.callR (U_ID u) priv) (block_add L u w)" "steps (mem.callR (U_ID u) priv) (block_remove L u w ids hs)"
  unfolding block_add_def block_remove_def by (intro member_rules)+

lemma manageBlocks_steps: "steps (mem.callR (U_ID u) priv) (manageBlocks L u)"
  unfolding manageBlocks_def blocks_round_def Let_def by (intro member_rules block_lines_steps block_steps)

lemma profile_steps: "steps (mem.callR (U_ID u) priv) (profile_screen sts w ks)" "steps (mem.callR (U_ID u) priv) (profile_add_key L u w)"
  unfolding profile_screen_def profile_add_key_def by (intro member_rules)+

lemma profile_account_steps: "steps (mem.callR (U_ID u) priv) (profile_colorblind L sts u)" "steps (mem.callR (U_ID u) priv) (changePassword L u w)"
  unfolding profile_colorblind_def changePassword_def Let_def
  by (intro member_rules mem.steps_pw mem.steps_set; simp add: SetColorblind_def)+

lemma profile_yields: "yields (same_user u) (profile_colorblind L sts u)" "yields (same_user u) (changePassword L u w)"
  unfolding profile_colorblind_def changePassword_def Let_def by (intro yields_rules; simp)+

text \<open>The keys a profile lists are the caller's own.\<close>

interpretation klist: listing k_user_id d_key fst "\<lambda>x. k_user_id (snd x)"
  by unfold_locales (use stmt_owners db_inv_key in auto)

definition own_keys :: "int \<Rightarrow> (int \<times> key_row) list \<Rightarrow> bool" where
  "own_keys u ks \<longleftrightarrow> (\<forall>x \<in> set ks. k_user_id (snd x) = u)"

lemma keys_Active_known:
  "mem.triple u priv (\<lambda>s. db_inv (st_db s)) (keys_Active v) (\<lambda>ks s. own_keys v ks \<and> klist.known_all ks s)"
proof -
  have run: "st_db s' = st_db s \<and> ks = tbl_select (\<lambda>i k. k_user_id k = v \<and> k_revoked_at k = None) (d_key (st_db s))"
    if "keys_Active v s = (Inr ks, s')" for s :: "'b call_scheme" and ks s'
    using query_InrD [OF that [unfolded keys_Active_def]] by simp
  have "mem.triple u priv (\<lambda>s :: 'b call_scheme. db_inv (st_db s)) (keys_Active v) klist.known_all"
    by (rule klist.query_known [OF mem.read_rules(5)]) (auto dest!: run simp: tbl_select_def)
  moreover have "yields (own_keys v) (keys_Active v :: ('b call_scheme, _) prog)"
    by (auto simp: yields_def own_keys_def tbl_select_def dest!: run)
  ultimately show ?thesis by (rule mem.triple_also)
qed

lemma profile_revoke_known:
  assumes "own_keys u ks"
  shows "mem.triple u priv (klist.known_all ks) (profile_revoke L w ks) (\<lambda>_ _. True)"
proof -
  have del: "mem.triple u priv (klist.known_all ks) (keys_Revoke (fst x)) (\<lambda>_ _. True)" if "x \<in> set ks" for x
    by (rule mem.triple_weaken [OF keys_Revoke_member])
       (use that assms in \<open>auto dest: klist.known_owner [where x = x] simp: own_keys_def\<close>)
  show ?thesis
    unfolding profile_revoke_def
    by (intro mem.triple_if mem.triple_ret TrueI mem.triple_seq [OF _ klist.stable_known_all] mem.triple_pick
        mem.triple_do [OF del klist.stable_known_all] plain_triple member_rules)
qed

lemma profile_revoke_io: "steps io.callR (profile_revoke L w ks)"
  unfolding profile_revoke_def by (intro io_rules)

lemma profile_again: "(\<And>s. P s \<Longrightarrow> same_user u x \<and> klist.known_all ks s) \<Longrightarrow> mem.triple v priv P (again x) (\<lambda>r s. case r of
     Inl u' \<Rightarrow> same_user u u' | Inr u' \<Rightarrow> same_user u u' \<and> db_inv (st_db s))"
  unfolding again_def by (rule mem.triple_ret) (auto simp: klist.known_all_def)

lemma profile_then:
  "mem.triple v priv (klist.known_all ks) m (\<lambda>_ _. True) \<Longrightarrow> mem.triple v priv (klist.known_all ks) (chk m (\<lambda>_. again u))
    (\<lambda>r s. case r of Inl u' \<Rightarrow> same_user u u' | Inr u' \<Rightarrow> same_user u u' \<and> db_inv (st_db s))"
  "steps (mem.callR v priv) n \<Longrightarrow> yields (same_user u) n \<Longrightarrow> mem.triple v priv (klist.known_all ks) (chk n again)
    (\<lambda>r s. case r of Inl u' \<Rightarrow> same_user u u' | Inr u' \<Rightarrow> same_user u u' \<and> db_inv (st_db s))"
proof -
  assume "mem.triple v priv (klist.known_all ks) m (\<lambda>_ _. True)"
  then show "mem.triple v priv (klist.known_all ks) (chk m (\<lambda>_. again u))
      (\<lambda>r s. case r of Inl u' \<Rightarrow> same_user u u' | Inr u' \<Rightarrow> same_user u u' \<and> db_inv (st_db s))"
    by (rule klist.triple_keep) (rule subset_refl, rule profile_again, simp)
next
  assume "steps (mem.callR v priv) n" "yields (same_user u) n"
  from mem.triple_chk [OF mem.triple_yields [OF this klist.stable_known_all] profile_again]
  show "mem.triple v priv (klist.known_all ks) (chk n again)
      (\<lambda>r s. case r of Inl u' \<Rightarrow> same_user u u' | Inr u' \<Rightarrow> same_user u u' \<and> db_inv (st_db s))" .
qed

lemma profile_cmd_triple:
  assumes "own_keys (U_ID u) ks"
  shows "mem.triple (U_ID u) priv (klist.known_all ks) (profile_cmd L u sts w ks k) (\<lambda>r s. case r of
     Inl u' \<Rightarrow> same_user u u' | Inr u' \<Rightarrow> same_user u u' \<and> db_inv (st_db s))"
  unfolding profile_cmd_def
  by (intro mem.triple_if profile_then profile_account_steps profile_yields profile_revoke_known assms
      plain_triple [OF manageBlocks_steps] plain_triple [OF profile_steps(2)])
     (auto simp: leave_def intro!: mem.triple_ret profile_again)

lemma profile_io: "steps io.callR (profile_cmd L u sts w ks k)"
  unfolding profile_cmd_def
  by (intro io_rules profile_revoke_io profile_account_steps [THEN io_mem] manageBlocks_steps [THEN io_mem] profile_steps [THEN io_mem])

lemma profile_loops: "eats (profile_round L)" "eats (blocks_round L u)"
  unfolding eats_def profile_round_def blocks_round_def Let_def
  by (intro allI eat_rules io_rules profile_io profile_steps [THEN io_mem] block_lines_steps [THEN io_mem] block_steps [THEN io_mem])+

lemma profile_round_triple:
  "mem.triple (U_ID u) priv (\<lambda>s. db_inv (st_db s)) (profile_round L u) (\<lambda>r s. case r of
     Inl u' \<Rightarrow> same_user u u' | Inr u' \<Rightarrow> same_user u u' \<and> db_inv (st_db s))"
proof -
  have key: "mem.triple (U_ID u) priv (\<lambda>s. own_keys (U_ID u) ks \<and> klist.known_all ks s)
      (chk (profile_screen sts w ks) (\<lambda>_. chk rd_key (\<lambda>key. profile_cmd L u sts w ks (lower_byte key)))) (\<lambda>r s. case r of
     Inl u' \<Rightarrow> same_user u u' | Inr u' \<Rightarrow> same_user u u' \<and> db_inv (st_db s))" for ks sts w
  proof (cases "own_keys (U_ID u) ks")
    case True
    then show ?thesis
      by (simp only: simp_thms) (intro mem.triple_seq [OF _ klist.stable_known_all] profile_steps member_rules profile_cmd_triple)
  qed (simp add: mem.triple_def)
  show ?thesis
    unfolding profile_round_def
    by (intro mem.triple_seq [OF _ stable_inv] member_rules mem.triple_chk [OF keys_Active_known key])
qed

lemma RunProfile_io: "steps io.callR (RunProfile L u)"
  unfolding RunProfile_def profile_round_def Let_def
  by (intro io_rules profile_io profile_steps [THEN io_mem])

lemma RunProfile_steps: "steps (mem.callR (U_ID u) priv) (RunProfile L u)"
proof (rule mem_steps_triple [OF _ RunProfile_io])
  have "mem.triple (U_ID u) priv (\<lambda>s. same_user u v \<and> db_inv (st_db s)) (profile_round L v) (\<lambda>r s. case r of
     Inl u' \<Rightarrow> True | Inr u' \<Rightarrow> same_user u u' \<and> db_inv (st_db s))" for v
  proof (cases "same_user u v")
    case True
    then have "U_ID v = U_ID u" by (simp add: same_user_def)
    with profile_round_triple [of v priv L] True show ?thesis
      by (auto simp: mem.triple_def split: sum.splits intro: same_user_trans)
  qed (simp add: mem.triple_def)
  from mem.triple_loop [OF this] show "mem.triple (U_ID u) priv (\<lambda>s. db_inv (st_db s)) (RunProfile L u) (\<lambda>_ _. True)"
    unfolding RunProfile_def by (rule mem.triple_weaken) simp
qed

lemma profile_cmd_yields:
  assumes "same_user u v"
  shows "yields (\<lambda>r. case r of Inl y \<Rightarrow> same_user u y | Inr x' \<Rightarrow> same_user u x') (profile_cmd L v sts w ks k)"
proof -
  have 1: "yields (same_user u) (profile_colorblind L sts v)"
    by (rule yields_mono [OF profile_yields(1)]) (rule same_user_trans [OF assms])
  have 2: "yields (same_user u) (changePassword L v w)"
    by (rule yields_mono [OF profile_yields(2)]) (rule same_user_trans [OF assms])
  show ?thesis
    unfolding profile_cmd_def
    by (intro yields_case yields_chk [OF 1] yields_chk [OF 2] yields_seq) (simp_all add: yields_def again_def leave_def assms)
qed

lemma RunProfile_yields: "yields (same_user u) (RunProfile L u)"
  unfolding RunProfile_def
proof (rule yields_loop [where I = "same_user u"])
  show "yields (\<lambda>r. case r of Inl y \<Rightarrow> same_user u y | Inr x' \<Rightarrow> same_user u x') (profile_round L v)" if "same_user u v" for v
    unfolding profile_round_def by (intro yields_seq profile_cmd_yields [OF that])
qed simp

section \<open>Logging in\<close>

lemma onboard_steps: "steps (mem.callR (U_ID u) priv) (onboard L w u)"
  unfolding onboard_def onboard_token_def onboard_new_def onboard_password_def by (intro member_rules mem.steps_pw)

lemma verify_steps: "steps (mem.callR (U_ID u) priv) (verify n L w u)"
proof (induction n)
  case (Suc n)
  have rec: "steps (mem.callR (U_ID u) priv) (record_login u now)" for now
    by (rule steps_state [OF _ record_login_def]) (intro member_rules)
  show ?case by (simp only: verify.simps login_ok_def) (intro member_rules mem.steps_pw rec Suc.IH)
qed (simp only: verify.simps, rule mem.call.steps_ret)

lemma login_yields: "yields (\<lambda>r. \<forall>u'. r = Some u' \<longrightarrow> same_user u u') (onboard L w u)"
  "yields (\<lambda>r. \<forall>u'. r = Some u' \<longrightarrow> u' = u) (verify n L w u)"
proof -
  show "yields (\<lambda>r. \<forall>u'. r = Some u' \<longrightarrow> same_user u u') (onboard L w u)"
    unfolding onboard_def onboard_token_def onboard_new_def onboard_password_def by (intro yields_seq yields_case) (simp_all add: yields_def)
  show "yields (\<lambda>r. \<forall>u'. r = Some u' \<longrightarrow> u' = u) (verify n L w u)"
  proof (induction n)
    case (Suc n)
    show ?case
      by (simp only: verify.simps login_ok_def) (intro yields_seq yields_case; (rule Suc.IH | simp add: yields_def))
  qed (simp add: yields_def)
qed

text \<open>
  The second factor, in terms of what the caller typed and what the database held when the login
  began. A password: one of the first three entries verifies against the hash. A token: the first
  line is the text of a token of that account which was unused and unexpired, and which is spent
  in the end.
\<close>

definition typed_password :: "'a call_scheme \<Rightarrow> bytes \<Rightarrow> bool" where
  "typed_password s h \<longleftrightarrow> list_ex (\<lambda>pw. VerifyPassword (st_prims s) h pw = Inr True) (pw_entries 3 (c_sess s))"

definition redeemed_token :: "'a call_scheme \<Rightarrow> int \<Rightarrow> 'a call_scheme \<Rightarrow> bool" where
  "redeemed_token s i s' \<longleftrightarrow> (\<exists>tok k r r'. fst (ReadLine (c_sess s)) = Inr tok \<and>
     tbl_get (d_token (st_db s)) k = Some r \<and> tk_user_id r = i \<and> tk_used_at r = None \<and>
     tk_hash r = hashToken (st_prims s) (TrimSpace tok) \<and> e_clock s (e_step s + 2) < tk_expires_at r \<and>
     tbl_get (d_token (st_db s')) k = Some r' \<and> tk_used_at r' \<noteq> None)"

lemma Activity_runs: "\<exists>s'. Activity L a b s = (Inr (), s')"
  by (auto simp: Activity_def chk_run time_Now_def emit_def split: prod.splits)

lemma Activity_sess: "c_sess (snd (Activity L a b s)) = c_sess s"
proof -
  let ?s = "s\<lparr>e_step := e_step s + 1\<rparr>"
  have "c_sess (snd (Emit P J [slog_Emit] e l x)) = c_sess x" for P J e l and x :: "'a call_scheme"
    by (rule io.fixed_call(2) [OF io.Emit_dbR])
  then show ?thesis by (simp add: Activity_def chk_run time_Now_def emit_def split: prod.splits) (metis snd_conv)
qed

lemma say_sess: "\<exists>t. say w cs s = (Inr (), t) \<and> same_input (c_sess s) (c_sess t) \<and> st_prims t = st_prims s \<and>
    st_db t = st_db s \<and> e_step t = e_step s \<and> e_clock t = e_clock s"
  by (simp add: say_def on_sess_def same_input_write)

lemma chk_hears:
  assumes "chk m k s = (Inr y, s')" "steps io.callR m"
  obtains x t where "m s = (Inr x, t)" "hears s t" "k x t = (Inr y, s')"
  using assms by (blast elim: chk_InrE dest: io_hears)

lemma att_hears:
  assumes "att m k s = (Inr y, s')" "steps io.callR m"
  obtains r t where "m s = (r, t)" "hears s t" "k r t = (Inr y, s')"
proof (cases "m s")
  case (Pair r t)
  then show thesis using assms that [of r t] by (simp add: att_run io_hears)
qed

lemma verify_sound:
  "verify n L w u s = (Inr (Some u'), s') \<Longrightarrow> same_input ss (c_sess s) \<Longrightarrow>
   list_ex (\<lambda>pw. VerifyPassword (st_prims s) (U_PasswordHash u) pw = Inr True) (pw_entries n ss)"
proof (induction n arbitrary: s ss)
  case (Suc n)
  obtain t where t: "say w (ask (str ''Password: '')) s = (Inr (), t)" "same_input (c_sess s) (c_sess t)" "st_prims t = st_prims s"
    using say_sess by blast
  have in_t: "same_input ss (c_sess t)" using Suc.prems(2) t(2) by (rule same_input_trans)
  obtain r ss1 where r: "ReadPassword (c_sess t) = (r, ss1)" by fastforce
  let ?t2 = "t\<lparr>c_sess := ss1\<rparr>"
  have rd: "rd_password t = (r, ?t2)" by (simp add: rd_password_def on_sess_def r)
  obtain ss2 where ss2: "ReadPassword ss = (r, ss2)" "same_input ss2 ss1"
    using readers_out(3,4) [OF in_t] r by (cases "ReadPassword ss") auto
  from Suc.prems(1) have k: "(case r of Inl e \<Rightarrow> ret None | Inr pw \<Rightarrow> chk (verify_pw (U_PasswordHash u) pw) (\<lambda>ok.
       if ok then login_ok L u else chk (Activity L (str ''login-failed'') []) (\<lambda>_.
         chk (say w [CColorLine scr_Red genericLoginFail]) (\<lambda>_. verify n L w u)))) ?t2 = (Inr (Some u'), s')"
    by (simp add: chk_run att_run t(1) rd)
  then obtain pw where pw: "r = Inr pw" by (cases r) auto
  show ?case
  proof (cases "VerifyPassword (st_prims s) (U_PasswordHash u) pw = Inr True")
    case True
    then show ?thesis using ss2(1) pw by simp
  next
    case False
    obtain t3 where t3: "Activity L (str ''login-failed'') [] ?t2 = (Inr (), t3)" using Activity_runs by blast
    have "hears ?t2 t3" by (rule io_hears [where m = "Activity L (str ''login-failed'') []", OF _ t3]) (intro io_rules)
    then have p3: "st_prims t3 = st_prims s" using t(3) by (simp add: hears_def)
    have s3: "c_sess t3 = ss1" using Activity_sess [of L "str ''login-failed''" "[]" ?t2] t3 by simp
    obtain t4 where t4: "say w [CColorLine scr_Red genericLoginFail] t3 = (Inr (), t4)" "same_input (c_sess t3) (c_sess t4)"
      "st_prims t4 = st_prims t3" using say_sess by blast
    have "verify n L w u t4 = (Inr (Some u'), s')"
      using k pw False t(3) by (auto simp: verify_pw_def chk_run t3 t4(1) split: sum.splits if_splits)
    moreover have "same_input ss2 (c_sess t4)" using ss2(2) t4(2) s3 same_input_trans by metis
    ultimately have "list_ex (\<lambda>pw. VerifyPassword (st_prims t4) (U_PasswordHash u) pw = Inr True) (pw_entries n ss2)" by (rule Suc.IH)
    then show ?thesis using ss2(1) pw t4(3) p3 by simp
  qed
qed simp

text \<open>Setting the first password leaves the tokens alone.\<close>

interpretation tok: call_frame "\<lambda>d d'. d_token d' = d_token d"
  by unfold_locales (auto simp: ins_slog_def split: if_splits)

lemma onboard_new_steps: "steps tok.callR (onboard_new L w u)"
proof -
  have db: "steps tok.dbR (users_SetPassword i h)" "steps tok.dbR (users_TouchLogin i now)" for i h now
    unfolding users_SetPassword_def users_TouchLogin_def by (intro tok.db_rules; auto simp: upd_user_def Let_def)+
  show ?thesis
    unfolding onboard_new_def onboard_password_def
    by (intro tok.screen_rules tok.steps_pw db [THEN tok.steps_store])
qed

lemma onboard_new_tokens: "d_token (st_db (snd (onboard_new L w u s))) = d_token (st_db s)"
proof -
  have "tok.callR s (snd (onboard_new L w u s))" by (rule onboard_new_steps [unfolded steps_def, rule_format])
  then show ?thesis by (simp add: tok.callR_def)
qed

lemma onboard_sound:
  assumes "onboard L w u t = (Inr (Some u'), s')" "wf_tbl (d_token (st_db t))"
  shows "\<exists>tok k r r'. fst (ReadLine (c_sess t)) = Inr tok \<and>
     tbl_get (d_token (st_db t)) k = Some r \<and> tk_user_id r = U_ID u \<and> tk_used_at r = None \<and>
     tk_hash r = hashToken (st_prims t) (TrimSpace tok) \<and> e_clock t (e_step t + 1) < tk_expires_at r \<and>
     tbl_get (d_token (st_db s')) k = Some r' \<and> tk_used_at r' \<noteq> None"
proof -
  let ?cs = "[CClear, CColorLine scr_Cyan (str ''Welcome, '' @ U_Handle u @ str '' '' @ dash @ str '' first login.''),
       CLine (str ''Enter the one-time token your SysOp sent you.'')] @ ask (str ''Token: '')"
  obtain t1 where t1: "say w ?cs t = (Inr (), t1)" "same_input (c_sess t) (c_sess t1)" "st_prims t1 = st_prims t"
    "st_db t1 = st_db t" "e_step t1 = e_step t" "e_clock t1 = e_clock t"
    using say_sess by blast
  obtain r ss1 where r: "ReadLine (c_sess t1) = (r, ss1)" by fastforce
  let ?t2 = "t1\<lparr>c_sess := ss1\<rparr>"
  have rd: "rd_line t1 = (r, ?t2)" by (simp add: rd_line_def on_sess_def r)
  have fails: "chk (say w a) (\<lambda>_. chk (Activity L b c) (\<lambda>_. ret None)) x \<noteq> (Inr (Some u'), s')" for a b c x
    by (auto elim!: chk_InrE)
  have run: "onboard_token L w u t1 = (Inr (Some u'), s')" using assms(1) t1(1) by (simp add: onboard_def chk_run)
  then obtain tok where tok: "r = Inr tok" using rd by (cases r) (auto simp: onboard_token_def att_run)
  obtain q t3 where q: "tokens_Redeem (U_ID u) (TrimSpace tok) ?t2 = (q, t3)" by fastforce
  have go: "q = Inr () \<and> onboard_new L w u t3 = (Inr (Some u'), s')"
    using run rd tok q fails by (cases q) (auto simp: onboard_token_def att_run)
  then have "tokens_Redeem (U_ID u) (TrimSpace tok) ?t2 = (Inr (), t3)" using q by simp
  from redeem_consumes [OF this] obtain k row where k: "tbl_get (d_token (st_db t)) k = Some row" "tk_user_id row = U_ID u"
      "tk_used_at row = None" "tk_hash row = hashToken (st_prims t) (TrimSpace tok)" "e_clock t (e_step t + 1) < tk_expires_at row"
    and used: "tbl_get (d_token (st_db t3)) k = Some (row\<lparr>tk_used_at := Some (e_clock t (e_step t + 1))\<rparr>)"
    using assms(2) t1(3-6) by fastforce
  have "d_token (st_db s') = d_token (st_db t3)" using onboard_new_tokens [of L w u t3] go by simp
  moreover have "fst (ReadLine (c_sess t)) = Inr tok" using readers_out(1) [OF t1(2)] r tok by simp
  ultimately show ?thesis using k used
    by (intro exI [of _ tok] exI [of _ k] exI [of _ row] exI [of _ "row\<lparr>tk_used_at := Some (e_clock t (e_step t + 1))\<rparr>"]) simp
qed

text \<open>
  C4: A login succeeds only for an approved account whose handle is the one the transport
  authenticated, and only with the second factor. If the account has a password, one of the first
  three the caller typed on this connection verifies against the stored hash, and the account is
  handed on as it was read. If it has none yet, the first line the caller typed is the text of a
  one-time token of that account which the database held, unused and unexpired at the time the
  code reads, and which is marked used when the login is over.
\<close>

theorem login_authenticates:
  assumes "RunLogin L s = (Inr (Some u), s')" "db_inv (st_db s)"
  shows "\<exists>u0 t. users_ByHandle (s_username (c_sess s)) s = (Inr u0, t) \<and> U_Status u0 = StatusApproved \<and> same_user u0 u \<and>
    (if U_PasswordHash u0 \<noteq> [] then u = u0 \<and> typed_password s (U_PasswordHash u0) else redeemed_token s (U_ID u0) s')"
proof -
  from assms(1) [unfolded RunLogin_def] obtain w s1 where "scr_New s = (Inr w, s1)" "s1 = s" and
    run: "att (users_ByHandle (s_username (c_sess s))) (\<lambda>r. case r of
       Inl e \<Rightarrow> chk (say w [CColorLine scr_Red genericLoginFail]) (\<lambda>_. ret None)
     | Inr u \<Rightarrow>
         if U_Status u \<noteq> StatusApproved then chk (say w [CColorLine scr_Red genericLoginFail]) (\<lambda>_. ret None)
         else if U_PasswordHash u = [] then onboard L w u
         else verify 3 L w u) s = (Inr (Some u), s')"
    by (elim chk_InrE) (auto simp: scr_New_def Let_def)
  have fails: "chk (say w a) (\<lambda>_. ret None) x \<noteq> (Inr (Some u), s')" for a x by (auto elim!: chk_InrE)
  obtain r t where r: "users_ByHandle (s_username (c_sess s)) s = (r, t)" by fastforce
  from run r fails obtain u0 where u0: "r = Inr u0" "U_Status u0 = StatusApproved"
    and go: "(if U_PasswordHash u0 = [] then onboard L w u0 else verify 3 L w u0) t = (Inr (Some u), s')"
    by (cases r) (auto simp: att_run split: if_splits)
  have t: "t = s\<lparr>e_step := e_step s + 1\<rparr>" using r u0(1) unfolding users_ByHandle_def by (auto dest: query_InrD)
  show ?thesis
  proof (cases "U_PasswordHash u0 = []")
    case True
    with go have o: "onboard L w u0 t = (Inr (Some u), s')" by simp
    have "wf_tbl (d_token (st_db t))" using db_inv_token [OF assms(2)] t by simp
    from onboard_sound [OF o this] have "redeemed_token s (U_ID u0) s'" unfolding redeemed_token_def t by simp
    then show ?thesis using r u0 True yieldsD [OF login_yields(1) o] by auto
  next
    case False
    with go have v: "verify 3 L w u0 t = (Inr (Some u), s')" by simp
    then have "u = u0" using yieldsD [OF login_yields(2)] by blast
    moreover have "typed_password s (U_PasswordHash u0)"
      using verify_sound [OF v, of "c_sess s"] unfolding typed_password_def t by simp
    ultimately show ?thesis using r u0 False by auto
  qed
qed

lemma login_ok_runs: "fst (login_ok L u s) = Inr (Some u)"
proof -
  obtain f s1 where 1: "record_login u (e_clock s (e_step s)) s = (Inr f, s1)"
    by (cases "users_RecordLogin (U_ID u) (s_ip (c_sess s)) (e_clock s (e_step s)) s") (simp add: record_login_def default_def att_run)
  obtain s2 where "Activity L (str ''login'') (if f then str ''ok (rapid-ip-change flagged)'' else str ''ok'') s1 = (Inr (), s2)"
    using Activity_runs by blast
  with 1 show ?thesis by (simp add: login_ok_def time_Now_def chk_run)
qed

definition writer_of :: "session \<Rightarrow> writer" where
  "writer_of ss = NewWriter [] (cap_ansi (s_cap ss)) (cap_cols (s_cap ss)) (s_colorblind ss)"

text \<open>An approved account with a password is let in by it at the first prompt.\<close>

lemma login_runs:
  assumes "users_ByHandle (s_username (c_sess s)) s = (Inr u, t)" "U_Status u = StatusApproved" "U_PasswordHash u \<noteq> []"
    and "rd_password (snd (say (writer_of (c_sess s)) (ask (str ''Password: '')) t)) = (Inr pw, t')"
    and "VerifyPassword (st_prims s) (U_PasswordHash u) pw = Inr True"
  shows "fst (RunLogin L s) = Inr (Some u)"
proof -
  have "hears s t"
    by (rule io_hears [where m = "users_ByHandle (s_username (c_sess s))", OF _ assms(1)]) (intro io_rules)
  moreover have "hears (snd (say (writer_of (c_sess s)) (ask (str ''Password: '')) t)) t'"
    by (rule io_hears [where m = rd_password, OF _ assms(4)]) (intro io_rules)
  moreover have "st_prims (snd (say (writer_of (c_sess s)) (ask (str ''Password: '')) t)) = st_prims t"
    by (simp add: say_def on_sess_def)
  ultimately have "st_prims t' = st_prims s" by (simp add: hears_def)
  moreover have "scr_New s = (Inr (writer_of (c_sess s)), s)" by (simp add: scr_New_def writer_of_def Let_def)
  moreover obtain t1 where "say (writer_of (c_sess s)) (ask (str ''Password: '')) t = (Inr (), t1)"
    by (simp add: say_def on_sess_def)
  ultimately show ?thesis
    using assms login_ok_runs
    by (simp add: RunLogin_def att_run chk_run verify_pw_def numeral_3_eq_3 del: One_nat_def)
qed

definition login_db :: db where
  "login_db = empty_db\<lparr>d_user := \<lparr>t_rows = [(1, (demo_user [98] 10)\<lparr>u_password_hash :=
     pw_prefix @ b64_encode std_alphabet [5] @ [36] @ b64_encode std_alphabet [97, 98, 99]\<rparr>)], t_seq = 1\<rparr>\<rparr>"

lemma login_db_inv: "db_inv login_db"
proof -
  have "\<not> fk (d_user empty_db) i" for i by (simp add: fk_iff empty_db_def tbl_empty_def)
  then show ?thesis unfolding login_db_def by (intro db_set_user) (auto simp: wf_tbl_def uniq_def)
qed

definition login_session :: session where
  "login_session = (demo_session (keyed [97, 98, 99, 13]))\<lparr>s_username := [98]\<rparr>"

lemma login_demo_row: "users_ByHandle [98] (demo_call login_db login_session) = (Inr \<lparr>U_ID = 1, U_Handle = [98],
     U_PasswordHash = pw_prefix @ b64_encode std_alphabet [5] @ [36] @ b64_encode std_alphabet [97, 98, 99], U_RealName = [],
     U_Email = [], U_AccessLevel = 10, U_Status = StatusApproved, U_DailyMinutes = 0, U_Points = 0, U_Colorblind = False,
     U_CreatedAt = 0, U_LastLoginAt = None\<rparr>, (demo_call login_db login_session)\<lparr>e_step := 1\<rparr>)"
  by (simp add: users_ByHandle_def query_ok login_db_def tbl_select_def demo_user_def nocase_def first_row_def bind_err_def
      norows_notfound_def users_scan_def unseal_def)

lemma login_demo_types: "fst (ReadPassword (sess_write x login_session)) = Inr [97, 98, 99]"
  by (simp add: ReadPassword_def login_session_def demo_session_def keyed_def sess_write_def
      password_loop.simps nextByte.simps ReadByte_def deadline_def resetIdle_def MaxLineLen_def)

theorem login_authenticates_witness:
  "\<exists>u s'. RunLogin demo_libs (demo_call login_db login_session) = (Inr (Some u), s') \<and>
     typed_password (demo_call login_db login_session) (U_PasswordHash u) \<and> U_Handle u = [98]"
proof -
  let ?s = "demo_call login_db login_session"
  obtain u t where row: "users_ByHandle [98] ?s = (Inr u, t)" "t = ?s\<lparr>e_step := 1\<rparr>" "U_Status u = StatusApproved" "U_Handle u = [98]"
    "U_PasswordHash u = pw_prefix @ b64_encode std_alphabet [5] @ [36] @ b64_encode std_alphabet [97, 98, 99]"
    by (simp add: login_demo_row)
  have name: "s_username (c_sess ?s) = [98]" by (simp add: login_session_def)
  have "fst (rd_password (snd (say (writer_of (c_sess ?s)) (ask (str ''Password: '')) t))) = Inr [97, 98, 99]"
    using login_demo_types [of "wr_out (wr_calls (ask (str ''Password: '')) (writer_of login_session))"]
    by (simp add: row(2) say_def on_sess_def rd_password_def prod.case_eq_if)
  then obtain t' where "rd_password (snd (say (writer_of (c_sess ?s)) (ask (str ''Password: '')) t)) = (Inr [97, 98, 99], t')"
    by (metis prod.collapse)
  moreover have "VerifyPassword (st_prims ?s) (U_PasswordHash u) [97, 98, 99] = Inr True"
    unfolding row(5) VerifyPassword_text by (simp add: clear_prims_def)
  moreover have "U_PasswordHash u \<noteq> []" by (simp add: row(5))
  ultimately have "fst (RunLogin demo_libs ?s) = Inr (Some u)"
    using login_runs [where s = ?s and u = u and t = t] row(1,3) name by (simp only:) blast
  then obtain s' where run: "RunLogin demo_libs ?s = (Inr (Some u), s')" by (cases "RunLogin demo_libs ?s") auto
  have "db_inv (st_db ?s)" using login_db_inv by simp
  from login_authenticates [OF run this] have "typed_password ?s (U_PasswordHash u)"
    using row(1,5) name \<open>U_PasswordHash u \<noteq> []\<close> by (auto split: if_splits)
  with run row(4) show ?thesis by blast
qed

end
