(* ===== verification/MenuApply.thy ===== *)
theory MenuApply
  imports MenuProfile
begin

text \<open>
  The Telnet-only membership application, \<open>menu/apply.go\<close>, and what an unauthenticated caller
  can do to the database through it.
\<close>

section \<open>The application form\<close>

definition apply_key :: "('ip, 'net) libs \<Rightarrow> writer \<Rightarrow> bytes list \<Rightarrow> ('a call_scheme, bytes list + bytes list) prog" where
  "apply_key L w keyLines =
     chk (say w (ask (str ''key> ''))) (\<lambda>_.
     chk rd_line (\<lambda>l. let line = TrimSpace l in
     if line = [] then leave keyLines
     else if \<not> ValidatePublicKey (l_ssh L) line then
       chk (say w [CColorLine scr_Red (str ''  [x] not a valid SSH public key - skipped'')]) (\<lambda>_. again keyLines)
     else chk (say w [CColorLine scr_Cyan (str ''  [ok] key accepted'')]) (\<lambda>_. again (keyLines @ [line]))))"

definition save_key :: "('ip, 'net) libs \<Rightarrow> writer \<Rightarrow> int \<Rightarrow> bytes \<Rightarrow> ('a call_scheme, unit) prog" where
  "save_key L w i k = att (keys_Add (l_ssh L) i k) (\<lambda>r. case r of
     Inl e \<Rightarrow> say w [CColorLine scr_Red (str ''  [x] a key failed to save: '' @ l_err L e)]
   | Inr _ \<Rightarrow> ret ())"

definition apply_note :: "bytes \<Rightarrow> bytes \<Rightarrow> bytes" where
  "apply_note contact note = (let fullNote = TrimSpace note; c = TrimSpace contact in
     if c \<noteq> [] then str ''contact: '' @ c @ [10] @ fullNote else fullNote)"

text \<open>The persisting half: the pending account, its keys, the application.\<close>

definition apply_record :: "('ip, 'net) libs \<Rightarrow> writer \<Rightarrow> bytes \<Rightarrow> bytes list \<Rightarrow> bytes \<Rightarrow> User \<Rightarrow> ('a call_scheme, unit) prog" where
  "apply_record L w hdl keyLines fullNote u =
     chk (for_each (save_key L w (U_ID u)) keyLines) (\<lambda>_.
     att (memberships_Apply (U_ID u) fullNote) (\<lambda>r. case r of
       Inl e \<Rightarrow> say w [CColorLine scr_Red (str ''Could not record application: '' @ l_err L e)]
     | Inr _ \<Rightarrow>
         chk (Activity L (str ''membership-application'') (str ''handle='' @ hdl)) (\<lambda>_.
         say w [CPrint nl, CColorLine scr_Cyan (str ''Application submitted! The SysOp will review it.''),
           CLine (str ''Once approved you'' @ apos @ str ''ll receive a one-time token out-of-band, then''),
           CLine (str ''connect via SSH to set your password and log in. 73!'')])))"

definition apply_submit :: "('ip, 'net) libs \<Rightarrow> writer \<Rightarrow> bytes \<Rightarrow> bytes list \<Rightarrow> bytes \<Rightarrow> ('a call_scheme, unit) prog" where
  "apply_submit L w hdl keyLines fullNote = att (users_Create hdl [] [] []) (\<lambda>r. case r of
     Inl e \<Rightarrow> say w [CColorLine scr_Red (str ''Could not submit application: '' @ l_err L e)]
   | Inr u \<Rightarrow> apply_record L w hdl keyLines fullNote u)"

definition apply_form :: "('ip, 'net) libs \<Rightarrow> writer \<Rightarrow> bytes \<Rightarrow> ('a call_scheme, unit) prog" where
  "apply_form L w hdl =
     chk (say w [CPrint nl, CLine (str ''Paste your SSH PUBLIC key(s), one per line. Blank line when done.''),
       CLine (str ''(Public keys are safe to send in the clear; your password is set later over SSH.)'')]) (\<lambda>_.
     chk (for_loop (apply_key L w) []) (\<lambda>keyLines.
     if keyLines = [] then
       say w [CColorLine scr_Red (str ''At least one SSH public key is required to join. Goodbye.'')]
     else
     chk (say w ([CPrint nl, CLine (str ''How can the SysOp reach you out-of-band to deliver your approval'')] @
       ask (str ''token? (optional, e.g. PGP-encrypted email): ''))) (\<lambda>_.
     chk rd_line (\<lambda>contact.
     chk (say w (ask (str ''Why do you want to join? ''))) (\<lambda>_.
     chk rd_line (\<lambda>note.
     apply_submit L w hdl keyLines (apply_note contact note)))))))"

definition RunApply :: "('ip, 'net) libs \<Rightarrow> ('a call_scheme, unit) prog" where
  "RunApply L =
     chk settings_BBSName (\<lambda>name. let title = name @ str '' :: Membership Application'' in
     chk scr_New (\<lambda>w.
     chk (say w ([CClear, CColorLine scr_Cyan title, CColorLine scr_Cyan (replicate (length title) 45),
       CLine (str ''Telnet is for applying only. Approved members connect over SSH.''), CPrint nl] @
       ask (str ''Desired handle: ''))) (\<lambda>_.
     chk rd_line (\<lambda>h. let hdl = TrimSpace h in
     if hdl = [] then say w [CLine (str ''No handle entered. Goodbye.'')]
     else att (users_ByHandle hdl) (\<lambda>r. case r of
         Inr _ \<Rightarrow> say w [CColorLine scr_Red (str ''That handle is already taken. Goodbye.'')]
       | Inl e \<Rightarrow> apply_form L w hdl)))))"

section \<open>What an application can change\<close>

text \<open>A table that only gets new rows, each satisfying \<open>P\<close>.\<close>

definition grows :: "('r \<Rightarrow> bool) \<Rightarrow> 'r tbl \<Rightarrow> 'r tbl \<Rightarrow> bool" where
  "grows P t t' \<longleftrightarrow> t_seq t \<le> t_seq t' \<and> (\<exists>new. t_rows t' = t_rows t @ new \<and> (\<forall>(i, r) \<in> set new. t_seq t < i \<and> P r))"

lemma grows_refl [simp]: "grows P t t"
  by (simp add: grows_def)

lemma grows_trans:
  assumes "grows P t u" "grows P u v"
  shows "grows P t v"
proof -
  obtain a b where "t_rows u = t_rows t @ a" "\<forall>(i, r) \<in> set a. t_seq t < i \<and> P r" "t_seq t \<le> t_seq u"
    and "t_rows v = t_rows u @ b" "\<forall>(i, r) \<in> set b. t_seq u < i \<and> P r" "t_seq u \<le> t_seq v"
    using assms unfolding grows_def by blast
  then show ?thesis unfolding grows_def by (intro conjI exI [of _ "a @ b"]) auto
qed

lemma grows_insert: "P r \<Longrightarrow> grows P t (snd (tbl_insert r t))"
  by (simp add: grows_def tbl_insert_def)

text \<open>An applicant's account: pending, of level 0, with no password and no history.\<close>

definition applicant :: "user_row \<Rightarrow> bool" where
  "applicant r \<longleftrightarrow> u_status r = StatusPending \<and> u_access_level r = 0 \<and> u_password_hash r = [] \<and> u_points r = 0 \<and>
     u_last_login_at r = None"

text \<open>The tables an application does not write.\<close>

definition other_tables :: "db \<Rightarrow> db" where
  "other_tables d = d\<lparr>d_user := tbl_empty, d_key := tbl_empty, d_membership := tbl_empty, d_slog := tbl_empty\<rparr>"

definition applied :: "int \<Rightarrow> db \<Rightarrow> db \<Rightarrow> bool" where
  "applied n d d' \<longleftrightarrow>
     grows applicant (d_user d) (d_user d') \<and>
     grows (\<lambda>k. k_user_id k = n \<and> k_revoked_at k = None) (d_key d) (d_key d') \<and>
     grows (\<lambda>m. mb_user_id m = n \<and> mb_decision m = DecisionPending \<and> mb_reviewed_by m = None) (d_membership d) (d_membership d') \<and>
     grows (\<lambda>_. True) (d_slog d) (d_slog d') \<and>
     other_tables d' = other_tables d"

lemma applied_refl: "applied n d d"
  by (simp add: applied_def)

lemma applied_trans: "applied n a b \<Longrightarrow> applied n b c \<Longrightarrow> applied n a c"
  unfolding applied_def by (elim conjE, intro conjI) (erule (1) grows_trans | simp)+

lemma applied_steps:
  "ins_slog sl d = Inr (x, d') \<Longrightarrow> applied n d d'"
  "ins_user r d = Inr (x, d') \<Longrightarrow> applicant r \<Longrightarrow> applied n d d'"
  "ins_key k d = Inr (x, d') \<Longrightarrow> k_user_id k = n \<Longrightarrow> k_revoked_at k = None \<Longrightarrow> applied n d d'"
  "ins_membership m d = Inr (x, d') \<Longrightarrow> mb_user_id m = n \<Longrightarrow> mb_decision m = DecisionPending \<Longrightarrow> mb_reviewed_by m = None \<Longrightarrow> applied n d d'"
  by (auto simp: applied_def ins_slog_def ins_user_def ins_key_def ins_membership_def other_tables_def split: if_splits
      intro!: grows_insert)

interpretation app: call_frame "applied n" for n
  by unfold_locales (auto intro: applied_refl applied_trans applied_steps)

text \<open>Programs that write nothing but the session log.\<close>

definition log_only :: "db \<Rightarrow> db \<Rightarrow> bool" where
  "log_only d d' \<longleftrightarrow> grows (\<lambda>_. True) (d_slog d) (d_slog d') \<and> d'\<lparr>d_slog := tbl_empty\<rparr> = d\<lparr>d_slog := tbl_empty\<rparr>"

lemma log_only_trans: "log_only a b \<Longrightarrow> log_only b c \<Longrightarrow> log_only a c"
  unfolding log_only_def by (auto intro: grows_trans)

interpretation quiet: call_frame log_only
  by unfold_locales (auto simp: log_only_def ins_slog_def grows_insert split: if_splits intro: grows_trans)

lemma log_only_tables: "log_only d d' \<Longrightarrow> d_user d' = d_user d" "log_only d d' \<Longrightarrow> applied n d d'"
proof -
  assume "log_only d d'"
  then have *: "grows (\<lambda>_. True) (d_slog d) (d_slog d')" "d'\<lparr>d_slog := tbl_empty\<rparr> = d\<lparr>d_slog := tbl_empty\<rparr>"
    by (simp_all add: log_only_def)
  then have "d_user d' = d_user d" "d_key d' = d_key d" "d_membership d' = d_membership d"
    by (cases d, cases d', simp)+
  moreover have "other_tables d' = other_tables d"
    using arg_cong [OF *(2), of other_tables] by (simp add: other_tables_def)
  ultimately show "d_user d' = d_user d" "applied n d d'" using *(1) by (simp_all add: applied_def)
qed

lemma quiet_app: "steps quiet.callR m \<Longrightarrow> steps (app.callR n) m"
  by (auto simp: steps_def quiet.callR_def app.callR_def log_only_tables)

text \<open>The account number an application will get is the next one.\<close>

abbreviation next_user :: "int \<Rightarrow> 'a call_scheme \<Rightarrow> bool" where
  "next_user n s \<equiv> t_seq (d_user (st_db s)) + 1 = n"

lemma quiet_next: "steps quiet.callR m \<Longrightarrow> app.triple n (next_user n) m (\<lambda>_. next_user n)"
  using quiet_app [of m n] unfolding steps_def app.triple_def quiet.callR_def by (metis log_only_tables(1))

lemma quiet_seq:
  "steps quiet.callR m \<Longrightarrow> (\<And>x. app.triple n (next_user n) (k x) N) \<Longrightarrow> app.triple n (next_user n) (chk m k) N"
  by (rule app.triple_chk [OF quiet_next])

lemma quiet_try:
  assumes "steps quiet.callR m" "\<And>r. app.triple n (next_user n) (k r) N"
  shows "app.triple n (next_user n) (att m k) N"
proof -
  have "app.triple n (next_user n) (\<lambda>s. case m s of (r, s') \<Rightarrow> (Inr r, s')) (\<lambda>_. next_user n)"
    by (rule quiet_next) (use assms(1) in \<open>simp add: steps_def prod.case_eq_if\<close>)
  from app.triple_chk [OF this assms(2)] show ?thesis
    by (simp add: app.triple_def att_def chk_def prod.case_eq_if)
qed

lemma quiet_end: "steps quiet.callR m \<Longrightarrow> app.triple n (next_user n) m (\<lambda>_ _. True)"
  by (rule app.triple_weaken [where Q' = "\<lambda>_. True"]) (simp_all add: app.triple_True quiet_app)

lemma ByID_id: "users_ByID i s = (Inr u, s') \<Longrightarrow> U_ID u = i"
  by (auto simp: users_ByID_def query_def chk_run ext_def norows_notfound_def bind_err_def first_row_def sel_id_def tbl_select_def
      users_scan_def filter_eq_Cons_iff split: if_splits sum.splits list.splits)

lemma Create_id:
  assumes "users_Create h p a b s = (Inr u, s')"
  shows "U_ID u = t_seq (d_user (st_db s)) + 1"
proof -
  from assms [unfolded users_Create_def] show ?thesis
  proof (rule seal2_cases)
    fix x y k q
    let ?t = "s\<lparr>e_step := k, e_rpos := q\<rparr>"
    let ?r = "\<lparr>u_handle = h, u_password_hash = p, u_real_name = x, u_email = y, u_access_level = 0, u_status = StatusPending,
      u_daily_minutes = 0, u_created_at = e_clock ?t (e_step ?t), u_last_login_at = None, u_last_login_ip = [], u_points = 0,
      u_colorblind = 0\<rparr>"
    assume "chk time_Now (\<lambda>now. chk (exec (ins_user \<lparr>u_handle = h, u_password_hash = p, u_real_name = x, u_email = y,
        u_access_level = 0, u_status = StatusPending, u_daily_minutes = 0, u_created_at = now, u_last_login_at = None,
        u_last_login_ip = [], u_points = 0, u_colorblind = 0\<rparr>)) users_ByID) ?t = (Inr u, s')"
    then have "chk (exec (ins_user ?r)) users_ByID ?t = (Inr u, s')" by (simp add: time_Now_def chk_run)
    then obtain i t where ins: "exec (ins_user ?r) ?t = (Inr i, t)" and "users_ByID i t = (Inr u, s')" by (rule chk_InrE)
    then have "U_ID u = i" by (simp add: ByID_id)
    moreover from ins obtain d where "ins_user ?r (st_db ?t) = Inr (i, d)" by (rule exec_InrD)
    then have "i = t_seq (d_user (st_db s)) + 1" by (simp add: ins_user_def tbl_insert_def split: if_splits)
    ultimately show ?thesis by simp
  qed simp
qed

lemma create_triple: "app.triple n (next_user n) (users_Create h [] [] []) (\<lambda>u _. U_ID u = n)"
proof -
  have "steps (app.callR n) (users_Create h [] [] [])"
    unfolding users_Create_def
    by (rule app.steps_store, intro app.db_rules app.steps_lookups) (erule applied_steps, simp add: applicant_def)
  then show ?thesis
    unfolding steps_def app.triple_def using Create_id by (metis prod.collapse)
qed

lemma save_key_steps: "steps (app.callR n) (save_key L w n k)"
proof -
  have "steps (app.dbR n) (keys_Add K n l)" for K l
    unfolding keys_Add_def keys_byID_def Let_def by (intro app.db_rules) (erule applied_steps; simp)
  then show ?thesis unfolding save_key_def by (intro app.screen_rules app.steps_store)
qed

lemma record_steps: "steps (app.callR (U_ID u)) (apply_record L w h ks nt u)"
proof -
  have "steps (app.dbR n) (memberships_ByID i)" for i n
    by (rule app.steps_same) (simp_all add: st_fixed_def memberships_ByID_def query_def chk_run ext_def)
  then have "steps (app.dbR n) (memberships_Apply n x)" for x n
    unfolding memberships_Apply_def by (intro app.db_rules) (erule applied_steps; simp)
  then show ?thesis unfolding apply_record_def by (intro app.screen_rules app.steps_store save_key_steps)
qed

context call_frame
begin

lemma triple_branch:
  assumes "triple P m M" "\<And>e. steps callR (k (Inl e))" "\<And>x. triple (M x) (k (Inr x)) (\<lambda>_ _. True)"
  shows "triple P (att m k) (\<lambda>_ _. True)"
  unfolding triple_def
proof (intro allI impI conjI TrueI)
  fix s
  assume P: "P s"
  obtain r t where run: "m s = (r, t)" by fastforce
  have "callR s t" using assms(1) P run unfolding triple_def by (metis snd_conv)
  moreover have "callR t (snd (k r t))"
  proof (cases r)
    case (Inl e)
    then show ?thesis using assms(2) by (simp add: steps_def)
  next
    case (Inr x)
    then have "M x t" using assms(1) P run unfolding triple_def by (metis fst_conv snd_conv)
    then show ?thesis using assms(3) Inr unfolding triple_def by blast
  qed
  ultimately show "callR s (snd (att m k s))" using run call.frame_trans by (auto simp: att_run)
qed

end

lemma submit_triple: "app.triple n (next_user n) (apply_submit L w h ks nt) (\<lambda>_ _. True)"
  unfolding apply_submit_def
proof (rule app.triple_branch [OF create_triple])
  fix u
  show "app.triple n (\<lambda>_. U_ID u = n) (case Inr u of Inl e \<Rightarrow> say w [CColorLine scr_Red (str ''Could not submit application: '' @ l_err L e)]
      | Inr u \<Rightarrow> apply_record L w h ks nt u) (\<lambda>_ _. True)"
    using record_steps [of u] by (cases "U_ID u = n") (simp_all add: app.triple_def steps_def)
qed (simp, intro app.screen_rules)

lemma form_triple: "app.triple n (next_user n) (apply_form L w h) (\<lambda>_ _. True)"
  unfolding apply_form_def apply_key_def Let_def
  by (intro quiet_seq quiet.screen_rules app.triple_cond quiet_end submit_triple)

lemma RunApply_triple: "app.triple n (next_user n) (RunApply L) (\<lambda>_ _. True)"
  unfolding RunApply_def Let_def
  by (intro quiet_seq quiet_try quiet.screen_rules app.triple_cond app.triple_sum quiet_end form_triple)

lemma apply_eats: "eats (apply_key L w)"
  unfolding eats_def apply_key_def Let_def by (intro allI eat_rules io_rules)

text \<open>
  Whatever an unauthenticated Telnet caller types, and whatever fails on the way, the
  application can only add: at most new accounts that are pending, of level 0 and without a
  password, SSH keys and an application that belong to the next free account number and are
  open, and lines of the session log. No existing row of any table is changed or removed, and
  no other table is touched.
\<close>
theorem apply_only_adds: "applied (t_seq (d_user (st_db s)) + 1) (st_db s) (st_db (snd (RunApply L s)))"
  using RunApply_triple [of "t_seq (d_user (st_db s)) + 1" L] unfolding app.triple_def app.callR_def by blast

end
