(* ===== verification/Doors.thy ===== *)
theory Doors
  imports GoText Env "HOL-Library.Sublist"
begin

text \<open>
  The door-game package, \<open>doors/\<close>: the dropfile, the scrubbed environment and the launch of a
  subprocess door (\<open>launcher.go\<close>, \<open>dropfile.go\<close>), the handshake of a resident door
  (\<open>bridge.go\<close>), and the release installer (\<open>install.go\<close>); with \<open>slugify\<close> of \<open>menu/doors.go\<close>,
  which names their files. The processes themselves, the network and the forge are arguments:
  a door that runs is a program over the caller's wire, a connection is the list of chunks its
  reads deliver before it fails, a download is the body it yields and whether it breaks off.
\<close>

section \<open>Names and paths\<close>

definition lower_alnum :: "byte \<Rightarrow> bool" where
  "lower_alnum c \<longleftrightarrow> (97 \<le> c \<and> c \<le> 122) \<or> (48 \<le> c \<and> c \<le> 57)"

definition slug_add :: "bytes \<Rightarrow> bytes \<Rightarrow> bytes" where
  "slug_add r out = (case r of
     [c] \<Rightarrow> if lower_alnum c then out @ [c] else if out \<noteq> [] then out @ [45] else out
   | _ \<Rightarrow> if out \<noteq> [] then out @ [45] else out)"

definition trim_dashes :: "bytes \<Rightarrow> bytes" where
  "trim_dashes s = rev (dropWhile (\<lambda>c. c = 45) (rev (dropWhile (\<lambda>c. c = 45) s)))"

definition slugify :: "(bytes \<Rightarrow> bytes) \<Rightarrow> bytes \<Rightarrow> bytes" where
  "slugify ulow s = (let out = trim_dashes (fold slug_add (runes (ToLower ulow s)) []) in
     if out = [] then str ''door'' else out)"

text \<open>\<open>filepath.Join\<close> of a clean directory and a name.\<close>

definition path_join :: "bytes \<Rightarrow> bytes \<Rightarrow> bytes" where
  "path_join d n = (if d = [] then n else d @ [47] @ n)"

section \<open>Subprocess doors\<close>

record DropInfo =
  di_BBSName :: bytes
  di_Handle :: bytes
  di_RealName :: bytes
  di_AccessLevel :: int
  di_MinutesLeft :: int
  di_Node :: int
  di_ANSI :: bool

definition door32_text :: "DropInfo \<Rightarrow> bytes" where
  "door32_text d = join [13, 10] [str ''2'', str ''0'', str ''115200'', di_BBSName d, str ''1'',
     (if di_RealName d = [] then di_Handle d else di_RealName d), di_Handle d, itoa (di_AccessLevel d),
     itoa (di_MinutesLeft d), (if di_ANSI d then str ''1'' else str ''0''), itoa (di_Node d)] @ [13, 10]"

definition WriteDoor32 :: "bytes \<Rightarrow> DropInfo \<Rightarrow> ('a env_scheme, unit) prog" where
  "WriteDoor32 path d = os_WriteFile path (door32_text d)"

definition scrubbedEnv :: "bytes \<Rightarrow> bytes \<Rightarrow> bytes \<Rightarrow> bytes list" where
  "scrubbedEnv home term share =
     [str ''PATH=/usr/bin:/bin'', str ''HOME='' @ home, str ''TERM='' @ (if term = [] then str ''ansi'' else term),
      str ''DOORFILE='' @ path_join home (str ''door32.sys'')] @
     (if share \<noteq> [] then [str ''DOORSHARE='' @ share] else [])"

record opts =
  op_Timeout :: int
  op_CPULimit :: int
  op_Term :: bytes
  op_WorkDir :: bytes
  op_ShareDir :: bytes
  op_RunAsUID :: int
  op_RunAsGID :: int
  op_Chroot :: bytes
  op_NoNetwork :: bool
  op_Isolate :: bool

text \<open>What is handed to the kernel: the command line, the environment, the directory, the
  credentials and namespaces, and the limits.\<close>

record door_cmd =
  dc_argv :: "bytes list"
  dc_env :: "bytes list"
  dc_dir :: bytes
  dc_timeout :: int
  dc_cred :: "(int \<times> int) option"
  dc_chroot :: bytes
  dc_nonet :: bool
  dc_isolate :: bool

definition limit_opts :: "opts \<Rightarrow> opts" where
  "limit_opts o' = (let o1 = (if op_Timeout o' \<le> 0 then o'\<lparr>op_Timeout := 15 * 60 * 10 ^ 9\<rparr> else o') in
     if op_CPULimit o1 \<le> 0 then o1\<lparr>op_CPULimit := 120\<rparr> else o1)"

definition door_cmd_of :: "bytes \<Rightarrow> bytes list \<Rightarrow> bytes \<Rightarrow> opts \<Rightarrow> door_cmd" where
  "door_cmd_of command args workDir o' =
     \<lparr>dc_argv = [str ''/bin/sh'', str ''-c'', str ''ulimit -t '' @ itoa (op_CPULimit o') @ str '' 2>/dev/null; exec '' @ [34] @
        str ''$@'' @ [34], str ''sh'', command] @ args,
      dc_env = scrubbedEnv workDir (op_Term o') (op_ShareDir o'), dc_dir = workDir, dc_timeout = op_Timeout o',
      dc_cred = (if op_RunAsUID o' > 0 then Some (op_RunAsUID o', op_RunAsGID o') else None),
      dc_chroot = op_Chroot o', dc_nonet = op_NoNetwork o', dc_isolate = op_Isolate o'\<rparr>"

text \<open>\<open>run\<close> executes the prepared command; \<open>jail\<close> is the name \<open>os.MkdirTemp\<close> picks. The directory
  of a jail goes with everything in it.\<close>

definition launch_in :: "(door_cmd \<Rightarrow> ('a env_scheme, unit) prog) \<Rightarrow> bytes \<Rightarrow> bytes list \<Rightarrow> DropInfo \<Rightarrow> opts \<Rightarrow> bytes
    \<Rightarrow> ('a env_scheme, unit) prog" where
  "launch_in run command args dinfo o' workDir =
     chk (if op_ShareDir o' \<noteq> [] then ext ErrIO else ret ()) (\<lambda>_.
     chk (WriteDoor32 (path_join workDir (str ''door32.sys'')) dinfo) (\<lambda>_.
     chk (ext ErrIO) (\<lambda>_.
     run (door_cmd_of command args workDir o'))))"

definition remove_all :: "bytes \<Rightarrow> ('a env_scheme, unit) prog" where
  "remove_all dir s = (Inr (), s\<lparr>e_fs := (\<lambda>p. if take (length dir + 1) p = dir @ [47] then None else e_fs s p)\<rparr>)"

definition Launch :: "(door_cmd \<Rightarrow> ('a env_scheme, unit) prog) \<Rightarrow> bytes \<Rightarrow> bytes \<Rightarrow> bytes list \<Rightarrow> DropInfo \<Rightarrow> opts
    \<Rightarrow> ('a env_scheme, unit) prog" where
  "Launch run jail command args dinfo opt =
     (if command = [] then fail ErrEmptyCommand else
      let o' = limit_opts opt in
      chk (ext ErrIO) (\<lambda>_.
      if op_WorkDir o' \<noteq> [] then launch_in run command args dinfo o' (op_WorkDir o')
      else att (launch_in run command args dinfo o' jail) (\<lambda>r. chk (remove_all jail) (\<lambda>_. lift_err r))))"

section \<open>Resident doors\<close>

definition sentinelPrefix :: bytes where
  "sentinelPrefix = [0x1B, 0x5D] @ str ''ABBS;''"

definition sentinelMax :: nat where "sentinelMax = 256"

record rconn =
  rc_Version :: bytes
  rc_caps :: "bytes list"
  rc_pre :: bytes
  rc_reads :: "bytes list"
  rc_sent :: bytes

definition sanitizeHandle :: "bytes \<Rightarrow> bytes" where
  "sanitizeHandle s = filter (\<lambda>c. c = 95 \<or> c = 45 \<or> c = 46 \<or> alnum c) (take 24 s)"

definition sanitizeVersion :: "bytes \<Rightarrow> bytes" where
  "sanitizeVersion b = filter (\<lambda>c. c = 46 \<or> c = 45 \<or> c = 43 \<or> alnum c) (take 32 b)"

definition cut :: "bytes \<Rightarrow> byte \<Rightarrow> (bytes \<times> bytes) option" where
  "cut s c = map_option (\<lambda>i. (take i s, drop (i + 1) s)) (index_byte s c)"

definition parse_field :: "bytes \<Rightarrow> rconn \<Rightarrow> rconn" where
  "parse_field kv rc = (case cut kv 61 of
     None \<Rightarrow> rc
   | Some (k, v) \<Rightarrow>
       if TrimSpace k = str ''version'' then rc\<lparr>rc_Version := sanitizeVersion v\<rparr>
       else if TrimSpace k = str ''caps'' then
         rc\<lparr>rc_caps := rc_caps rc @ filter (\<lambda>c. c \<noteq> []) (map TrimSpace (split_on 44 v))\<rparr>
       else rc)"

definition parsePayload :: "bytes \<Rightarrow> rconn \<Rightarrow> rconn" where
  "parsePayload s rc = fold parse_field (split_on 59 s) (rc\<lparr>rc_caps := []\<rparr>)"

text \<open>\<open>readHandshake\<close>: an empty list of reads is the timeout, the end of the connection or any
  other error. An empty chunk is a read that returned nothing.\<close>

fun hs_loop :: "bytes \<Rightarrow> bytes list \<Rightarrow> rconn \<Rightarrow> rconn" where
  "hs_loop buf [] rc = rc\<lparr>rc_pre := buf, rc_reads := []\<rparr>"
| "hs_loop buf (c # cs) rc =
     (if length buf \<ge> sentinelMax then rc\<lparr>rc_pre := buf, rc_reads := c # cs\<rparr>
      else if c = [] then hs_loop buf cs rc
      else let b = buf @ c in
        if prefix sentinelPrefix b then
          (case index_byte b 7 of
             Some i \<Rightarrow> (parsePayload (drop (length sentinelPrefix) (take i b)) rc)\<lparr>rc_pre := drop (i + 1) b, rc_reads := cs\<rparr>
           | None \<Rightarrow> hs_loop b cs rc)
        else if prefix b sentinelPrefix then hs_loop b cs rc
        else rc\<lparr>rc_pre := b, rc_reads := cs\<rparr>)"

definition readHandshake :: "bytes list \<Rightarrow> rconn" where
  "readHandshake reads = hs_loop [] reads \<lparr>rc_Version = [], rc_caps = [], rc_pre = [], rc_reads = [], rc_sent = []\<rparr>"

definition SendHandle :: "bytes \<Rightarrow> rconn \<Rightarrow> rconn" where
  "SendHandle handle rc = (if str ''handle'' \<notin> set (rc_caps rc) then rc
     else let h = sanitizeHandle handle in if h = [] then rc
     else rc\<lparr>rc_sent := rc_sent rc @ sentinelPrefix @ str ''handle='' @ h @ [7]\<rparr>)"

section \<open>Installing from a release\<close>

record asset =
  as_Name :: bytes
  as_URL :: bytes

record Release =
  re_TagName :: bytes
  re_Assets :: "asset list"

record http_resp =
  hr_ok :: bool
  hr_body :: bytes
  hr_broken :: bool

record forge =
  fg_get :: "bytes \<Rightarrow> gerr + http_resp"
  fg_json :: "bytes \<Rightarrow> Release option"
  fg_os :: bytes
  fg_arch :: bytes

definition FetchRelease :: "forge \<Rightarrow> bytes \<Rightarrow> gerr + Release" where
  "FetchRelease F url = (case fg_get F url of
     Inl e \<Rightarrow> Inl e
   | Inr r \<Rightarrow>
       if \<not> hr_ok r then Inl ErrStatus
       else (case fg_json F (take (2 ^ 20) (hr_body r)) of
           None \<Rightarrow> Inl ErrJson
         | Some rel \<Rightarrow> if re_TagName rel = [] then Inl ErrNoTag else Inr rel))"

definition platformTokens :: "bytes \<Rightarrow> bytes \<Rightarrow> bytes list \<times> bytes list" where
  "platformTokens goos arch =
     (if goos = str ''windows'' then [str ''windows'', str ''win'']
      else if goos = str ''darwin'' then [str ''darwin'', str ''macos'', str ''osx''] else [goos],
      if arch = str ''amd64'' then [str ''amd64'', str ''x86_64'', str ''x64'']
      else if arch = str ''arm64'' then [str ''arm64'', str ''aarch64'']
      else if arch = str ''386'' then [str ''386'', str ''i386''] else [arch])"

definition suits :: "(bytes \<Rightarrow> bytes) \<Rightarrow> forge \<Rightarrow> asset \<Rightarrow> bool" where
  "suits ulow F a \<longleftrightarrow> (case platformTokens (fg_os F) (fg_arch F) of (oss, arches) \<Rightarrow>
     containsAny (ToLower ulow (as_Name a)) oss \<and> containsAny (ToLower ulow (as_Name a)) arches)"

definition PickAsset :: "(bytes \<Rightarrow> bytes) \<Rightarrow> forge \<Rightarrow> Release \<Rightarrow> gerr + asset" where
  "PickAsset ulow F r = (case filter (suits ulow F) (re_Assets r) of [] \<Rightarrow> Inl ErrNoAsset | a # _ \<Rightarrow> Inr a)"

definition maxBinary :: nat where "maxBinary = 512 * 2 ^ 20"

definition tmp_path :: "bytes \<Rightarrow> bytes" where
  "tmp_path dest = dest @ str ''.tmp''"

text \<open>\<open>io.Copy\<close> from the limited body into the temporary file, then close and chmod; a failure of
  any of them removes the file again.\<close>

definition save_body :: "http_resp \<Rightarrow> bytes \<Rightarrow> ('a env_scheme, unit) prog" where
  "save_body r tmp = chk (os_WriteFile tmp (take maxBinary (hr_body r))) (\<lambda>_.
     if hr_broken r \<and> length (hr_body r) < maxBinary then fail ErrIO else
     chk (ext ErrIO) (\<lambda>_. ext ErrIO))"

definition DownloadBinary :: "forge \<Rightarrow> bytes \<Rightarrow> bytes \<Rightarrow> ('a env_scheme, unit) prog" where
  "DownloadBinary F url dest = (case fg_get F url of
     Inl e \<Rightarrow> fail e
   | Inr r \<Rightarrow>
       if \<not> hr_ok r then fail ErrStatus else
       chk (ext ErrIO) (\<lambda>_.
       chk (os_WriteFile (tmp_path dest) []) (\<lambda>_.
       att (save_body r (tmp_path dest)) (\<lambda>q. case q of
         Inl e \<Rightarrow> att (os_Remove (tmp_path dest)) (\<lambda>_. fail e)
       | Inr _ \<Rightarrow> os_Rename (tmp_path dest) dest))))"

section \<open>What is proved of them\<close>

lemma alnum_printable: "alnum c \<Longrightarrow> 0x20 \<le> c \<and> c < 0x7F"
  by (auto simp: alnum_def word_le_nat_alt word_less_nat_alt)

text \<open>A version fit for the launch line: at most 32 printable characters.\<close>

definition safe_version :: "rconn \<Rightarrow> bool" where
  "safe_version rc \<longleftrightarrow> (\<forall>c \<in> set (rc_Version rc). 0x20 \<le> c \<and> c < 0x7F) \<and> length (rc_Version rc) \<le> 32"

lemma sanitizeVersion_safe: "c \<in> set (sanitizeVersion b) \<Longrightarrow> 0x20 \<le> c \<and> c < 0x7F" "length (sanitizeVersion b) \<le> 32"
  by (auto simp: sanitizeVersion_def dest!: alnum_printable intro: order_trans [OF length_filter_le])

lemma parse_field_safe: "safe_version rc \<Longrightarrow> safe_version (parse_field kv rc)"
  using sanitizeVersion_safe by (auto simp: parse_field_def safe_version_def split: option.splits)

lemma parsePayload_safe:
  assumes "safe_version rc"
  shows "safe_version (parsePayload s rc)"
proof -
  have "safe_version (fold parse_field kvs rc)" if "safe_version rc" for kvs rc
    using that
  proof (induction kvs arbitrary: rc)
    case (Cons kv kvs)
    from Cons.IH [OF parse_field_safe [OF Cons.prems]] show ?case by simp
  qed simp
  from this [of "rc\<lparr>rc_caps := []\<rparr>"] show ?thesis
    using assms unfolding parsePayload_def by (simp add: safe_version_def)
qed

text \<open>What is left to relay: the bytes read too far, then what the connection still holds.\<close>

definition relayed :: "rconn \<Rightarrow> bytes" where
  "relayed rc = rc_pre rc @ concat (rc_reads rc)"

text \<open>The loop's buffer is a beginning of the sentinel, or the sentinel without its end.\<close>

definition hs_buf :: "bytes \<Rightarrow> bool" where
  "hs_buf b \<longleftrightarrow> prefix b sentinelPrefix \<or> prefix sentinelPrefix b \<and> 7 \<notin> set b"

lemma hs_found:
  assumes "prefix sentinelPrefix b" "index_byte b 7 = Some i"
  shows "7 \<notin> set (drop (length sentinelPrefix) (take i b)) \<and>
    b = sentinelPrefix @ drop (length sentinelPrefix) (take i b) @ [7] @ drop (i + 1) b"
proof -
  obtain r where b: "b = sentinelPrefix @ r" using assms(1) by (auto simp: prefix_def)
  have i: "i < length b" "b ! i = 7" "7 \<notin> set (take i b)" using index_byte_Some [OF assms(2)] by auto
  have "length sentinelPrefix \<le> i"
  proof (rule ccontr)
    assume "\<not> length sentinelPrefix \<le> i"
    then have "b ! i \<in> set sentinelPrefix" by (simp add: b nth_append)
    then show False using i(2) by (simp add: sentinelPrefix_def str_def)
  qed
  then have "take i b = sentinelPrefix @ drop (length sentinelPrefix) (take i b)" by (simp add: b)
  moreover have "b = take i b @ [7] @ drop (i + 1) b" using id_take_nth_drop [OF i(1)] i(2) by simp
  ultimately show ?thesis using i(3) by (metis append.assoc in_set_dropD)
qed

lemma hs_loop_stream:
  assumes "safe_version rc" "rc_caps rc = []" "hs_buf buf"
  shows "safe_version (hs_loop buf cs rc) \<and>
    (relayed (hs_loop buf cs rc) = buf @ concat cs \<and> rc_Version (hs_loop buf cs rc) = rc_Version rc \<and> rc_caps (hs_loop buf cs rc) = [] \<or>
     (\<exists>p. 7 \<notin> set p \<and> buf @ concat cs = sentinelPrefix @ p @ [7] @ relayed (hs_loop buf cs rc)))"
  using assms
proof (induction cs arbitrary: buf)
  case Nil
  then show ?case by (simp add: relayed_def safe_version_def)
next
  case (Cons c cs)
  let ?b = "buf @ c"
  have go: ?case if "hs_loop buf (c # cs) rc = hs_loop ?b cs rc" "hs_buf ?b"
    using Cons.IH [OF Cons.prems(1,2) that(2)] that(1) by simp
  have stop: ?case if "hs_loop buf (c # cs) rc = rc\<lparr>rc_pre := x, rc_reads := y\<rparr>" "x @ concat y = buf @ concat (c # cs)" for x :: bytes and y
    using that Cons.prems(1,2) by (simp add: relayed_def safe_version_def)
  consider "sentinelMax \<le> length buf" | "length buf < sentinelMax" "c = []"
    | i where "length buf < sentinelMax" "c \<noteq> []" "prefix sentinelPrefix ?b" "index_byte ?b 7 = Some i"
    | "length buf < sentinelMax" "c \<noteq> []" "prefix sentinelPrefix ?b" "index_byte ?b 7 = None"
    | "length buf < sentinelMax" "c \<noteq> []" "\<not> prefix sentinelPrefix ?b" "prefix ?b sentinelPrefix"
    | "length buf < sentinelMax" "c \<noteq> []" "\<not> prefix sentinelPrefix ?b" "\<not> prefix ?b sentinelPrefix"
    by (metis leI option.exhaust)
  then show ?case
  proof cases
    case 1
    then show ?thesis by (intro stop [where x = buf and y = "c # cs"]) simp_all
  next
    case 2
    then show ?thesis using Cons.prems(3) by (intro go) simp_all
  next
    case (3 i)
    from hs_found [OF 3(3,4)] have "\<exists>p. 7 \<notin> set p \<and> ?b = sentinelPrefix @ p @ [7] @ drop (i + 1) ?b" by blast
    then show ?thesis using 3 parsePayload_safe [OF Cons.prems(1)] by (auto simp: relayed_def safe_version_def)
  next
    case 4
    then have "7 \<notin> set ?b" unfolding index_byte_None by blast
    with 4 show ?thesis by (intro go) (simp_all add: hs_buf_def Let_def)
  next
    case 5
    then show ?thesis by (intro go) (simp_all add: hs_buf_def Let_def)
  next
    case 6
    then show ?thesis by (intro stop [where x = ?b and y = cs]) (simp_all add: Let_def)
  qed
qed

text \<open>A sentinel that fits is found however it is cut into reads.\<close>

lemma hs_loop_finds:
  assumes "buf @ concat cs = sentinelPrefix @ p @ [7] @ r" "7 \<notin> set p" "length (sentinelPrefix @ p) < sentinelMax"
    "length buf \<le> length (sentinelPrefix @ p)"
  shows "relayed (hs_loop buf cs rc) = r \<and> rc_Version (hs_loop buf cs rc) = rc_Version (parsePayload p rc) \<and>
    rc_caps (hs_loop buf cs rc) = rc_caps (parsePayload p rc)"
  using assms
proof (induction cs arbitrary: buf)
  case Nil
  then show ?case by (metis append.assoc append.right_neutral append_Nil2 concat.simps(1) length_append length_Cons
      add_Suc_right le_add1 not_less_eq_eq list.size(4))
next
  case (Cons c cs)
  let ?q = "sentinelPrefix @ p" let ?b = "buf @ c"
  have room: "length buf < sentinelMax" using Cons.prems(3,4) by simp
  have whole: "?b @ concat cs = ?q @ [7] @ r" using Cons.prems(1) by simp
  have no7: "7 \<notin> set ?q" using Cons.prems(2) by (simp add: sentinelPrefix_def str_def)
  show ?case
  proof (cases "length ?b \<le> length ?q")
    case True
    moreover have "prefix ?b (?q @ [7] @ r)" "prefix ?q (?q @ [7] @ r)" using whole by (metis prefixI)+
    ultimately have pre: "prefix ?b ?q" by (metis prefix_length_prefix)
    have alt: "prefix ?b sentinelPrefix \<or> prefix sentinelPrefix ?b" using prefix_same_cases [OF pre] by simp
    have "7 \<notin> set ?b" using no7 set_mono_prefix [OF pre] by blast
    then have "index_byte ?b 7 = None" unfolding index_byte_None .
    with alt room have "hs_loop buf (c # cs) rc = hs_loop ?b cs rc" by (cases "c = []") (auto simp: Let_def)
    then show ?thesis using Cons.IH [OF _ Cons.prems(2,3) True] whole by simp
  next
    case False
    then have "take (Suc (length ?q)) ?b = ?q @ [7]" using arg_cong [OF whole, of "take (Suc (length ?q))"] by simp
    then obtain t where t: "?b = ?q @ [7] @ t" by (metis append.assoc append_take_drop_id)
    then have ix: "index_byte ?b 7 = Some (length ?q)" using index_byte_append [OF no7, of t] by simp
    have "c \<noteq> []" "t @ concat cs = r" using False Cons.prems(4) whole t by auto
    moreover have "prefix sentinelPrefix ?b" by (simp add: t)
    ultimately show ?thesis using room ix by (simp add: t Let_def relayed_def)
  qed
qed

text \<open>
  C36: The handshake never loses or reorders a byte of a door. Whatever chunks the door sends, in
  whatever division and however long, what is replayed to the caller is either all of it, and then
  no version and no capability was taken from it; or all of it less one sentinel at its very front,
  \<open>ESC ] ABBS; \<dots> BEL\<close> with no BEL inside. And whatever the door says its version is, what is
  shown of it is at most 32 printable ASCII characters.
\<close>

theorem handshake_transparent:
  "safe_version (readHandshake reads) \<and>
   (relayed (readHandshake reads) = concat reads \<and> rc_Version (readHandshake reads) = [] \<and> rc_caps (readHandshake reads) = [] \<or>
    (\<exists>p. 7 \<notin> set p \<and> concat reads = sentinelPrefix @ p @ [7] @ relayed (readHandshake reads)))"
  unfolding readHandshake_def
  using hs_loop_stream [of "\<lparr>rc_Version = [], rc_caps = [], rc_pre = [], rc_reads = [], rc_sent = []\<rparr>" "[]" reads]
  by (simp add: safe_version_def hs_buf_def)

lemma rev_dropWhile_ends:
  "xs \<noteq> [] \<Longrightarrow> xs = rev (dropWhile P (rev ys)) \<Longrightarrow> \<not> P (last xs)"
  by (metis hd_dropWhile last_rev rev_rev_ident rev_is_Nil_conv)

lemma trim_dashes_ends:
  assumes "trim_dashes s \<noteq> []"
  shows "hd (trim_dashes s) \<noteq> 45" "last (trim_dashes s) \<noteq> 45"
proof -
  let ?P = "\<lambda>c. c = (45::byte)" let ?f = "dropWhile ?P s"
  show "last (trim_dashes s) \<noteq> 45"
    using rev_dropWhile_ends [OF assms, of ?P ?f] by (simp add: trim_dashes_def)
  have "?f = trim_dashes s @ rev (takeWhile ?P (rev ?f))"
    unfolding trim_dashes_def by (metis rev_append rev_rev_ident takeWhile_dropWhile_id)
  moreover from this assms have "?f \<noteq> []" by (metis append_is_Nil_conv)
  ultimately show "hd (trim_dashes s) \<noteq> 45" using assms hd_dropWhile [of ?P s] by (metis hd_append2)
qed

definition slug_ok :: "bytes \<Rightarrow> bool" where
  "slug_ok out \<longleftrightarrow> (\<forall>c \<in> set out. lower_alnum c \<or> c = 45)"

lemma slug_chars: "slug_ok out \<Longrightarrow> slug_ok (fold slug_add rs out)"
proof (induction rs arbitrary: out)
  case (Cons r rs)
  have "slug_ok (slug_add r out)" using Cons.prems by (auto simp: slug_add_def slug_ok_def split: list.splits)
  from Cons.IH [OF this] show ?case by simp
qed simp

lemma trim_dashes_set: "set (trim_dashes s) \<subseteq> set s"
  by (auto simp: trim_dashes_def dest!: set_dropWhileD)

text \<open>
  The name a door's files get from its title is safe as a file name, whatever the title: it is
  never empty, it is made of \<open>a-z\<close>, \<open>0-9\<close> and \<open>-\<close> only (so it is neither \<open>.\<close> nor \<open>..\<close> and holds no
  path separator), and it neither begins nor ends with a dash (so no command takes it for an option).
\<close>

theorem slugify_safe:
  "slugify ulow s \<noteq> [] \<and> (\<forall>c \<in> set (slugify ulow s). lower_alnum c \<or> c = 45) \<and>
   hd (slugify ulow s) \<noteq> 45 \<and> last (slugify ulow s) \<noteq> 45"
proof -
  let ?o = "fold slug_add (runes (ToLower ulow s)) []"
  have door: "\<forall>c \<in> set (str ''door''). lower_alnum c" by (simp add: str_def lower_alnum_def)
  have "\<forall>c \<in> set (trim_dashes ?o). lower_alnum c \<or> c = 45" using slug_chars [of "[]" "runes (ToLower ulow s)"] trim_dashes_set [of ?o]
    by (auto simp: slug_ok_def)
  with door trim_dashes_ends [of ?o] show ?thesis
    unfolding slugify_def Let_def by (cases "trim_dashes ?o = []") (simp_all add: str_def)
qed

text \<open>Different titles may share one name.\<close>

lemma slug_collision: "slugify ulow (str ''Star Wars'') = slugify ulow (str ''star/wars'')"
  by (simp add: slugify_def ToLower_def str_def lower_byte_def runes.simps rune_len.simps Let_def slug_add_def lower_alnum_def
      word_le_nat_alt word_less_nat_alt trim_dashes_def)

definition whole :: "http_resp \<Rightarrow> bool" where
  "whole r \<longleftrightarrow> hr_ok r \<and> (hr_broken r \<longrightarrow> maxBinary \<le> length (hr_body r))"

lemma tmp_path_other: "tmp_path dest \<noteq> dest"
  by (simp add: tmp_path_def str_def)

lemma save_body_fs:
  assumes "save_body r tmp s = (q, s')"
  shows "p \<noteq> tmp \<Longrightarrow> e_fs s' p = e_fs s p" "q = Inr u \<Longrightarrow> e_fs s' tmp = Some (take maxBinary (hr_body r))"
    "q = Inr u \<Longrightarrow> hr_broken r \<Longrightarrow> maxBinary \<le> length (hr_body r)"
  using assms
  by (auto simp: save_body_def chk_run os_WriteFile_def ext_def fail_def Let_def split: if_splits option.splits)

text \<open>
  C34: Installing or upgrading a door's binary is atomic. Whatever step fails, be it the request, a
  write half done, the disk filling, the connection breaking off, the change of mode or the rename,
  the file at the destination is the old one, byte for byte; when the download reports success it is
  the body the server sent, up to the 512 MiB limit, of a response with status OK that did not break
  off before; and no file but the destination and its temporary neighbour is touched.
\<close>

theorem DownloadBinary_atomic:
  assumes "DownloadBinary F url dest s = (q, s')"
  shows "(case q of
     Inl _ \<Rightarrow> e_fs s' dest = e_fs s dest
   | Inr _ \<Rightarrow> \<exists>r. fg_get F url = Inr r \<and> whole r \<and> e_fs s' dest = Some (take maxBinary (hr_body r)) \<and> e_fs s' (tmp_path dest) = None)
   \<and> (\<forall>p. p \<noteq> dest \<longrightarrow> p \<noteq> tmp_path dest \<longrightarrow> e_fs s' p = e_fs s p)"
proof (cases "fg_get F url")
  case (Inl e)
  then show ?thesis using assms by (auto simp: DownloadBinary_def fail_def)
next
  case (Inr r)
  show ?thesis
  proof (cases "hr_ok r")
    case False
    then show ?thesis using assms Inr by (auto simp: DownloadBinary_def fail_def)
  next
    case True
    obtain s1 e1 where s1: "ext ErrIO s = (e1, s1)" "e_fs s1 = e_fs s" by (cases rule: ext_cases [of ErrIO s]) auto
    obtain e2 s2 where s2: "os_WriteFile (tmp_path dest) [] s1 = (e2, s2)" by fastforce
    obtain q3 s3 where s3: "save_body r (tmp_path dest) s2 = (q3, s3)" by fastforce
    note fs2 = os_other_files(1) [of _ "tmp_path dest" "[]" s1, unfolded s2 s1(2) snd_conv]
    note fs3 = save_body_fs [OF s3]
    show ?thesis using assms Inr True s1 s2 s3 fs2 fs3 tmp_path_other [of dest]
      by (auto simp: DownloadBinary_def chk_run att_run fail_def os_Remove_def os_Rename_def ext_def whole_def
          split: sum.splits if_splits option.splits)
  qed
qed

text \<open>Every variable a door's environment can hold.\<close>

definition door_vars :: "bytes list" where
  "door_vars = [str ''PATH='', str ''HOME='', str ''TERM='', str ''DOORFILE='', str ''DOORSHARE='']"

definition limited :: "door_cmd \<Rightarrow> bool" where
  "limited c \<longleftrightarrow> 0 < dc_timeout c \<and> (\<exists>n > 0. \<exists>rest. dc_argv c = str ''/bin/sh'' # str ''-c'' #
       (str ''ulimit -t '' @ itoa n @ str '' 2>/dev/null; exec '' @ [34] @ str ''$@'' @ [34]) # rest) \<and>
     (\<forall>v \<in> set (dc_env c). \<exists>k \<in> set door_vars. prefix k v)"

lemma door_cmd_limited: "limited (door_cmd_of command args dir (limit_opts o'))"
proof -
  have "0 < op_Timeout (limit_opts o') \<and> 0 < op_CPULimit (limit_opts o')"
    by (auto simp: limit_opts_def Let_def)
  moreover have "\<forall>v \<in> set (scrubbedEnv h t sh). \<exists>k \<in> set door_vars. prefix k v" for h t sh
    by (simp add: scrubbedEnv_def door_vars_def str_def)
  ultimately show ?thesis by (auto simp: limited_def door_cmd_of_def)
qed

lemma launch_in_run:
  assumes "\<forall>c. limited c \<longrightarrow> run c = run' c"
  shows "launch_in run command args d (limit_opts o') dir = launch_in run' command args d (limit_opts o') dir"
  using assms door_cmd_limited by (simp add: launch_in_def)

text \<open>
  C35: A subprocess door runs only as the launcher meant it to. Launching depends on what the
  system would execute at sandboxed commands only: two systems that agree on those behave alike,
  so no other command is ever started. Such a command has a positive time limit, a positive CPU
  limit set by the shell before it replaces itself with the door, and an environment of the five
  variables of \<open>scrubbedEnv\<close>; none is inherited from the server.
\<close>

theorem Launch_sandboxed:
  assumes "\<forall>c. limited c \<longrightarrow> run c = run' c"
  shows "Launch run jail command args d opt = Launch run' jail command args d opt"
  unfolding Launch_def Let_def by (simp add: launch_in_run [OF assms])

text \<open>
  A private jail leaves nothing behind. When the launcher made the working directory itself,
  then however the door ended (refused, failed to write its dropfile, crashed, killed at the limit,
  or done), and whatever files it wrote there, none is left below that directory.
\<close>

theorem Launch_cleans:
  assumes "op_WorkDir opt = []" "\<forall>n. e_fs s (jail @ [47] @ n) = None"
  shows "e_fs (snd (Launch run jail command args d opt s)) (jail @ [47] @ n) = None"
proof -
  have "op_WorkDir (limit_opts opt) = []" using assms(1) by (simp add: limit_opts_def Let_def)
  then show ?thesis using assms(2)
    by (auto simp: Launch_def Let_def chk_run att_run remove_all_def ext_def split: sum.splits prod.splits)
qed

text \<open>What the host pushes to a door is the reciprocal sentinel around a name of at most 24 safe characters, or nothing.\<close>

lemma SendHandle_sent:
  obtains "SendHandle handle rc = rc"
  | h where "SendHandle handle rc = rc\<lparr>rc_sent := rc_sent rc @ sentinelPrefix @ str ''handle='' @ h @ [7]\<rparr>"
      "str ''handle'' \<in> set (rc_caps rc)" "h \<noteq> []" "length h \<le> 24" "\<forall>c \<in> set h. 0x20 \<le> c \<and> c < 0x7F"
proof (cases "str ''handle'' \<in> set (rc_caps rc) \<and> sanitizeHandle handle \<noteq> []")
  case True
  moreover have "length (sanitizeHandle handle) \<le> 24" "\<forall>c \<in> set (sanitizeHandle handle). 0x20 \<le> c \<and> c < 0x7F"
    by (auto simp: sanitizeHandle_def alnum_def word_le_nat_alt word_less_nat_alt intro: order_trans [OF length_filter_le])
  ultimately show ?thesis using that(2) by (simp add: SendHandle_def Let_def)
next
  case False
  then show ?thesis using that(1) by (auto simp: SendHandle_def Let_def)
qed

definition demo_fs :: env where
  "demo_fs = \<lparr>e_step = 0, e_fault = (\<lambda>_. False), e_torn = (\<lambda>_. None), e_clock = (\<lambda>_. 0), e_rand = (\<lambda>_. 0), e_rpos = 0,
     e_fs = Map.empty\<rparr>"

definition demo_forge :: forge where
  "demo_forge = \<lparr>fg_get = (\<lambda>_. Inr \<lparr>hr_ok = True, hr_body = [1, 2, 3], hr_broken = False\<rparr>), fg_json = (\<lambda>_. None),
     fg_os = str ''linux'', fg_arch = str ''amd64''\<rparr>"

theorem DownloadBinary_atomic_witness:
  "\<exists>s'. DownloadBinary demo_forge [] (str ''a'') demo_fs = (Inr (), s') \<and> e_fs s' (str ''a'') = Some [1, 2, 3] \<and>
     e_fs s' (str ''a.tmp'') = None \<and> e_fs s' (str ''b'') = None"
proof -
  obtain s' where run: "DownloadBinary demo_forge [] (str ''a'') demo_fs = (Inr (), s')"
    by (simp add: DownloadBinary_def demo_forge_def demo_fs_def chk_run att_run ext_def save_body_def os_WriteFile_def
        os_Rename_def tmp_path_def str_def Let_def)
  have "take maxBinary [1, 2, 3] = ([1, 2, 3] :: bytes)" by (rule take_all) (simp add: maxBinary_def)
  with DownloadBinary_atomic [OF run] have "e_fs s' (str ''a'') = Some [1, 2, 3] \<and> e_fs s' (str ''a.tmp'') = None \<and>
      e_fs s' (str ''b'') = e_fs demo_fs (str ''b'')"
    by (simp add: demo_forge_def tmp_path_def str_def)
  then show ?thesis using run by (simp add: demo_fs_def)
qed

definition demo_drop :: DropInfo where
  "demo_drop = \<lparr>di_BBSName = [], di_Handle = str ''ann'', di_RealName = [], di_AccessLevel = 10, di_MinutesLeft = 30, di_Node = 1, di_ANSI = True\<rparr>"

definition demo_opts :: opts where
  "demo_opts = \<lparr>op_Timeout = 0, op_CPULimit = 0, op_Term = [], op_WorkDir = [], op_ShareDir = [], op_RunAsUID = 0, op_RunAsGID = 0,
     op_Chroot = [], op_NoNetwork = True, op_Isolate = True\<rparr>"

theorem Launch_sandboxed_witness:
  "\<exists>run'. run' \<noteq> (\<lambda>c. if limited c then ret () else fail ErrIO) \<and>
     Launch (\<lambda>c. if limited c then ret () else fail ErrIO) [1] [2] [] demo_drop demo_opts = Launch run' [1] [2] [] demo_drop demo_opts"
proof (intro exI conjI)
  show "(\<lambda>_. ret ()) \<noteq> (\<lambda>c. if limited c then ret () else (fail ErrIO :: ('a env_scheme, unit) prog))"
  proof
    assume "(\<lambda>_. ret ()) = (\<lambda>c. if limited c then ret () else (fail ErrIO :: ('a env_scheme, unit) prog))"
    then have "(ret () :: ('a env_scheme, unit) prog) s = (if limited c then ret () else fail ErrIO) s" for c s by metis
    from this [where c = "\<lparr>dc_argv = [], dc_env = [], dc_dir = [], dc_timeout = 0, dc_cred = None, dc_chroot = [], dc_nonet = False, dc_isolate = False\<rparr>"]
    show False by (simp add: limited_def)
  qed
  show "Launch (\<lambda>c. if limited c then ret () else fail ErrIO) [1] [2] [] demo_drop demo_opts = Launch (\<lambda>_. ret ()) [1] [2] [] demo_drop demo_opts"
    by (rule Launch_sandboxed) simp
qed

text \<open>A door that writes a file of its own into the jail and then crashes.\<close>

theorem Launch_cleans_witness:
  "e_fs (snd (Launch (\<lambda>_. chk (os_WriteFile [1, 47, 9] [5]) (\<lambda>_. fail ErrIO)) [1] [2] [] demo_drop demo_opts demo_fs)) [1, 47, 9] = None \<and>
   fst (Launch (\<lambda>_. chk (os_WriteFile [1, 47, 9] [5]) (\<lambda>_. fail ErrIO)) [1] [2] [] demo_drop demo_opts demo_fs) = Inl ErrIO"
proof
  show "e_fs (snd (Launch (\<lambda>_. chk (os_WriteFile [1, 47, 9] [5]) (\<lambda>_. fail ErrIO)) [1] [2] [] demo_drop demo_opts demo_fs)) [1, 47, 9] = None"
    using Launch_cleans [of demo_opts demo_fs "[1]" _ "[2]" "[]" demo_drop "[9]"] by (simp add: demo_opts_def demo_fs_def)
  show "fst (Launch (\<lambda>_. chk (os_WriteFile [1, 47, 9] [5]) (\<lambda>_. fail ErrIO)) [1] [2] [] demo_drop demo_opts demo_fs) = Inl ErrIO"
    by (simp add: Launch_def launch_in_def limit_opts_def demo_opts_def demo_fs_def chk_run att_run ext_def WriteDoor32_def
        os_WriteFile_def remove_all_def Let_def)
qed

text \<open>
  On a Windows board the installer can pick the macOS build: its token \<open>win\<close> occurs in
  \<open>darwin\<close>, and the first asset that matches is taken.
\<close>

theorem windows_takes_darwin:
  "PickAsset id (demo_forge\<lparr>fg_os := str ''windows'', fg_arch := str ''amd64''\<rparr>) \<lparr>re_TagName = str ''v1'', re_Assets =
     [\<lparr>as_Name = str ''door-darwin-amd64'', as_URL = [1]\<rparr>, \<lparr>as_Name = str ''door-windows-amd64.exe'', as_URL = [2]\<rparr>]\<rparr> =
   Inr \<lparr>as_Name = str ''door-darwin-amd64'', as_URL = [1]\<rparr>"
proof -
  have "suits id (demo_forge\<lparr>fg_os := str ''windows'', fg_arch := str ''amd64''\<rparr>) \<lparr>as_Name = str ''door-darwin-amd64'', as_URL = [1]\<rparr>"
    by code_simp
  then show ?thesis by (simp add: PickAsset_def)
qed

end
