(* ===== verification/DoorInstall.thy ===== *)
theory DoorInstall
  imports MenuApply Doors
begin

text \<open>
  Installing resident doors, \<open>menu/doorinstall.go\<close>: fetch a release, download the binary for this
  host, record it, start it under the supervisor and register its bridge; and the relaunch of every
  recorded door when the server starts. The forge, the host's platform and the ports the system
  hands out are the arguments \<open>F\<close> and \<open>di_port\<close>.
\<close>

record DoorInstaller =
  di_binDir :: bytes
  di_dataDir :: bytes
  di_forge :: forge
  di_port :: "nat \<Rightarrow> int"

definition NewDoorInstaller :: "forge \<Rightarrow> (nat \<Rightarrow> int) \<Rightarrow> bytes \<Rightarrow> DoorInstaller" where
  "NewDoorInstaller F ports binBase = \<lparr>di_binDir = path_join binBase (str ''installed-bin''),
     di_dataDir = path_join binBase (str ''installed-data''), di_forge = F, di_port = ports\<rparr>"

definition binExt :: "forge \<Rightarrow> bytes" where
  "binExt F = (if fg_os F = str ''windows'' then str ''.exe'' else [])"

definition FreeLocalPort :: "(nat \<Rightarrow> int) \<Rightarrow> ('a env_scheme, int) prog" where
  "FreeLocalPort ports = chk (ext ErrIO) (\<lambda>_ s. (Inr (ports (e_step s)), s))"

definition local_addr :: "int \<Rightarrow> bytes" where
  "local_addr port = str ''127.0.0.1:'' @ itoa port"

text \<open>\<open>Supervisor.Launch\<close> on the caller's server; the data directory is made only for a new door.\<close>

definition sup_launch :: "bytes \<Rightarrow> bytes \<Rightarrow> bytes \<Rightarrow> bytes \<Rightarrow> ('a call_scheme, unit) prog" where
  "sup_launch name binPath dataDir addr s = (if Running name (c_sup s) then ret ()
     else att (ext ErrIO) (\<lambda>r s. case sup_Launch (r = Inr ()) name binPath dataDir addr (c_sup s) of
       (q, p) \<Rightarrow> (q, s\<lparr>c_sup := p\<rparr>))) s"

text \<open>\<open>return "", fmt.Errorf(what + ": %w", err)\<close>: the text of a failure is a value of its own.\<close>

definition or_fail :: "('ip, 'net) libs \<Rightarrow> bytes \<Rightarrow> ('s, 'x) prog \<Rightarrow> ('x \<Rightarrow> ('s, bytes + 'y) prog) \<Rightarrow> ('s, bytes + 'y) prog" where
  "or_fail L what m k = att m (\<lambda>r. case r of Inl e \<Rightarrow> ret (Inl (what @ l_err L e)) | Inr x \<Rightarrow> k x)"

definition assetNames :: "Release \<Rightarrow> bytes" where
  "assetNames r = join (str '', '') (map as_Name (re_Assets r))"

definition no_asset :: "forge \<Rightarrow> Release \<Rightarrow> bytes" where
  "no_asset F r = str ''no '' @ fg_os F @ str ''/'' @ fg_arch F @ str '' binary in release '' @ re_TagName r @ str '' '' @ dash @
     str '' assets: ['' @ assetNames r @ str '']''"

definition install_asset :: "('ip, 'net) libs \<Rightarrow> DoorInstaller \<Rightarrow> bytes \<Rightarrow> bytes \<Rightarrow> int \<Rightarrow> Release \<Rightarrow> asset
    \<Rightarrow> ('a call_scheme, bytes + bytes) prog" where
  "install_asset L I name url minLevel rel a = (let slug = slugify (l_ulow L) name in
     if slug = [] then ret (Inl (str ''door name '' @ l_quote L name @ str '' has no usable slug'')) else
     or_fail L [] (FreeLocalPort (di_port I)) (\<lambda>port.
     let addr = local_addr port; binPath = path_join (di_binDir I) (slug @ binExt (di_forge I)) in
     or_fail L (str ''download '' @ as_Name a @ str '': '') (DownloadBinary (di_forge I) (as_URL a) binPath) (\<lambda>_.
     or_fail L (str ''persist: '') (chk time_Now (\<lambda>now. installed_Upsert \<lparr>id_name = name, id_source_url = url,
         id_version = re_TagName rel, id_bin_path = binPath, id_address = addr, id_min = minLevel, id_installed_at = 0\<rparr> now)) (\<lambda>_.
     or_fail L (str ''launch: '') (sup_launch name binPath (path_join (di_dataDir I) slug) addr) (\<lambda>_.
     or_fail L (str ''register: '') (doors_EnsureResidentDoor name (str ''tcp'') addr minLevel) (\<lambda>_.
     ret (Inr (re_TagName rel))))))))"

definition Install :: "('ip, 'net) libs \<Rightarrow> DoorInstaller \<Rightarrow> bytes \<Rightarrow> bytes \<Rightarrow> int \<Rightarrow> ('a call_scheme, bytes + bytes) prog" where
  "Install L I name url minLevel = (case FetchRelease (di_forge I) url of
     Inl e \<Rightarrow> ret (Inl (str ''fetch release: '' @ l_err L e))
   | Inr rel \<Rightarrow> (case PickAsset (l_ulow L) (di_forge I) rel of
       Inl e \<Rightarrow> ret (Inl (no_asset (di_forge I) rel))
     | Inr a \<Rightarrow> install_asset L I name url minLevel rel a))"

text \<open>A missing binary is fetched again; only a failed download gives the door up.\<close>

definition refetch :: "('ip, 'net) libs \<Rightarrow> DoorInstaller \<Rightarrow> installed_row \<Rightarrow> ('a call_scheme, unit) prog" where
  "refetch L I d = att (os_Stat (id_bin_path d)) (\<lambda>r. case r of
     Inr _ \<Rightarrow> ret ()
   | Inl _ \<Rightarrow> (case FetchRelease (di_forge I) (id_source_url d) of
       Inl _ \<Rightarrow> ret ()
     | Inr rel \<Rightarrow> (case PickAsset (l_ulow L) (di_forge I) rel of
         Inl _ \<Rightarrow> ret ()
       | Inr a \<Rightarrow> DownloadBinary (di_forge I) (as_URL a) (id_bin_path d))))"

definition relaunch :: "('ip, 'net) libs \<Rightarrow> DoorInstaller \<Rightarrow> installed_row \<Rightarrow> ('a call_scheme, unit) prog" where
  "relaunch L I d = ignore (
     chk (refetch L I d) (\<lambda>_.
     chk (sup_launch (id_name d) (id_bin_path d) (path_join (di_dataDir I) (slugify (l_ulow L) (id_name d))) (id_address d)) (\<lambda>_.
     doors_EnsureResidentDoor (id_name d) (str ''tcp'') (id_address d) (id_min d))))"

definition RelaunchAll :: "('ip, 'net) libs \<Rightarrow> DoorInstaller \<Rightarrow> ('a call_scheme, unit) prog" where
  "RelaunchAll L I = att installed_List (\<lambda>r. case r of
     Inl _ \<Rightarrow> ret ()
   | Inr l \<Rightarrow> for_each (\<lambda>x. relaunch L I (snd x)) l)"

section \<open>What they keep\<close>

context db_frame
begin

lemma steps_Rename: "steps dbR (os_Rename a b)"
  by (rule steps_same; simp add: st_fixed_def os_Rename_def chk_run ext_def split: option.splits)

lemma steps_FreeLocalPort: "steps dbR (FreeLocalPort f)"
  by (rule steps_same; simp add: st_fixed_def FreeLocalPort_def chk_run ext_def)

lemma steps_DownloadBinary: "steps dbR (DownloadBinary F url dest)"
  unfolding DownloadBinary_def save_body_def by (intro db_rules steps_Rename)

end

context call_frame
begin

lemma steps_or_fail: "steps callR m \<Longrightarrow> (\<And>x. steps callR (k x)) \<Longrightarrow> steps callR (or_fail L t m k)"
  unfolding or_fail_def by (intro call.steps_rules)

lemma steps_sup_launch: "steps callR (sup_launch n b d a)"
proof -
  have "steps callR (\<lambda>s. case sup_Launch ok n b d a (c_sup s) of (q, p) \<Rightarrow> (q, s\<lparr>c_sup := p\<rparr>))" for ok
    by (auto simp: steps_def callR_def hears_def db_refl split: prod.splits)
  then show ?thesis
    by (intro steps_state [OF _ sup_launch_def] call.steps_rules steps_store [OF steps_ext])
qed

lemmas install_rules = steps_or_fail steps_sup_launch steps_FreeLocalPort [THEN steps_store] steps_DownloadBinary [THEN steps_store]
  steps_files [THEN steps_store]

end

text \<open>The frame of a SysOp's session admits every operation of the store.\<close>

lemma stmts_act: "stmt\<^sup>*\<^sup>* d d' \<Longrightarrow> memQ u True d d'"
proof (induction rule: rtranclp_induct)
  case base
  show ?case by (rule mem.db_refl)
next
  case (step b c)
  then show ?case by (auto intro: mem.db_trans [OF _ memQ_act] a_sysop)
qed

lemma ops_sysop: "steps ops.dbR m \<Longrightarrow> steps (mem.callR u True) m"
  by (rule mem.steps_store) (auto simp: steps_def ops.dbR_def mem.dbR_def stmts_act)

lemmas sysop_rules = op_steps [THEN ops_sysop] mem.screen_rules mem.install_rules

lemma Install_steps: "steps (mem.callR u True) (Install L I name url lvl)"
  unfolding Install_def install_asset_def Let_def by (intro sysop_rules)

lemma RelaunchAll_steps: "steps (mem.callR u True) (RelaunchAll L I)"
  unfolding RelaunchAll_def relaunch_def refetch_def by (intro sysop_rules)

end
