(* ===== verification/MenuSysop.thy ===== *)
theory MenuSysop
  imports DoorInstall
begin

text \<open>
  The SysOp's control panel, \<open>menu/sysop.go\<close>: the step-up password, the panel's loop and its
  screens (membership queue, users, content, door installation, audit viewer, reports, bans,
  branding and timeouts).
\<close>

section \<open>Shared\<close>

definition any_key :: "writer \<Rightarrow> ('a call_scheme, unit) prog" where
  "any_key w = chk (say w [CPrint (nl @ str ''Press any key...'')]) (\<lambda>_. chk rd_key (\<lambda>_. ret ()))"

definition title :: "int \<Rightarrow> bytes \<Rightarrow> wcall list" where
  "title c t = [CColorLine c t, CColorLine c (replicate (length t) 45)]"

text \<open>\<open>v, _ := s.ReadLine(); n, e := strconv.Atoi(strings.TrimSpace(v))\<close>.\<close>

definition read_int :: "('a call_scheme, int option) prog" where
  "read_int = chk (default [] rd_line) (\<lambda>v. ret (atoi (TrimSpace v)))"

section \<open>Installing a door\<close>

definition installed_lines :: "writer \<Rightarrow> ('a call_scheme, unit) prog" where
  "installed_lines w = chk (default [] installed_List) (\<lambda>l. if l = [] then ret () else
     chk (say w [CColorLine scr_Cyan (str ''Already installed:'')]) (\<lambda>_.
     chk (for_each (\<lambda>x. say w [CPrint (str ''  '' @ id_name (snd x) @ str '' ('' @ id_version (snd x) @ str '') @ '' @
       id_address (snd x) @ nl)]) l) (\<lambda>_.
     say w [CPrint nl])))"

definition installDoorScreen :: "('ip, 'net) libs \<Rightarrow> DoorInstaller \<Rightarrow> ('a call_scheme, unit) prog" where
  "installDoorScreen L I =
     chk scr_New (\<lambda>w.
     chk (say w ([CClear] @ title scr_Magenta (str ''Install door from release URL'') @
       [CLine (str ''The BBS downloads the binary built for THIS server'' @ apos @ str ''s OS/arch, runs it''),
        CLine (str ''supervised, and registers it. Only install doors you trust.''), CPrint nl])) (\<lambda>_.
     chk (installed_lines w) (\<lambda>_.
     chk (say w (ask (str ''Door name (blank to cancel): ''))) (\<lambda>_.
     chk rd_line (\<lambda>n0. let name = TrimSpace n0 in
     if name = [] then ret () else
     chk (say w (ask (str ''Release URL (forge releases JSON, e.g. .../releases/latest): ''))) (\<lambda>_.
     chk rd_line (\<lambda>u0. let url = TrimSpace u0 in
     if url = [] then
       chk (say w [CColorLine scr_Red (str ''No URL '' @ dash @ str '' cancelled.'')]) (\<lambda>_. ignore rd_key)
     else
     chk (say w (ask (str ''Min access level [0]: ''))) (\<lambda>_.
     chk rd_line (\<lambda>lvl. let minLevel = (case atoi (TrimSpace lvl) of None \<Rightarrow> 0 | Some v \<Rightarrow> v) in
     chk (say w [CColorLine scr_Cyan (str ''Fetching + downloading '' @ dash @ str '' this can take a moment...'')]) (\<lambda>_.
     chk (Activity L (str ''door-install'') (name @ str '' <- '' @ url)) (\<lambda>_.
     chk (Install L I name url minLevel) (\<lambda>r.
     chk (case r of
         Inl e \<Rightarrow> say w [CColorLine scr_Red (str ''Install failed: '' @ e)]
       | Inr ver \<Rightarrow> say w [CColorLine scr_Green (str ''Installed + launched: '' @ name @ str '' '' @ ver @ str '' '' @ dash @
           str '' callers can play it now.'')]) (\<lambda>_.
     ignore rd_key)))))))))))))"

section \<open>The membership queue\<close>

definition pending_line :: "writer \<Rightarrow> int \<times> Membership \<Rightarrow> ('a call_scheme, unit) prog" where
  "pending_line w x = (case x of (i, m) \<Rightarrow>
     chk (say w [CColor scr_Yellow, CPrint (str ''  '' @ itoa i @ str '') ''), CColor scr_White]) (\<lambda>_.
     chk (handle (M_UserID m)) (\<lambda>h.
     say w [CSafe h, CReset, CPrint (str ''  '' @ dash @ str '' ''), CSafe (firstLine (M_Note m)), CPrint nl])))"

definition member_approve :: "('ip, 'net) libs \<Rightarrow> User \<Rightarrow> writer \<Rightarrow> Membership \<Rightarrow> ('a call_scheme, unit) prog" where
  "member_approve L sysop w m =
     chk (say w (ask (nl @ str ''Access level [50]: ''))) (\<lambda>_.
     chk read_int (\<lambda>v. let level = (case v of Some v \<Rightarrow> if v > 0 then v else 50 | None \<Rightarrow> 50) in
     chk (users_Approve (M_UserID m) level) (\<lambda>_.
     chk (memberships_Review (M_ID m) (U_ID sysop) DecisionApproved (str ''approved via control panel'')) (\<lambda>_.
     chk (tokens_Issue (M_UserID m)) (\<lambda>tok.
     chk (handle (M_UserID m)) (\<lambda>h.
     chk (Activity L (str ''member-approve'') h) (\<lambda>_.
     say w [CPrint nl, CColorLine scr_Cyan (str ''Approved. ONE-TIME TOKEN (relay out-of-band, e.g. PGP email):''),
       CColor scr_Yellow, CPrint (str ''    '' @ tok @ nl), CReset,
       CLine (str ''They set their password with this on first SSH login. It is shown once.'')])))))))"

definition member_deny :: "('ip, 'net) libs \<Rightarrow> User \<Rightarrow> writer \<Rightarrow> Membership \<Rightarrow> ('a call_scheme, unit) prog" where
  "member_deny L sysop w m =
     chk (users_SetStatus (M_UserID m) StatusDenied 0) (\<lambda>_.
     chk (ignore (memberships_Review (M_ID m) (U_ID sysop) DecisionDenied (str ''denied via control panel''))) (\<lambda>_.
     chk (handle (M_UserID m)) (\<lambda>h.
     chk (Activity L (str ''member-deny'') h) (\<lambda>_.
     say w [CColorLine scr_Red (nl @ str ''Denied.'')]))))"

definition membershipQueue :: "('ip, 'net) libs \<Rightarrow> User \<Rightarrow> ('a call_scheme, unit) prog" where
  "membershipQueue L sysop =
     chk newHandleCache (\<lambda>_.
     chk scr_New (\<lambda>w.
     chk (say w [CClear, CColorLine scr_Cyan (str ''Pending Membership Applications'')]) (\<lambda>_.
     chk memberships_Pending (\<lambda>pending.
     if pending = [] then chk (say w [CLine (str ''  (none)'')]) (\<lambda>_. any_key w)
     else
     chk (for_each (pending_line w) (numbered pending)) (\<lambda>_.
     chk (say w (ask (nl @ str ''Approve/deny # (or [Q]): ''))) (\<lambda>_.
     chk rd_line (\<lambda>inp. case pick (TrimSpace inp) pending of
       None \<Rightarrow> ret ()
     | Some m \<Rightarrow>
       chk (say w [CPrint (str ''[A]pprove or [D]eny? '')]) (\<lambda>_.
       chk rd_key (\<lambda>dec.
       if lower_byte dec = 97 then chk (member_approve L sysop w m) (\<lambda>_. any_key w)
       else if lower_byte dec = 100 then chk (member_deny L sysop w m) (\<lambda>_. any_key w)
       else ret ())))))))))"

section \<open>Users\<close>

definition user_line :: "writer \<Rightarrow> int \<times> User \<Rightarrow> ('a call_scheme, unit) prog" where
  "user_line w x = (case x of (i, u) \<Rightarrow>
     say w [CPrint (str ''  '' @ itoa i @ str '') '' @ pad_right 16 (trunc (U_Handle u) 16) @ str '' '' @ pad_right 9 (U_Status u) @
       str '' lvl:'' @ pad_right 3 (itoa (U_AccessLevel u)) @ str '' '' @ itoa (U_DailyMinutes u) @ str ''min/day  '' @
       itoa (U_Points u) @ str ''pts'' @ nl)])"

definition award_points :: "('ip, 'net) libs \<Rightarrow> writer \<Rightarrow> User \<Rightarrow> ('a call_scheme, unit) prog" where
  "award_points L w u =
     chk (say w [CPrint (nl @ str ''Points to award '' @ U_Handle u @ str '' (negative to dock): '')]) (\<lambda>_.
     chk read_int (\<lambda>v. case v of None \<Rightarrow> ret () | Some delta \<Rightarrow>
       if delta = 0 then ret () else
       att (users_AddPoints (U_ID u) delta) (\<lambda>r. case r of
         Inl e \<Rightarrow> say w [CColorLine scr_Red (str ''could not update points'')]
       | Inr tot \<Rightarrow>
           chk (Activity L (str ''award-points'') (plus_d delta @ str '' -> '' @ itoa tot @ str '' for '' @ U_Handle u)) (\<lambda>_.
           say w [CColorLine scr_Cyan (str ''Awarded '' @ plus_d delta @ str ''. New total: '' @ itoa tot @ str ''.'')]))))"

definition set_number :: "writer \<Rightarrow> bytes \<Rightarrow> (int \<Rightarrow> ('a call_scheme, unit) prog) \<Rightarrow> ('a call_scheme, unit) prog" where
  "set_number w label f = chk (say w [CPrint (nl @ label)]) (\<lambda>_.
     chk read_int (\<lambda>v. case v of None \<Rightarrow> ret () | Some n \<Rightarrow>
       chk (ignore (f n)) (\<lambda>_. say w [CColorLine scr_Cyan (str ''Updated.'')])))"

definition user_cmd :: "('ip, 'net) libs \<Rightarrow> writer \<Rightarrow> User \<Rightarrow> byte \<Rightarrow> ('a call_scheme, unit) prog" where
  "user_cmd L w u k =
     (if k = 97 then award_points L w u
      else if k = 108 then set_number w (str ''New access level: '') (users_SetStatus (U_ID u) (U_Status u))
      else if k = 115 then chk (ignore (users_SetStatus (U_ID u) StatusSuspended (U_AccessLevel u))) (\<lambda>_.
        say w [CColorLine scr_Red (nl @ str ''Suspended.'')])
      else if k = 114 then chk (ignore (users_SetStatus (U_ID u) StatusApproved (U_AccessLevel u))) (\<lambda>_.
        say w [CColorLine scr_Cyan (nl @ str ''Reinstated.'')])
      else if k = 116 then set_number w (str ''Daily minutes: '') (users_SetDailyMinutes (U_ID u))
      else if k = 112 then chk (ignore (users_SetPassword (U_ID u) [])) (\<lambda>_.
        say w [CColorLine scr_Cyan (nl @ str ''Password cleared '' @ dash @ str '' they re-onboard on next login.'')])
      else ret ())"

definition userManagement :: "('ip, 'net) libs \<Rightarrow> ('a call_scheme, unit) prog" where
  "userManagement L =
     chk scr_New (\<lambda>w.
     chk (say w [CClear, CColorLine scr_Cyan (str ''Users'')]) (\<lambda>_.
     chk users_All (\<lambda>users.
     chk (for_each (user_line w) (numbered users)) (\<lambda>_.
     chk (say w (ask (nl @ str ''User # to manage (or [Q]): ''))) (\<lambda>_.
     chk rd_line (\<lambda>inp. case pick (TrimSpace inp) users of
       None \<Rightarrow> ret ()
     | Some u \<Rightarrow>
       chk (say w [CPrint (nl @ str ''[L]evel  [S]uspend  [R]einstate  [T]ime budget  [A]ward points  [P] clear password  [Q]: '')]) (\<lambda>_.
       chk rd_key (\<lambda>key. chk (user_cmd L w u (lower_byte key)) (\<lambda>_. any_key w)))))))))"

section \<open>Areas and doors\<close>

definition register_door :: "writer \<Rightarrow> bytes \<Rightarrow> ('a call_scheme, unit) prog" where
  "register_door w name =
     chk (say w (ask (nl @ str ''[s]ubprocess door or [r]esident multiplayer server? ''))) (\<lambda>_.
     chk (default 0 rd_key) (\<lambda>k.
     if lower_byte k = 114 then
       chk (prompt w (str ''Game address (host:port): '')) (\<lambda>addr. if addr = [] then ret () else
         chk (ignore (doors_CreateResident name (str ''tcp'') addr 0)) (\<lambda>_.
         say w [CColorLine scr_Cyan (str ''Registered resident (multiplayer) door.'')]))
     else
       chk (prompt w (str ''Command (path): '')) (\<lambda>cmd. if cmd = [] then ret () else
         chk (ignore (doors_Create name cmd (str ''door32.sys'') 0)) (\<lambda>_.
         say w [CColorLine scr_Cyan (str ''Registered.'')]))))"

definition contentManagement :: "('a call_scheme, unit) prog" where
  "contentManagement =
     chk scr_New (\<lambda>w.
     chk (say w [CClear, CPrint (str ''[1] message area  [2] file area  [3] register door  [Q]: '')]) (\<lambda>_.
     chk rd_key (\<lambda>k.
     if k = 49 then
       chk (prompt w (str ''Area name: '')) (\<lambda>name.
       chk (prompt w (str ''Description: '')) (\<lambda>desc.
       chk (if name = [] then ret () else chk (ignore (areas_Create name desc 0)) (\<lambda>_.
         say w [CColorLine scr_Cyan (str ''Created.'')])) (\<lambda>_. any_key w)))
     else if k = 50 then
       chk (prompt w (str ''File area name: '')) (\<lambda>name.
       chk (if name = [] then ret () else chk (ignore (fareas_Create name 0)) (\<lambda>_.
         say w [CColorLine scr_Cyan (str ''Created.'')])) (\<lambda>_. any_key w))
     else if k = 51 then
       chk (prompt w (str ''Door name: '')) (\<lambda>name.
       chk (if name = [] then ret () else register_door w name) (\<lambda>_. any_key w))
     else ret ())))"

section \<open>The audit viewer\<close>

definition auditPageSize :: int where "auditPageSize = 15"

definition chain_summary :: "('ip, 'net) libs \<Rightarrow> bytes \<Rightarrow> ('a call_scheme, int \<times> bytes) prog" where
  "chain_summary L path s = (if path = [] then (Inr (scr_Green, []), s) else
     case VerifyAuditChain (l_json L) path s of ((n, err), s') \<Rightarrow> (Inr (case err of
         Some e \<Rightarrow> (scr_Red, str ''CHAIN VERIFY FAILED '' @ dash @ str '' possible tampering: '' @ l_err L e)
       | None \<Rightarrow> (scr_Green, str ''Authoritative JSONL chain verified intact: '' @ itoa (int n) @ str '' events.'')), s'))"

definition event_line :: "writer \<Rightarrow> event \<Rightarrow> ('a call_scheme, unit) prog" where
  "event_line w e = say w [CPrint (str ''  '' @ fmt_short (ev_Time e) @ str '' '' @ pad_right 10 (trunc (ev_Username e) 10) @ str '' '' @
     pad_right 12 (trunc (ev_SessionID e) 12) @ str '' '' @ pad_right 9 (ev_Type e) @ str '' ''), CSafe (ev_Action e), CPrint nl]"

definition anomaly_line :: "writer \<Rightarrow> int \<times> anomaly_row \<Rightarrow> ('a call_scheme, unit) prog" where
  "anomaly_line w x = (case x of (_, a) \<Rightarrow> chk (handle (an_user_id a)) (\<lambda>h.
     say w [CPrint (str ''  '' @ fmt_short (an_at a) @ str '' '' @ pad_right 10 (trunc h 10) @ str '' '' @ an_prev_ip a @ str '' -> '' @
       an_new_ip a @ str '' after '' @ itoa (an_gap a) @ str ''s'' @ nl)]))"

definition audit_screen :: "writer \<Rightarrow> int \<Rightarrow> int \<Rightarrow> int \<Rightarrow> int \<times> bytes \<Rightarrow> (int \<times> anomaly_row) list \<Rightarrow> event list \<Rightarrow> ('a call_scheme, unit) prog" where
  "audit_screen w tot totalPages page summary anomalies events =
     chk (say w [CClear, CColorLine scr_Cyan (str ''Audit Log '' @ dash @ str '' page '' @ itoa (page + 1) @ str ''/'' @ itoa totalPages @
       str ''  (events '' @ itoa (page * auditPageSize + 1) @ str ''-'' @ itoa (page * auditPageSize + int (length events)) @ str '' of '' @
       itoa tot @ str '', newest first)'')]) (\<lambda>_.
     chk (for_each (event_line w) events) (\<lambda>_.
     chk (if events = [] then say w [CLine (str ''  (no events on this page)'')] else ret ()) (\<lambda>_.
     chk (if anomalies = [] then ret () else
       chk (say w [CPrint nl, CColorLine scr_Yellow (str ''Rapid IP changes (review '' @ dash @ str '' not auto-blocked):'')]) (\<lambda>_.
       for_each (anomaly_line w) anomalies)) (\<lambda>_.
     say w ([CPrint nl] @ (if snd summary = [] then [] else [CColorLine (fst summary) (snd summary)]) @
       [CPrint nl, CColorLine scr_White (str ''[N]ext page  [P]rev  [F] +10 pages  [R] -10 pages  [Q] exit'')] @
       ask (str ''Choice: ''))))))"

text \<open>Which page a key leads to; \<open>None\<close> leaves the viewer.\<close>

definition audit_turn :: "byte \<Rightarrow> int \<Rightarrow> int \<Rightarrow> int option" where
  "audit_turn k totalPages page =
     (if k = 113 \<or> k = 81 \<or> k = 120 \<or> k = 88 then None
      else let p = (if k = 110 \<or> k = 78 \<or> k = 13 \<or> k = 10 \<or> k = 32 then page + 1
          else if k = 112 \<or> k = 80 then page - 1
          else if k = 102 \<or> k = 70 \<or> k = 62 \<or> k = 43 then page + 10
          else if k = 114 \<or> k = 82 \<or> k = 60 \<or> k = 45 then page - 10 else page);
        q = (if p > totalPages - 1 then totalPages - 1 else p) in
      Some (if q < 0 then 0 else q))"

definition audit_round :: "writer \<Rightarrow> int \<Rightarrow> int \<Rightarrow> int \<times> bytes \<Rightarrow> (int \<times> anomaly_row) list \<Rightarrow> int \<Rightarrow> ('a call_scheme, unit + int) prog" where
  "audit_round w tot totalPages summary anomalies page =
     chk (slog_Page auditPageSize (page * auditPageSize)) (\<lambda>events.
     chk (audit_screen w tot totalPages page summary anomalies events) (\<lambda>_.
     chk rd_key (\<lambda>k. case audit_turn k totalPages page of None \<Rightarrow> leave () | Some p \<Rightarrow> again p)))"

definition audit_pages :: "int \<Rightarrow> int" where
  "audit_pages tot = (let p = (tot + auditPageSize - 1) div auditPageSize in if p < 1 then 1 else p)"

definition auditViewer :: "('ip, 'net) libs \<Rightarrow> bytes \<Rightarrow> ('a call_scheme, unit) prog" where
  "auditViewer L auditPath =
     chk scr_New (\<lambda>w.
     chk slog_Count (\<lambda>tot.
     chk (chain_summary L auditPath) (\<lambda>summary.
     chk (default [] (anomalies_Recent 5)) (\<lambda>anomalies.
     chk newHandleCache (\<lambda>_.
     for_loop (audit_round w (int tot) (audit_pages (int tot)) summary anomalies) 0)))))"

section \<open>Reports and bans\<close>

definition report_line :: "writer \<Rightarrow> int \<times> int \<times> report_row \<Rightarrow> ('a call_scheme, unit) prog" where
  "report_line w x = (case x of (i, _, r) \<Rightarrow>
     chk (say w [CColor scr_Yellow, CPrint (str ''  '' @ itoa i @ str '') ''), CColor scr_White]) (\<lambda>_.
     chk (handle (rp_reporter r)) (\<lambda>h.
     chk (say w [CPrint (h @ str '' reported '')]) (\<lambda>_.
     chk (handle (rp_target r)) (\<lambda>t.
     say w [CSafe t, CReset, CPrint (str ''  ['' @ rp_context r @ str ''] ''), CSafe (firstLine (rp_note r)), CPrint nl])))))"

definition report_act :: "('ip, 'net) libs \<Rightarrow> User \<Rightarrow> writer \<Rightarrow> int \<times> report_row \<Rightarrow> byte \<Rightarrow> ('a call_scheme, unit) prog" where
  "report_act L sysop w x k = (case x of (i, r) \<Rightarrow>
     if k = 115 then
       chk (att (users_ByID (rp_target r)) (\<lambda>q. case q of
           Inl e \<Rightarrow> ret ()
         | Inr u \<Rightarrow> chk (ignore (users_SetStatus (U_ID u) StatusSuspended (U_AccessLevel u))) (\<lambda>_.
             say w [CColorLine scr_Red (nl @ str ''User suspended.'')]))) (\<lambda>_.
       chk (ignore (reports_Resolve i (U_ID sysop))) (\<lambda>_.
       chk (handle (rp_target r)) (\<lambda>h.
       chk (Activity L (str ''report-resolve'') (str ''suspend '' @ h)) (\<lambda>_. any_key w))))
     else if k = 114 then
       chk (ignore (reports_Resolve i (U_ID sysop))) (\<lambda>_.
       chk (say w [CColorLine scr_Cyan (nl @ str ''Resolved.'')]) (\<lambda>_.
       chk (handle (rp_target r)) (\<lambda>h.
       chk (Activity L (str ''report-resolve'') (str ''noaction '' @ h)) (\<lambda>_. any_key w))))
     else ret ())"

definition reportsQueue :: "('ip, 'net) libs \<Rightarrow> User \<Rightarrow> ('a call_scheme, unit) prog" where
  "reportsQueue L sysop =
     chk newHandleCache (\<lambda>_.
     chk scr_New (\<lambda>w.
     chk (say w [CClear, CColorLine scr_Magenta (str ''Abuse Reports '' @ dash @ str '' open''),
       CColorLine scr_Magenta (str ''--------------------'')]) (\<lambda>_.
     chk reports_Open (\<lambda>open.
     if open = [] then chk (say w [CLine (str ''  (no open reports)'')]) (\<lambda>_. any_key w)
     else
     chk (for_each (report_line w) (numbered open)) (\<lambda>_.
     chk (say w (ask (nl @ str ''Report # to act on (or [Q]): ''))) (\<lambda>_.
     chk rd_line (\<lambda>inp. case pick (TrimSpace inp) open of
       None \<Rightarrow> ret ()
     | Some r \<Rightarrow>
       chk (handle (rp_target (snd r))) (\<lambda>h.
       chk (say w [CPrint (nl @ str ''[S]uspend '' @ h @ str ''  [R]esolve (no action)  [Q]: '')]) (\<lambda>_.
       chk rd_key (\<lambda>k. report_act L sysop w r (lower_byte k)))))))))))"

definition ban_line :: "writer \<Rightarrow> int \<times> int \<times> ban_row \<Rightarrow> ('a call_scheme, unit) prog" where
  "ban_line w x = (case x of (i, _, b) \<Rightarrow>
     say w [CPrint (str ''  '' @ itoa i @ str '') '' @ pad_right 20 (b_pattern b) @ str '' ''), CSafe (firstLine (b_reason b)), CPrint nl])"

definition ban_add :: "('ip, 'net) libs \<Rightarrow> User \<Rightarrow> writer \<Rightarrow> ('a call_scheme, unit) prog" where
  "ban_add L sysop w =
     chk (prompt w (str ''IP or CIDR (e.g. 203.0.113.7 or 203.0.113.0/24): '')) (\<lambda>pattern. if pattern = [] then ret () else
     chk (prompt w (str ''Reason: '')) (\<lambda>reason.
     att (bans_Add (l_net L) pattern reason (U_ID sysop)) (\<lambda>r. case r of
       Inl e \<Rightarrow> say w [CColorLine scr_Red (str ''  [x] '' @ l_err L e)]
     | Inr _ \<Rightarrow> chk (say w [CColorLine scr_Cyan (str ''  [ok] banned '' @ dash @
           str '' new connections from there are dropped at accept'')]) (\<lambda>_. Activity L (str ''ip-ban'') pattern))))"

definition ban_lift :: "('ip, 'net) libs \<Rightarrow> writer \<Rightarrow> (int \<times> ban_row) list \<Rightarrow> ('a call_scheme, unit) prog" where
  "ban_lift L w active =
     (if active = [] then ret () else
     chk (prompt w (str ''Number to lift (or blank to cancel): '')) (\<lambda>inp. case pick (TrimSpace inp) active of
       None \<Rightarrow> ret ()
     | Some b \<Rightarrow> att (bans_Lift (fst b)) (\<lambda>r. case r of
           Inl e \<Rightarrow> say w [CColorLine scr_Red (str ''  [x] could not lift'')]
         | Inr _ \<Rightarrow> chk (say w [CColorLine scr_Cyan (str ''  [ok] ban lifted'')]) (\<lambda>_.
             Activity L (str ''ip-unban'') (b_pattern (snd b))))))"

definition banManagement :: "('ip, 'net) libs \<Rightarrow> User \<Rightarrow> ('a call_scheme, unit) prog" where
  "banManagement L sysop =
     chk scr_New (\<lambda>w.
     chk (say w ([CClear] @ title scr_Magenta (str ''IP Banlist''))) (\<lambda>_.
     chk bans_Active (\<lambda>active.
     chk (if active = [] then say w [CLine (str ''  (no active bans)'')] else ret ()) (\<lambda>_.
     chk (for_each (ban_line w) (numbered active)) (\<lambda>_.
     chk (say w (ask (nl @ str ''[A]dd ban  [L]ift ban  [Q]uit: ''))) (\<lambda>_.
     chk rd_key (\<lambda>k.
     if lower_byte k = 97 then chk (ban_add L sysop w) (\<lambda>_. any_key w)
     else if lower_byte k = 108 then chk (ban_lift L w active) (\<lambda>_. any_key w)
     else ret ())))))))"

section \<open>Timeouts and branding\<close>

definition promptMinutes :: "writer \<Rightarrow> bytes \<Rightarrow> ('a call_scheme, int option) prog" where
  "promptMinutes w label = chk (prompt w label) (\<lambda>v0. let v = TrimSpace v0 in
     if v = [] then ret None else
     case atoi v of
       Some n \<Rightarrow> if n \<le> 0 then chk (say w [CColorLine scr_Red (str ''Enter a positive number of minutes.'')]) (\<lambda>_.
           chk (ignore rd_key) (\<lambda>_. ret None))
         else ret (Some n)
     | None \<Rightarrow> chk (say w [CColorLine scr_Red (str ''Enter a positive number of minutes.'')]) (\<lambda>_.
           chk (ignore rd_key) (\<lambda>_. ret None)))"

definition set_minutes :: "writer \<Rightarrow> bytes \<Rightarrow> bytes \<Rightarrow> ('a call_scheme, unit) prog" where
  "set_minutes w label key = chk (promptMinutes w label) (\<lambda>r. case r of
     None \<Rightarrow> ret ()
   | Some n \<Rightarrow> chk (ignore (settings_Set key (itoa n))) (\<lambda>_.
       chk (say w [CColorLine scr_Cyan (str ''Updated '' @ dash @ str '' applies to new sessions.'')]) (\<lambda>_. ignore rd_key)))"

definition editTimeouts :: "('a call_scheme, unit) prog" where
  "editTimeouts =
     chk scr_New (\<lambda>w.
     chk (say w ([CClear] @ title scr_Magenta (str ''Session Timeouts''))) (\<lambda>_.
     chk (settings_IdleMinutes 10) (\<lambda>idle.
     chk (say w [CPrint (str ''  Idle disconnect: '' @ itoa idle @ str '' min'' @ nl)]) (\<lambda>_.
     chk (settings_DailyMinutes 60) (\<lambda>daily.
     chk (say w ([CPrint (str ''  Daily budget:    '' @ itoa daily @ str '' min  (members without a per-user override)'' @ nl)] @
       ask (nl @ str ''Edit [I]dle  [D]aily  [Q]uit: ''))) (\<lambda>_.
     chk rd_key (\<lambda>k.
     if lower_byte k = 105 then set_minutes w (str ''New idle timeout in minutes (blank to cancel): '') (str ''idle_minutes'')
     else if lower_byte k = 100 then set_minutes w (str ''New daily budget in minutes (blank to cancel): '') (str ''daily_minutes'')
     else ret ())))))))"

definition set_text :: "writer \<Rightarrow> bytes \<Rightarrow> bytes \<Rightarrow> ('a call_scheme, unit) prog" where
  "set_text w label key = chk (prompt w label) (\<lambda>v. if v = [] then ret () else
     chk (ignore (settings_Set key v)) (\<lambda>_. say w [CColorLine scr_Cyan (str ''Updated.'')]))"

definition editSettings :: "('a call_scheme, unit) prog" where
  "editSettings =
     chk scr_New (\<lambda>w.
     chk (say w ([CClear] @ title scr_Magenta (str ''Branding & MOTD''))) (\<lambda>_.
     chk settings_BBSName (\<lambda>name.
     chk (say w [CPrint (str ''  Name:    '' @ name @ nl)]) (\<lambda>_.
     chk settings_Tagline (\<lambda>tagline.
     chk (say w [CPrint (str ''  Tagline: '' @ tagline @ nl)]) (\<lambda>_.
     chk settings_MOTD (\<lambda>m0. let motd = (if m0 = [] then str ''(none)'' else m0) in
     chk (say w ([CPrint (str ''  MOTD:    ''), CSafe (firstLine motd), CPrint nl] @
       ask (nl @ str ''Edit [N]ame  [T]agline  [M]OTD  [Q]uit: ''))) (\<lambda>_.
     chk rd_key (\<lambda>k.
     if lower_byte k = 110 then
       chk (set_text w (str ''New BBS name (blank to cancel): '') (str ''bbs_name'')) (\<lambda>_. any_key w)
     else if lower_byte k = 116 then
       chk (set_text w (str ''New tagline (blank to cancel): '') (str ''tagline'')) (\<lambda>_. any_key w)
     else if lower_byte k = 109 then
       chk (say w (ask (nl @ str ''Enter the MOTD. End with a single '' @ apos @ str ''.'' @ apos @ str '' on its own line; a lone '' @
         apos @ str ''.'' @ apos @ str '' clears it.'' @ nl))) (\<lambda>_.
       chk dot_lines (\<lambda>lines.
       chk (ignore (settings_Set (str ''motd'') (join [10] lines))) (\<lambda>_.
       chk (say w [CColorLine scr_Cyan (str ''MOTD updated.'')]) (\<lambda>_. any_key w))))
     else ret ())))))))))"

section \<open>The panel\<close>

definition panel_screen :: "writer \<Rightarrow> bool \<Rightarrow> ('a call_scheme, unit) prog" where
  "panel_screen w installs =
     chk (say w ([CClear] @ title scr_Magenta (str ''SysOp Control Panel''))) (\<lambda>_.
     chk (default [] memberships_Pending) (\<lambda>pending.
     chk (say w ([CPrint (str ''  [M] Membership queue ('' @ itoa (int (length pending)) @ str '' pending)'' @ nl),
         CLine (str ''  [U] User management''), CLine (str ''  [C] Create area / register door'')] @
       (if installs then [CLine (str ''  [I] Install door from release URL'')] else []) @
       [CLine (str ''  [A] Audit log viewer''), CLine (str ''  [B] IP banlist'')])) (\<lambda>_.
     chk (default 0 reports_OpenCount) (\<lambda>n.
     say w ([CPrint (str ''  [R] Abuse reports ('' @ itoa (int n) @ str '' open)'' @ nl),
         CLine (str ''  [S] Branding & MOTD''), CLine (str ''  [T] Session timeouts''), CLine (str ''  [Q] Back to main menu'')] @
       ask (nl @ str ''Choice: ''))))))"

definition panel_cmd :: "('ip, 'net) libs \<Rightarrow> User \<Rightarrow> bytes \<Rightarrow> DoorInstaller option \<Rightarrow> byte \<Rightarrow> ('a call_scheme, unit + unit) prog" where
  "panel_cmd L u auditPath installer k =
     (if k = 109 then chk (membershipQueue L u) again
      else if k = 117 then chk (userManagement L) again
      else if k = 99 then chk contentManagement again
      else if k = 105 then chk (case installer of None \<Rightarrow> ret () | Some I \<Rightarrow> installDoorScreen L I) again
      else if k = 97 then chk (auditViewer L auditPath) again
      else if k = 98 then chk (banManagement L u) again
      else if k = 114 then chk (reportsQueue L u) again
      else if k = 115 then chk editSettings again
      else if k = 116 then chk editTimeouts again
      else if k = 113 \<or> k = 120 then leave ()
      else again ())"

definition panel_round :: "('ip, 'net) libs \<Rightarrow> User \<Rightarrow> bytes \<Rightarrow> DoorInstaller option \<Rightarrow> unit \<Rightarrow> ('a call_scheme, unit + unit) prog" where
  "panel_round L u auditPath installer _ =
     chk scr_New (\<lambda>w.
     chk (panel_screen w (installer \<noteq> None)) (\<lambda>_.
     chk rd_key (\<lambda>key. panel_cmd L u auditPath installer (lower_byte key))))"

definition sysop_panel :: "('ip, 'net) libs \<Rightarrow> User \<Rightarrow> bytes \<Rightarrow> DoorInstaller option \<Rightarrow> ('a call_scheme, unit) prog" where
  "sysop_panel L u auditPath installer = for_loop (panel_round L u auditPath installer) ()"

definition RunSysOp :: "('ip, 'net) libs \<Rightarrow> User \<Rightarrow> bytes \<Rightarrow> bytes \<Rightarrow> DoorInstaller option \<Rightarrow> ('a call_scheme, unit) prog" where
  "RunSysOp L u auditPath sysopPass installer =
     (if U_AccessLevel u < CoSysOpLevel then ret ()
      else if sysopPass = [] then sysop_panel L u auditPath installer
      else
        chk scr_New (\<lambda>w.
        chk (say w (ask (nl @ str ''SysOp panel password: ''))) (\<lambda>_.
        chk rd_password (\<lambda>entered.
        if \<not> sysopPassOK entered sysopPass then
          chk (Activity L (str ''sysop-gate-failed'') []) (\<lambda>_.
          chk (say w [CColorLine scr_Red (str ''Denied.'')]) (\<lambda>_. ignore rd_key))
        else chk (Activity L (str ''sysop-gate-ok'') []) (\<lambda>_. sysop_panel L u auditPath installer)))))"

section \<open>What the panel keeps\<close>

context call_frame
begin

lemma steps_chain_summary: "steps callR (chain_summary L path)"
  unfolding steps_def
proof (intro allI)
  fix s :: "'a call_scheme"
  have "callR s (snd (os_ReadFile path s))" by (rule steps_store [OF steps_files(1), unfolded steps_def, rule_format])
  then show "callR s (snd (chain_summary L path s))"
    by (auto simp: chain_summary_def VerifyAuditChain_def ReadAll_def call.frame_refl split: prod.splits sum.splits)
qed

lemma steps_panel_parts:
  "steps callR (any_key w)" "steps callR read_int" "steps callR (installed_lines w)" "steps callR (promptMinutes w t)"
  "(\<And>n. steps callR (f n)) \<Longrightarrow> steps callR (set_number w t f)"
  "steps callR (pending_line w pl)" "steps callR (user_line w ul)" "steps callR (report_line w rl)" "steps callR (ban_line w bl)"
  "steps callR (audit_screen w n ps p sm ans evs)" "steps callR (panel_screen w b)"
  unfolding any_key_def read_int_def installed_lines_def promptMinutes_def set_number_def pending_line_def user_line_def report_line_def
    ban_line_def audit_screen_def event_line_def anomaly_line_def panel_screen_def Let_def
  by (intro screen_rules | assumption)+

lemma steps_auditViewer: "steps callR (auditViewer L path)"
  unfolding auditViewer_def audit_round_def by (intro screen_rules steps_chain_summary steps_panel_parts)

end

lemma panel_screens:
  "steps (mem.callR v True) (installDoorScreen L I)" "steps (mem.callR v True) (membershipQueue L u)"
  "steps (mem.callR v True) (userManagement L)" "steps (mem.callR v True) contentManagement"
  "steps (mem.callR v True) (banManagement L u)" "steps (mem.callR v True) (reportsQueue L u)"
  "steps (mem.callR v True) editSettings" "steps (mem.callR v True) editTimeouts"
  unfolding installDoorScreen_def membershipQueue_def member_approve_def member_deny_def userManagement_def user_cmd_def
    award_points_def contentManagement_def register_door_def banManagement_def ban_add_def ban_lift_def reportsQueue_def
    report_act_def editSettings_def set_text_def editTimeouts_def set_minutes_def Let_def
  by (intro sysop_rules mem.steps_panel_parts Install_steps)+

lemma panel_steps: "steps (mem.callR v True) (sysop_panel L u path inst)"
  unfolding sysop_panel_def panel_round_def panel_cmd_def
  by (intro sysop_rules panel_screens mem.steps_panel_parts mem.steps_auditViewer)

lemma panel_loops: "eats (panel_round L u path inst)" "eats (audit_round w n ps sm ans)"
  unfolding eats_def panel_round_def panel_cmd_def audit_round_def
  by (intro allI eat_rules io_rules panel_screens [THEN io_mem] io.steps_panel_parts io.steps_auditViewer)+

lemma RunSysOp_steps: "steps (mem.callR v True) (RunSysOp L u path pass inst)"
  unfolding RunSysOp_def by (intro sysop_rules panel_steps)

section \<open>Properties\<close>

text \<open>What the caller answers when asked for the panel's password.\<close>

definition gate_entry :: "('a call_scheme, bytes) prog" where
  "gate_entry = chk scr_New (\<lambda>w. chk (say w (ask (nl @ str ''SysOp panel password: ''))) (\<lambda>_. rd_password))"

lemma steps_at: "steps R m \<Longrightarrow> R s (snd (m s))"
  by (simp add: steps_def)

lemma gate_denied:
  assumes "gate_entry s = (r, t)" "r \<noteq> Inr pass" "pass \<noteq> []"
  shows "quiet.callR s (snd (RunSysOp L u path pass inst s))"
proof (cases "U_AccessLevel u < CoSysOpLevel")
  case False
  have entry: "quiet.callR s t"
  proof -
    have "quiet.callR s (snd (gate_entry s))"
      by (rule steps_at) (unfold gate_entry_def, intro quiet.screen_rules)
    then show ?thesis using assms(1) by simp
  qed
  obtain w where w: "scr_New s = (Inr w, s)" by (simp add: scr_New_def Let_def)
  let ?deny = "chk (Activity L (str ''sysop-gate-failed'') []) (\<lambda>_. chk (say w [CColorLine scr_Red (str ''Denied.'')]) (\<lambda>_. ignore rd_key))"
  have deny: "quiet.callR t (snd (?deny t))" by (rule steps_at) (intro quiet.screen_rules)
  let ?q = "say w (ask (nl @ str ''SysOp panel password: ''))"
  obtain s1 where s1: "?q s = (Inr (), s1)" by (simp add: say_def on_sess_def)
  let ?k = "\<lambda>entered. if \<not> sysopPassOK entered pass then ?deny
    else chk (Activity L (str ''sysop-gate-ok'') []) (\<lambda>_. sysop_panel L u path inst)"
  have pw: "rd_password s1 = (r, t)" using assms(1) unfolding gate_entry_def by (simp only: chk_run w s1 prod.case sum.case)
  have "RunSysOp L u path pass inst s = chk rd_password ?k s1"
    unfolding RunSysOp_def by (simp only: False assms(3) if_False chk_run [of scr_New] chk_run [of ?q] w s1 prod.case sum.case)
  then have "snd (RunSysOp L u path pass inst s) = t \<or> snd (RunSysOp L u path pass inst s) = snd (?deny t)"
    using assms(2) by (cases r) (simp_all only: chk_run [of rd_password] pw prod.case sum.case snd_conv sysopPassOK_def if_True simp_thms sum.inject)
  then show ?thesis by (elim disjE) (simp_all only: entry quiet.call.frame_trans [OF entry deny])
qed (simp add: RunSysOp_def quiet.call.frame_refl)

text \<open>
  C7: The step-up password guards the whole control panel. Where one is configured, a caller who
  does not type exactly it, be it a member who was never offered the panel or someone at the
  keyboard of a SysOp who is logged in, changes nothing in the database: of all tables only the
  session log has grown, by the record of the attempt.
\<close>

theorem panel_gate:
  assumes "pass \<noteq> []" "fst (gate_entry s) \<noteq> Inr pass"
  shows "log_only (st_db s) (st_db (snd (RunSysOp L u path pass inst s)))"
  using gate_denied [of s "fst (gate_entry s)" "snd (gate_entry s)" pass L u path inst] assms by (simp add: quiet.callR_def)

text \<open>From a page of the audit viewer every key leads to a page that exists.\<close>

lemma audit_paging:
  assumes "0 \<le> page" "page < audit_pages n" "audit_turn k (audit_pages n) page = Some p"
  shows "0 \<le> p \<and> p < audit_pages n"
  using assms by (auto simp: audit_turn_def audit_pages_def Let_def split: if_splits)

end
