(* ===== verification/MenuMember.thy ===== *)
theory MenuMember
  imports MenuSysop Pools
begin

text \<open>
  The member's main menu: the menu engine and banner of \<open>menu/menu.go\<close>, the entries of
  \<open>menu/member.go\<close>, the list of callers of \<open>menu/whosonline.go\<close>, and the door games of
  \<open>menu/doors.go\<close>. The games are programs over the caller's wire (\<open>games\<close>): what a resident door
  sends when dialled, how the relay with it goes, and how a prepared subprocess runs.
\<close>

section \<open>The engine\<close>

datatype Outcome = Continue | Logoff

text \<open>An action may change what the menu works on, here the caller's account.\<close>

record ('s, 'u) Item =
  it_Key :: byte
  it_Label :: bytes
  it_Action :: "'u \<Rightarrow> ('s, Outcome \<times> 'u) prog"

record ('s, 'u) Menu =
  mn_Title :: bytes
  mn_Subtitle :: bytes
  mn_Banner :: "bytes list"
  mn_ArtPath :: bytes
  mn_Items :: "('s, 'u) Item list"

definition find_item :: "byte \<Rightarrow> ('s, 'u) Item list \<Rightarrow> ('s, 'u) Item option" where
  "find_item key items = find (\<lambda>it. lower_byte (it_Key it) = lower_byte key) items"

definition menu_art :: "writer \<Rightarrow> bytes \<Rightarrow> ('a call_scheme, bool) prog" where
  "menu_art w path = (if path = [] then ret False else att (os_ReadFile path) (\<lambda>r. case r of
     Inl e \<Rightarrow> ret False
   | Inr art \<Rightarrow> if art = [] then ret False else chk (say w [CArt art, CPrint nl]) (\<lambda>_. ret True)))"

definition item_calls :: "('s, 'u) Item \<Rightarrow> wcall list" where
  "item_calls it = [CColor scr_Yellow, CPrint (str ''  ['' @ [upper_byte (it_Key it)] @ str ''] ''), CColor scr_White,
     CPrint (it_Label it), CReset, CPrint nl]"

definition render :: "('s, 'u) Menu \<Rightarrow> ('a call_scheme, unit) prog" where
  "render m =
     chk scr_New (\<lambda>w.
     chk (say w [CClear]) (\<lambda>_.
     chk (menu_art w (mn_ArtPath m)) (\<lambda>shownArt.
     say w ((if \<not> shownArt \<and> mn_Banner m \<noteq> [] then map (CColorLine scr_Cyan) (mn_Banner m) @ [CPrint nl] else []) @
       [CColorLine scr_Cyan (mn_Title m), CColorLine scr_Cyan (replicate (length (mn_Title m)) 45)] @
       (if mn_Subtitle m \<noteq> [] then [CColorLine scr_Blue (mn_Subtitle m), CPrint nl] else []) @
       concat (map item_calls (mn_Items m)) @ ask (nl @ str ''Command: '')))))"

definition finish :: "Outcome \<times> 'u \<Rightarrow> ('s, unit + 'u) prog" where
  "finish r = (if fst r = Logoff then leave () else again (snd r))"

definition dispatch :: "('a call_scheme, 'u) Menu \<Rightarrow> ('u \<Rightarrow> ('a call_scheme, Outcome \<times> 'u) prog) \<Rightarrow> bytes \<Rightarrow> 'u
    \<Rightarrow> ('a call_scheme, unit + 'u) prog" where
  "dispatch m onQuit line u = (case TrimSpace line of
     [] \<Rightarrow> again u
   | c # _ \<Rightarrow> (case find_item c (mn_Items m) of
       Some it \<Rightarrow> chk (it_Action it u) finish
     | None \<Rightarrow> if lower_byte c = 113 \<or> lower_byte c = 120 then chk (onQuit u) finish else again u))"

text \<open>\<open>Refresh\<close> recomputes the menu before each drawing; a failed read is \<open>ErrDisconnected\<close>.\<close>

definition menu_round :: "('u \<Rightarrow> ('a call_scheme, ('a call_scheme, 'u) Menu) prog) \<Rightarrow> ('u \<Rightarrow> ('a call_scheme, Outcome \<times> 'u) prog)
    \<Rightarrow> 'u \<Rightarrow> ('a call_scheme, unit + 'u) prog" where
  "menu_round refresh onQuit u =
     chk (refresh u) (\<lambda>m.
     chk (render m) (\<lambda>_.
     att rd_line (\<lambda>r. case r of Inl e \<Rightarrow> fail ErrDisconnected | Inr line \<Rightarrow> dispatch m onQuit line u)))"

definition menu_Run :: "('u \<Rightarrow> ('a call_scheme, ('a call_scheme, 'u) Menu) prog) \<Rightarrow> ('u \<Rightarrow> ('a call_scheme, Outcome \<times> 'u) prog)
    \<Rightarrow> 'u \<Rightarrow> ('a call_scheme, unit) prog" where
  "menu_Run refresh onQuit u = for_loop (menu_round refresh onQuit) u"

section \<open>Banner and message of the day\<close>

definition ToUpper :: "(bytes \<Rightarrow> bytes) \<Rightarrow> bytes \<Rightarrow> bytes" where
  "ToUpper uup s = (if \<forall>b \<in> set s. b < 128 then map upper_byte s else uup s)"

definition spaceOut :: "bytes \<Rightarrow> bytes" where
  "spaceOut s = (if length s * 2 > 70 then s else join [32] (runes s))"

definition center :: "bytes \<Rightarrow> nat \<Rightarrow> bytes" where
  "center s width = (if length s \<ge> width then s else replicate ((width - length s) div 2) 32 @ s)"

definition BBSBanner :: "('ip, 'net) libs \<Rightarrow> bytes \<Rightarrow> bytes \<Rightarrow> bytes list" where
  "BBSBanner L name tagline =
     (let t0 = spaceOut (ToUpper (l_uup L) (TrimSpace name));
          ttl = (if t0 = [] then str ''B B S'' else t0);
          width = (if length tagline > length ttl then length tagline else length ttl) + 6;
          bar = replicate width 61;
          t = TrimSpace tagline in
      [bar, center ttl width] @ (if t \<noteq> [] then [center t width] else []) @ [bar])"

definition trim_cr :: "bytes \<Rightarrow> bytes" where
  "trim_cr s = rev (dropWhile (\<lambda>b. b = 13) (rev s))"

definition ShowMOTD :: "bytes \<Rightarrow> ('a call_scheme, unit) prog" where
  "ShowMOTD motd =
     chk scr_New (\<lambda>w.
     chk (say w ([CClear, CColorLine scr_Cyan (str ''* Message of the Day *''), CColorLine scr_Cyan (str ''----------------------'')] @
       concat (map (\<lambda>line. [CSafe (trim_cr line), CPrint nl]) (split_on 10 motd)) @
       ask (nl @ str ''Press any key to continue...''))) (\<lambda>_.
     chk rd_key (\<lambda>_. ret ())))"

section \<open>Who is online\<close>

definition since :: "int \<Rightarrow> bytes" where
  "since d = (if d < minute then str ''just now''
     else let h = f64_trunc (dur_Hours d); m = f64_trunc (dur_Minutes d) in
       if h > 0 then itoa h @ str ''h '' @ itoa (m mod 60) @ str ''m'' else itoa m @ str ''m'')"

definition online_line :: "writer \<Rightarrow> online \<Rightarrow> ('a call_scheme, unit) prog" where
  "online_line w o' =
     chk (say w [CColor scr_Yellow, CPrint (str ''  Node '' @ pad_right 3 (itoa (on_Node o')) @ str '' ''), CColor scr_White,
       CSafe (pad_right 16 (on_Handle o')), CReset]) (\<lambda>_.
     chk time_Now (\<lambda>now.
     say w [CPrint (str ''  '' @ pad_right 6 (on_Transport o') @ str ''  on '' @ since (time_Sub now (on_Since o')) @ nl)]))"

text \<open>\<open>roster\<close>: the roster as other callers come and go, by the step at which it is read.\<close>

definition RunWhosOnline :: "(nat \<Rightarrow> roster) \<Rightarrow> ('a call_scheme, unit) prog" where
  "RunWhosOnline rst =
     chk scr_New (\<lambda>w.
     chk (say w [CClear, CColorLine scr_Cyan (str ''Who'' @ apos @ str ''s Online''), CColorLine scr_Cyan (str ''------------'')]) (\<lambda>_.
     chk (\<lambda>s. (Inr (ro_List (rst (e_step s))), s)) (\<lambda>l.
     chk (if l = [] then say w [CLine (str ''  (nobody '' @ dash @ str '' you must be a ghost)'')] else ret ()) (\<lambda>_.
     chk (for_each (online_line w) l) (\<lambda>_.
     chk (say w (ask (nl @ str ''Press any key...''))) (\<lambda>_.
     chk rd_key (\<lambda>_. ret ())))))))"

section \<open>Door games\<close>

record games =
  g_dial :: "nat \<Rightarrow> bytes \<Rightarrow> bytes \<Rightarrow> gerr + bytes list"
  g_relay :: "rconn \<Rightarrow> (xio, unit) prog"
  g_run :: "door_cmd \<Rightarrow> (xio, unit) prog"

definition termOf :: "bool \<Rightarrow> bytes" where
  "termOf ansi = (if ansi then str ''ansi'' else str ''dumb'')"

text \<open>Dial, and read the handshake.\<close>

definition DialResident :: "games \<Rightarrow> bytes \<Rightarrow> bytes \<Rightarrow> ('a call_scheme, rconn) prog" where
  "DialResident G net address s = (case g_dial G (e_step s) net address of
     Inl e \<Rightarrow> (Inl e, s)
   | Inr chunks \<Rightarrow> (Inr (readHandshake chunks), s))"

definition Relay :: "games \<Rightarrow> rconn \<Rightarrow> ('a call_scheme, unit) prog" where
  "Relay G rc = on_raw (chk (if rc_pre rc = [] then ret () else x_write (rc_pre rc)) (\<lambda>_. g_relay G (rc\<lparr>rc_pre := []\<rparr>)))"

definition printLaunch :: "('ip, 'net) libs \<Rightarrow> writer \<Rightarrow> door_row \<Rightarrow> int \<Rightarrow> bytes \<Rightarrow> ('a call_scheme, unit) prog" where
  "printLaunch L w d node ver =
     chk (say w ([CColor scr_Magenta, CPrint (str ''Launching ''), CSafe (dr_name d)] @
       (if ver \<noteq> [] then [CPrint (str '' v'' @ ver)] else []) @ [CPrint (str '' (node '' @ itoa node @ str '')...'' @ nl @ nl), CReset])) (\<lambda>_.
     Activity L (str ''door-launch'') (dr_name d))"

definition play_resident :: "('ip, 'net) libs \<Rightarrow> games \<Rightarrow> User \<Rightarrow> writer \<Rightarrow> door_row \<Rightarrow> int \<Rightarrow> ('a call_scheme, unit) prog" where
  "play_resident L G u w d node =
     att (DialResident G (if dr_net d = [] then str ''tcp'' else dr_net d) (dr_address d)) (\<lambda>r. case r of
       Inl e \<Rightarrow> chk (printLaunch L w d node []) (\<lambda>_. fail e)
     | Inr rc \<Rightarrow> chk (printLaunch L w d node (rc_Version rc)) (\<lambda>_. Relay G (SendHandle (U_Handle u) rc)))"

definition door_opts :: "opts \<Rightarrow> bool \<Rightarrow> bytes \<Rightarrow> bytes \<Rightarrow> int \<Rightarrow> opts" where
  "door_opts base ansi doorsData slug node = base\<lparr>op_Timeout := 15 * 60 * 10 ^ 9, op_Term := termOf ansi,
     op_WorkDir := path_join (path_join doorsData slug) (str ''node'' @ itoa node),
     op_ShareDir := path_join (path_join doorsData slug) (str ''shared'')\<rparr>"

definition drop_info :: "User \<Rightarrow> int \<Rightarrow> bool \<Rightarrow> DropInfo" where
  "drop_info u node ansi = \<lparr>di_BBSName = str ''AdmiralBBS'', di_Handle = U_Handle u, di_RealName = [],
     di_AccessLevel = U_AccessLevel u, di_MinutesLeft = 30, di_Node = node, di_ANSI = ansi\<rparr>"

definition play_subprocess :: "('ip, 'net) libs \<Rightarrow> games \<Rightarrow> User \<Rightarrow> writer \<Rightarrow> door_row \<Rightarrow> opts \<Rightarrow> int \<Rightarrow> bytes
    \<Rightarrow> ('a call_scheme, unit) prog" where
  "play_subprocess L G u w d base node doorsData =
     chk (printLaunch L w d node []) (\<lambda>_.
     Launch (\<lambda>c. on_raw (g_run G c)) [] (dr_command d) [] (drop_info u node (wr_ansi w))
       (door_opts base (wr_ansi w) doorsData (slugify (l_ulow L) (dr_name d)) node))"

definition playDoor :: "('ip, 'net) libs \<Rightarrow> games \<Rightarrow> User \<Rightarrow> door_row \<Rightarrow> opts \<Rightarrow> int \<Rightarrow> bytes \<Rightarrow> ('a call_scheme, unit) prog" where
  "playDoor L G u d base node doorsData =
     chk scr_New (\<lambda>w.
     chk (say w [CClear]) (\<lambda>_.
     att (if dr_kind d = KindResident then play_resident L G u w d node
          else play_subprocess L G u w d base node doorsData) (\<lambda>r.
     chk (say w [CColor scr_Cyan, CPrint (nl @ nl), CSafe (dr_name d), CPrint (str '' exited. Press any key...''), CReset]) (\<lambda>_.
     chk (case r of Inl e \<Rightarrow> Activity L (str ''door-exit'') (dr_name d @ str '': '' @ l_err L e) | Inr _ \<Rightarrow> ret ()) (\<lambda>_.
     chk rd_key (\<lambda>_. ret ()))))))"

definition door_line :: "writer \<Rightarrow> int \<times> int \<times> door_row \<Rightarrow> ('a call_scheme, unit) prog" where
  "door_line w x = (case x of (i, _, d) \<Rightarrow> say w [CColor scr_Yellow, CPrint (str ''  '' @ itoa i @ str '') ''), CColor scr_White,
     CSafe (dr_name d), CReset, CPrint nl])"

definition doors_round :: "('ip, 'net) libs \<Rightarrow> games \<Rightarrow> User \<Rightarrow> opts \<Rightarrow> int \<Rightarrow> bytes \<Rightarrow> unit \<Rightarrow> ('a call_scheme, unit + unit) prog" where
  "doors_round L G u base node doorsData _ =
     chk scr_New (\<lambda>w.
     chk (say w [CClear, CColorLine scr_Cyan (str ''Door Games''), CColorLine scr_Cyan (str ''----------'')]) (\<lambda>_.
     chk (doors_Visible (U_AccessLevel u)) (\<lambda>l.
     chk (if l = [] then say w [CLine (str ''  (no door games installed yet)'')] else ret ()) (\<lambda>_.
     chk (for_each (door_line w) (numbered l)) (\<lambda>_.
     chk (say w (ask (nl @ str ''Play # (or [Q]uit): ''))) (\<lambda>_.
     chk rd_line (\<lambda>inp0. let inp = TrimSpace inp0 in
     if is_quit inp then leave () else
     case pick inp l of
       None \<Rightarrow> again ()
     | Some d \<Rightarrow> chk (playDoor L G u (snd d) base node doorsData) again)))))))"

definition RunDoors :: "('ip, 'net) libs \<Rightarrow> games \<Rightarrow> User \<Rightarrow> opts \<Rightarrow> int \<Rightarrow> bytes \<Rightarrow> ('a call_scheme, unit) prog" where
  "RunDoors L G u base node doorsData = for_loop (doors_round L G u base node doorsData) ()"

section \<open>The member's menu\<close>

text \<open>What \<open>Member\<close> is built from.\<close>

record member_cfg =
  mc_artPath :: bytes
  mc_auditPath :: bytes
  mc_doorOpts :: opts
  mc_node :: int
  mc_doorsData :: bytes
  mc_roster :: "nat \<Rightarrow> roster"
  mc_sysopPass :: bytes
  mc_installer :: "DoorInstaller option"
  mc_games :: games

definition go_on :: "'u \<Rightarrow> ('s, 'x) prog \<Rightarrow> ('s, Outcome \<times> 'u) prog" where
  "go_on u m = chk m (\<lambda>_. ret (Continue, u))"

definition logoffAction :: "('ip, 'net) libs \<Rightarrow> User \<Rightarrow> ('a call_scheme, Outcome \<times> User) prog" where
  "logoffAction L u =
     chk (Activity L (str ''logoff'') (str ''chose Goodbye'')) (\<lambda>_.
     chk scr_New (\<lambda>w.
     chk settings_BBSName (\<lambda>name.
     chk (say w [CColorLine scr_Cyan (str ''Thanks for calling '' @ name @ str ''. NO CARRIER'')]) (\<lambda>_.
     ret (Logoff, u)))))"

definition member_items :: "('ip, 'net) libs \<Rightarrow> member_cfg \<Rightarrow> bool \<Rightarrow> bool \<Rightarrow> ('a call_scheme, User) Item list" where
  "member_items L c hasMotd isSysop =
     [\<lparr>it_Key = 77, it_Label = str ''Message Boards'', it_Action = (\<lambda>u. go_on u (RunBoards L u (mc_sysopPass c)))\<rparr>,
      \<lparr>it_Key = 69, it_Label = str ''Private Mail'', it_Action = (\<lambda>u. go_on u (RunMail L u))\<rparr>,
      \<lparr>it_Key = 70, it_Label = str ''File Library'', it_Action = (\<lambda>u. go_on u (RunFiles L u (mc_sysopPass c)))\<rparr>,
      \<lparr>it_Key = 68, it_Label = str ''Door Games'',
        it_Action = (\<lambda>u. go_on u (RunDoors L (mc_games c) u (mc_doorOpts c) (mc_node c) (mc_doorsData c)))\<rparr>,
      \<lparr>it_Key = 87, it_Label = str ''Who'' @ apos @ str ''s Online'', it_Action = (\<lambda>u. go_on u (RunWhosOnline (mc_roster c)))\<rparr>,
      \<lparr>it_Key = 75, it_Label = str ''My SSH Keys / Profile'', it_Action = (\<lambda>u. chk (RunProfile L u) (\<lambda>v. ret (Continue, v)))\<rparr>] @
     (if hasMotd then [\<lparr>it_Key = 79, it_Label = str ''Message of the Day (re-read)'',
        it_Action = (\<lambda>u. go_on u (chk settings_MOTD ShowMOTD))\<rparr>] else []) @
     (if isSysop then [\<lparr>it_Key = 83, it_Label = str ''SysOp Control Panel'',
        it_Action = (\<lambda>u. go_on u (RunSysOp L u (mc_auditPath c) (mc_sysopPass c) (mc_installer c)))\<rparr>] else []) @
     [\<lparr>it_Key = 71, it_Label = str ''Goodbye / Logoff'', it_Action = logoffAction L\<rparr>]"

definition member_refresh :: "('ip, 'net) libs \<Rightarrow> member_cfg \<Rightarrow> User \<Rightarrow> ('a call_scheme, ('a call_scheme, User) Menu) prog" where
  "member_refresh L c u =
     chk settings_MOTD (\<lambda>motd.
     chk settings_BBSName (\<lambda>name.
     chk settings_Tagline (\<lambda>tagline.
     ret \<lparr>mn_Title = name @ str '' :: Main Menu'', mn_Subtitle = [], mn_Banner = BBSBanner L name tagline,
       mn_ArtPath = mc_artPath c, mn_Items = member_items L c (motd \<noteq> []) (U_AccessLevel u \<ge> CoSysOpLevel)\<rparr>)))"

definition RunMember :: "('ip, 'net) libs \<Rightarrow> member_cfg \<Rightarrow> User \<Rightarrow> ('a call_scheme, unit) prog" where
  "RunMember L c u = chk (member_refresh L c u) (\<lambda>_. menu_Run (member_refresh L c) (logoffAction L) u)"

section \<open>What the menu keeps\<close>

text \<open>
  The engine keeps whatever its actions keep. \<open>J\<close> is what they maintain of the account the menu
  works on.
\<close>

context call_frame
begin

lemma steps_render: "steps callR (render m)"
  unfolding render_def menu_art_def by (intro screen_rules steps_files [THEN steps_store])

definition item_ok :: "('u \<Rightarrow> bool) \<Rightarrow> ('u \<Rightarrow> ('a call_scheme, Outcome \<times> 'u) prog) \<Rightarrow> bool" where
  "item_ok J f \<longleftrightarrow> (\<forall>v. J v \<longrightarrow> steps callR (f v) \<and> yields (\<lambda>r. J (snd r)) (f v))"

lemma item_okI: "(\<And>v. J v \<Longrightarrow> steps callR (f v)) \<Longrightarrow> (\<And>v. J v \<Longrightarrow> yields (\<lambda>r. J (snd r)) (f v)) \<Longrightarrow> item_ok J f"
  by (simp add: item_ok_def)

lemma item_ok_go: "(\<And>v. J v \<Longrightarrow> steps callR (m v)) \<Longrightarrow> item_ok J (\<lambda>v. go_on v (m v))"
  unfolding go_on_def by (intro item_okI call.steps_rules yields_seq yields_ret) simp_all

lemma item_step:
  assumes "item_ok J f" "J v"
  shows "triple (\<lambda>_. True) (chk (f v) finish) (\<lambda>r s. case r of Inl y \<Rightarrow> True | Inr v' \<Rightarrow> J v')"
proof (rule triple_chk)
  show "triple (\<lambda>_. True) (f v) (\<lambda>r s. J (snd r) \<and> True)"
    by (rule triple_yields) (use assms in \<open>simp_all add: item_ok_def stable_def\<close>)
  show "triple (\<lambda>s. J (snd r) \<and> True) (finish r) (\<lambda>r s. case r of Inl y \<Rightarrow> True | Inr v' \<Rightarrow> J v')" for r
    by (auto simp: finish_def leave_def again_def intro!: triple_ret)
qed

lemma dispatch_step:
  assumes "\<forall>it \<in> set (mn_Items m). item_ok J (it_Action it)" "item_ok J q" "J v"
  shows "triple (\<lambda>_. True) (dispatch m q line v) (\<lambda>r s. case r of Inl y \<Rightarrow> True | Inr v' \<Rightarrow> J v')"
proof -
  have stay: "triple (\<lambda>_. True) (again v) (\<lambda>r s. case r of Inl y \<Rightarrow> True | Inr v' \<Rightarrow> J v')"
    using assms(3) by (simp add: again_def triple_ret)
  have "it \<in> set (mn_Items m)" if "find_item c (mn_Items m) = Some it" for c it
    using that by (auto simp: find_item_def find_Some_iff)
  then show ?thesis
    using assms item_step [OF assms(2,3)] item_step [where J = J and v = v, OF _ assms(3)] stay
    by (auto simp: dispatch_def split: list.splits option.splits)
qed

lemma menu_Run_steps:
  assumes ref: "\<And>v. J v \<Longrightarrow> steps callR (refresh v)"
    and items: "\<And>v. J v \<Longrightarrow> yields (\<lambda>m. \<forall>it \<in> set (mn_Items m). item_ok J (it_Action it)) (refresh v)"
    and quit: "item_ok J q" and init: "J u"
  shows "steps callR (menu_Run refresh q u)"
proof -
  let ?M = "\<lambda>r s. case r of Inl y \<Rightarrow> True | Inr v' \<Rightarrow> J v'"
  have rd: "triple (\<lambda>_. True) (att rd_line (\<lambda>r. case r of Inl e \<Rightarrow> fail ErrDisconnected | Inr line \<Rightarrow> dispatch m q line v)) ?M"
    if "J v" "\<forall>it \<in> set (mn_Items m). item_ok J (it_Action it)" for m v
    by (rule triple_try [OF steps_readers(1)], simp add: stable_def, rule triple_sum)
       (rule triple_fail, rule dispatch_step [OF that(2) quit that(1)])
  have "triple (\<lambda>_. True) (menu_round refresh q v) ?M" if "J v" for v
    unfolding menu_round_def
  proof (rule triple_chk)
    show "triple (\<lambda>_. True) (refresh v) (\<lambda>m s. (\<forall>it \<in> set (mn_Items m). item_ok J (it_Action it)) \<and> True)"
      by (rule triple_yields [OF ref [OF that] items [OF that]]) (simp add: stable_def)
    show "triple (\<lambda>s. (\<forall>it \<in> set (mn_Items m). item_ok J (it_Action it)) \<and> True) (chk (render m) (\<lambda>_.
        att rd_line (\<lambda>r. case r of Inl e \<Rightarrow> fail ErrDisconnected | Inr line \<Rightarrow> dispatch m q line v))) ?M" for m
    proof (cases "\<forall>it \<in> set (mn_Items m). item_ok J (it_Action it)")
      case True
      show ?thesis by (rule triple_seq [OF steps_render]) (simp_all add: stable_def rd [OF that True] True del: ball_simps)
    next
      case False
      then show ?thesis unfolding triple_def by blast
    qed
  qed
  then have "triple (\<lambda>s. J v) (menu_round refresh q v) ?M" for v by (cases "J v") (simp_all add: triple_def)
  then have "triple (\<lambda>s. J u) (menu_Run refresh q u) (\<lambda>_ _. True)"
    unfolding menu_Run_def by (rule triple_loop [where I = "\<lambda>v s. J v" and M = "\<lambda>_ _. True"])
  then show ?thesis using init by (simp add: triple_True [symmetric])
qed

lemma steps_Launch:
  assumes "\<And>c. steps callR (run c)"
  shows "steps callR (Launch run jail cmd args d opt)"
proof -
  have "steps callR (remove_all jail :: ('b call_scheme, unit) prog)"
    by (simp add: steps_def remove_all_def callR_def hears_def db_refl)
  then show ?thesis
    unfolding Launch_def launch_in_def WriteDoor32_def Let_def
    by (intro screen_rules assms steps_files [THEN steps_store] steps_ext [THEN steps_store])
qed

lemma steps_playDoor: "steps callR (playDoor L G u d base node dd)"
proof -
  have dial: "steps callR (DialResident G n a)" for n a
    by (auto simp: steps_def DialResident_def call.frame_refl split: sum.splits)
  show ?thesis
    unfolding playDoor_def play_resident_def play_subprocess_def printLaunch_def Relay_def
    by (intro screen_rules dial steps_raw steps_Launch)
qed

lemma steps_play:
  "steps callR (RunDoors L G u base node dd)" "steps callR (RunWhosOnline rst)" "steps callR (ShowMOTD motd)"
  "steps callR (logoffAction L v)" "steps callR (member_refresh L c v)"
proof -
  have roster: "steps callR (\<lambda>s. (Inr (ro_List (rst (e_step s))), s))" for rst
    by (simp add: steps_def call.frame_refl)
  show "steps callR (RunDoors L G u base node dd)" "steps callR (RunWhosOnline rst)" "steps callR (ShowMOTD motd)"
    "steps callR (logoffAction L v)" "steps callR (member_refresh L c v)"
    unfolding RunDoors_def doors_round_def door_line_def RunWhosOnline_def online_line_def ShowMOTD_def logoffAction_def
      member_refresh_def Let_def
    by (intro screen_rules steps_playDoor roster)+
qed

end

lemma RunMember_steps:
  assumes "priv \<longleftrightarrow> CoSysOpLevel \<le> U_AccessLevel u"
  shows "steps (mem.callR (U_ID u) priv) (RunMember L c u)"
proof -
  have lv: "U_ID v = U_ID u" "priv \<longleftrightarrow> CoSysOpLevel \<le> U_AccessLevel v" if "same_user u v" for v
    using that assms by (simp_all add: same_user_def)
  have boards: "steps (mem.callR (U_ID u) priv) (RunBoards L v sp)" "steps (mem.callR (U_ID u) priv) (RunFiles L v sp)"
    "steps (mem.callR (U_ID u) priv) (RunMail L v)" "steps (mem.callR (U_ID u) priv) (RunProfile L v)" if "same_user u v" for v sp
    using RunBoards_steps [OF lv(2) [OF that]] RunFiles_steps [OF lv(2) [OF that]] RunMail_steps [of v priv] RunProfile_steps [of v priv]
      lv(1) [OF that] by simp_all
  have prof: "mem.item_ok (U_ID u) priv (same_user u) (\<lambda>v. chk (RunProfile L v) (\<lambda>v. ret (Continue, v)))"
    by (intro mem.item_okI mem.call.steps_rules boards) (auto intro!: yields_chk [OF RunProfile_yields] yields_ret intro: same_user_trans)
  have off: "mem.item_ok (U_ID u) priv (same_user u) (logoffAction L)"
    by (intro mem.item_okI mem.steps_play) (auto simp: logoffAction_def intro!: yields_seq yields_ret)
  have "steps (mem.callR (U_ID u) priv) (menu_Run (member_refresh L c) (logoffAction L) u)"
  proof (rule mem.menu_Run_steps [where J = "same_user u"])
    fix v
    assume v: "same_user u v"
    have "\<forall>it \<in> set (member_items L c b (CoSysOpLevel \<le> U_AccessLevel v)). mem.item_ok (U_ID u) priv (same_user u) (it_Action it)" for b
    proof (cases priv)
      case True
      then have t: "priv = True" by simp
      show ?thesis unfolding member_items_def t
        by (auto intro!: mem.item_ok_go prof [unfolded t] off [unfolded t] boards [unfolded t] mem.steps_play mem.screen_rules RunSysOp_steps)
    next
      case False
      then have t: "priv = False" by simp
      have "\<not> CoSysOpLevel \<le> U_AccessLevel v" using lv(2) [OF v] False by simp
      then show ?thesis unfolding member_items_def t
        by (auto intro!: mem.item_ok_go prof [unfolded t] off [unfolded t] boards [unfolded t] mem.steps_play mem.screen_rules)
    qed
    then show "yields (\<lambda>m. \<forall>it \<in> set (mn_Items m). mem.item_ok (U_ID u) priv (same_user u) (it_Action it)) (member_refresh L c v)"
      unfolding member_refresh_def by (intro yields_seq yields_ret) simp
  qed (simp_all add: mem.steps_play off)
  then show ?thesis unfolding RunMember_def by (intro mem.call.steps_rules mem.steps_play)
qed

lemma gets_read_or:
  assumes "gets m" "\<And>x. steps io.callR (k x)"
  shows "gets (att m (\<lambda>r. case r of Inl e \<Rightarrow> fail (f e) | Inr x \<Rightarrow> k x))"
proof -
  have "att m (\<lambda>r. case r of Inl e \<Rightarrow> fail (f e) | Inr x \<Rightarrow> k x) s = (Inr y, s') \<Longrightarrow> chk m k s = (Inr y, s')" for s y s'
    by (cases "m s") (auto simp: att_run chk_run split: sum.splits)
  moreover have "gets (chk m k)" by (rule io.gets_first [OF assms(1)]) (rule assms(2))
  ultimately show ?thesis unfolding gets_def by blast
qed

lemma gets_later_yields:
  assumes "steps io.callR m" "yields R m" "\<And>x. R x \<Longrightarrow> gets (k x)"
  shows "gets (chk m k)"
  unfolding gets_def
proof (intro allI impI)
  fix s y s'
  assume "chk m k s = (Inr y, s')"
  then obtain x t where t: "m s = (Inr x, t)" "k x t = (Inr y, s')" by (rule chk_InrE)
  then have "unread t \<le> unread s" using io_hears [OF assms(1)] hears_unread by blast
  moreover have "unread s' < unread t" using assms(3) [OF yieldsD [OF assms(2) t(1)]] t(2) unfolding gets_def by blast
  ultimately show "unread s' < unread s" by simp
qed

lemma member_items_io:
  "it \<in> set (member_items L c b b') \<Longrightarrow> steps io.callR (it_Action it u)"
proof -
  have actions: "steps io.callR (RunBoards L u sp)" "steps io.callR (RunFiles L u sp)" "steps io.callR (RunMail L u)"
    "steps io.callR (RunProfile L u)" "steps io.callR (RunSysOp L u ap sp ins)" for u sp ap ins
    using RunBoards_steps [OF refl, THEN io_mem] RunFiles_steps [OF refl, THEN io_mem] RunMail_steps [THEN io_mem]
      RunProfile_steps [THEN io_mem] RunSysOp_steps [THEN io_mem] by auto
  assume "it \<in> set (member_items L c b b')"
  then show ?thesis unfolding member_items_def go_on_def
    by (auto split: if_splits intro!: io_rules actions io.steps_play)
qed

lemma dispatch_io:
  assumes "\<forall>it \<in> set (mn_Items m). steps io.callR (it_Action it u)"
  shows "steps io.callR (dispatch m (logoffAction L) line u)"
proof -
  have fin: "steps io.callR (chk p finish)" if "steps io.callR p" for p
    unfolding finish_def by (intro io_rules that)
  have "it \<in> set (mn_Items m)" if "find_item c (mn_Items m) = Some it" for c it
    using that by (auto simp: find_item_def find_Some_iff)
  then show ?thesis using assms
    by (auto simp: dispatch_def split: list.splits option.splits intro!: fin io.steps_play io.steps_ends)
qed

lemma member_loops: "eats (menu_round (member_refresh L c) (logoffAction L))" "eats (doors_round L G u base node dd)"
proof -
  let ?R = "\<lambda>m. \<forall>it \<in> set (mn_Items m). \<forall>u. steps io.callR (it_Action it u)"
  have ref: "yields ?R (member_refresh L c u)" for u
    unfolding member_refresh_def by (intro yields_seq yields_ret) (auto intro: member_items_io)
  show "eats (menu_round (member_refresh L c) (logoffAction L))"
    unfolding eats_def menu_round_def
    by (rule allI, rule gets_later_yields [OF io.steps_play(5) ref], rule io.gets_later [OF io.steps_render],
        rule gets_read_or [OF gets_readers(1)]) (rule dispatch_io, simp)
  show "eats (doors_round L G u base node dd)"
    unfolding eats_def doors_round_def door_line_def Let_def by (intro allI eat_rules io_rules io.steps_playDoor)
qed

section \<open>Properties\<close>

text \<open>
  What a member can do to the database, over a whole visit. However long the visit, whatever
  the member types in whatever menu, whatever the door games do, and whatever disk, database or
  randomness failure strikes on the way: the other accounts, keys, tokens and reports stay as they
  are; other people's posts stay, except replies below a post of the member's own; mail to others
  is only added, with the member as its sender; of other people's files only the download counter
  moves; areas, doors, bans, settings and applications are untouched; of the member's own account
  only the password, the palette and the login record can change, never the level or the status;
  and the log only grows. The database stays well formed.
\<close>

theorem member_confined:
  assumes "db_inv (st_db s)" "U_AccessLevel u < CoSysOpLevel"
  shows "confined (U_ID u) (st_db s) (st_db (snd (RunMember L c u s))) \<and> db_inv (st_db (snd (RunMember L c u s)))"
proof -
  have "mem.callR (U_ID u) False s (snd (RunMember L c u s))"
    by (rule steps_at [OF RunMember_steps]) (use assms(2) in simp)
  then have "memQ (U_ID u) False (st_db s) (st_db (snd (RunMember L c u s)))" by (simp add: mem.callR_def)
  then show ?thesis using memQ_confined assms(1) by (auto simp: memQ_def)
qed

text \<open>
  C9: No menu of the system can spin. In each of its loops, from the main menu down to the
  directory of handles, a round that goes on has read at least one more byte of the caller's
  input; so for as long as the input is finite every loop ends, and the model's well-foundedness
  test is never what ends it.
\<close>

theorem menu_loops_read:
  "eats (menu_round (member_refresh L c) (logoffAction L)) \<and> eats (boards_round L u sp) \<and> eats (browse_round L u area seen) \<and>
   eats (mail_round L u) \<and> eats (cc_round L u t) \<and> eats (lookup_round dir) \<and> eats (fareas_round L u sp) \<and>
   eats (files_round L u farea) \<and> eats (doors_round L G u base node dd) \<and> eats (profile_round L) \<and> eats (blocks_round L u) \<and>
   eats (apply_key L w) \<and> eats (panel_round L u path inst) \<and> eats (audit_round w n ps sm ans)"
  by (intro conjI member_loops board_loops mail_loops file_loops profile_loops apply_eats panel_loops)

definition demo_cfg :: member_cfg where
  "demo_cfg = \<lparr>mc_artPath = [], mc_auditPath = str ''audit'', mc_doorOpts = demo_opts, mc_node = 1, mc_doorsData = str ''doors'',
     mc_roster = (\<lambda>_. NewRoster), mc_sysopPass = [], mc_installer = None,
     mc_games = \<lparr>g_dial = (\<lambda>_ _ _. Inl ErrIO), g_relay = (\<lambda>_. ret ()), g_run = (\<lambda>_. ret ())\<rparr>\<rparr>"

definition demo_member :: User where
  "demo_member = \<lparr>U_ID = 1, U_Handle = [98], U_PasswordHash = [], U_RealName = [], U_Email = [], U_AccessLevel = 10,
     U_Status = StatusApproved, U_DailyMinutes = 0, U_Points = 0, U_Colorblind = False, U_CreatedAt = 0, U_LastLoginAt = None\<rparr>"

theorem member_confined_witness:
  "confined 1 demo_board (st_db (snd (RunMember demo_libs demo_cfg demo_member
     (demo_call demo_board (demo_session (keyed [109, 13, 49, 13, 103, 13]))))))"
  using member_confined [of "demo_call demo_board (demo_session (keyed [109, 13, 49, 13, 103, 13]))" demo_member demo_libs demo_cfg]
  by (simp add: demo_member_def CoSysOpLevel_def SysOpLevel_def)

end
