(* ===== verification/Daemon.thy ===== *)
theory Daemon
  imports MenuMember
begin

text \<open>
  The daemon, \<open>cmd/admiralbbs/main.go\<close>: seeding and door registration at the start, the first
  factor of the SSH transport, the daily time budget, and the two handlers that take a connection
  from the transport through a session to its end. A server's state is a visit's state extended by
  the registries the sessions share. Flags, the process environment, signals and the listeners are
  outside; a failed start (\<open>log.Fatal\<close>) is the program's error. Minutes are \<open>float64\<close> and durations
  \<open>int64\<close>, as in the sources, with their rounding and wrap-around.
\<close>

record server = call +
  sv_presence :: presence
  sv_nodes :: NodePool
  sv_roster :: roster
  sv_counter :: nat
  sv_displaced :: "(bytes \<times> int) list"

record daemon_cfg =
  dm_idle :: int
  dm_dailyMinutes :: int
  dm_artPath :: bytes
  dm_auditPath :: bytes
  dm_doorOpts :: opts
  dm_doorsData :: bytes
  dm_roster :: "nat \<Rightarrow> roster"
  dm_sysopPass :: bytes
  dm_installer :: DoorInstaller
  dm_games :: games

definition sysopLevel :: int where "sysopLevel = 100"

section \<open>Starting\<close>

definition version :: bytes where "version = str ''2.2.0''"

definition trim_prefix :: "bytes \<Rightarrow> bytes \<Rightarrow> bytes" where
  "trim_prefix p s = (if prefix p s then drop (length p) s else s)"

text \<open>The notice of a newer release, where there is one.\<close>

definition checkUpdate :: "forge \<Rightarrow> bytes \<Rightarrow> bytes \<Rightarrow> bytes option" where
  "checkUpdate F current url = (if TrimSpace url = [] then None else
     case fg_get F url of
       Inl e \<Rightarrow> None
     | Inr r \<Rightarrow> (case fg_json F (hr_body r) of
         None \<Rightarrow> None
       | Some rel \<Rightarrow> let latest = trim_prefix (str ''v'') (TrimSpace (re_TagName rel)) in
           if latest \<noteq> [] \<and> latest \<noteq> current then Some latest else None))"

definition SplitN :: "byte \<Rightarrow> nat \<Rightarrow> bytes \<Rightarrow> bytes list" where
  "SplitN b n s = (let ps = split_on b s in
     if length ps \<le> n then ps else take (n - 1) ps @ [join [b] (drop (n - 1) ps)])"

text \<open>\<open>n, _ = strconv.Atoi(s)\<close>: out of range it is the nearest \<open>int\<close>, otherwise on an error 0.\<close>

definition atoi_or_zero :: "bytes \<Rightarrow> int" where
  "atoi_or_zero s = (case atoi s of Some n \<Rightarrow> n | None \<Rightarrow>
     let neg = (s \<noteq> [] \<and> hd s = 45); ds = (if s \<noteq> [] \<and> (hd s = 45 \<or> hd s = 43) then tl s else s) in
     if ds \<noteq> [] \<and> (\<forall>b \<in> set ds. is_digit b) then if neg then - (2 ^ 63) else 2 ^ 63 - 1 else 0)"

definition register_spec :: "bytes \<Rightarrow> ('a store_scheme, unit) prog" where
  "register_spec spec = (case SplitN 124 4 spec of
     name # network # address # rest \<Rightarrow>
       doors_EnsureResidentDoor name network address (case rest of [] \<Rightarrow> 0 | l # _ \<Rightarrow> atoi_or_zero (TrimSpace l))
   | _ \<Rightarrow> fail ErrMalformed)"

definition seed_setting :: "bytes \<Rightarrow> bytes \<Rightarrow> ('a store_scheme, unit) prog" where
  "seed_setting key val = chk (settings_Get key []) (\<lambda>v. if v = [] then att (settings_Set key val) (\<lambda>_. ret ()) else ret ())"

definition seed :: "daemon_cfg \<Rightarrow> bytes list \<Rightarrow> ('a store_scheme, unit) prog" where
  "seed c specs =
     chk EnsureSeedAreas (\<lambda>_.
     chk EnsureSeedFileAreas (\<lambda>_.
     chk EnsureSeedDoors (\<lambda>_.
     chk (for_each register_spec specs) (\<lambda>_.
     chk (seed_setting (str ''idle_minutes'') (itoa (f64_trunc (dur_Minutes (dm_idle c))))) (\<lambda>_.
     seed_setting (str ''daily_minutes'') (itoa (dm_dailyMinutes c)))))))"

text \<open>Everything before the listeners: seeding, the audit trail, the installed doors.\<close>

definition boot :: "('ip, 'net) libs \<Rightarrow> daemon_cfg \<Rightarrow> bytes list \<Rightarrow> ('a call_scheme, unit) prog" where
  "boot L c specs =
     chk (seed c specs) (\<lambda>_.
     chk (\<lambda>s. audit_New (st_prims s) (dm_auditPath c) (Some (st_vault s)) s) (\<lambda>l.
     chk (\<lambda>s. (Inr (), s\<lparr>c_log := l\<rparr>)) (\<lambda>_.
     RelaunchAll L (dm_installer c))))"

section \<open>The first factor\<close>

definition authenticator :: "('ip, 'net) libs \<Rightarrow> bytes \<Rightarrow> bytes \<Rightarrow> ('a store_scheme, bool) prog" where
  "authenticator L username key = att (users_ByHandle username) (\<lambda>r. case r of
     Inl e \<Rightarrow> ret False
   | Inr u \<Rightarrow> if U_Status u \<noteq> StatusApproved then ret False
       else att (keys_Authorizes (l_ssh L) (U_ID u) key) (\<lambda>r. ret (case r of Inl e \<Rightarrow> False | Inr ok \<Rightarrow> ok)))"

definition banned :: "('ip, 'net) libs \<Rightarrow> bytes \<Rightarrow> ('a store_scheme, bool) prog" where
  "banned L ip = bans_IsBanned (l_net L) ip"

section \<open>Sessions\<close>

definition next_id :: "('a server_scheme, bytes) prog" where
  "next_id s = (let n = sv_counter s + 1 in (Inr (str ''s-'' @ zpad 6 (int n)), s\<lparr>sv_counter := n\<rparr>))"

definition mkSession :: "('ip, 'net) libs \<Rightarrow> daemon_cfg \<Rightarrow> bytes \<Rightarrow> int \<Rightarrow> int \<Rightarrow> ('a server_scheme, unit) prog" where
  "mkSession L c term cols rows =
     chk next_id (\<lambda>i.
     chk (sess_New L i term cols rows) (\<lambda>_.
     chk (settings_IdleMinutes (f64_trunc (dur_Minutes (dm_idle c)))) (\<lambda>m.
     on_sess (\<lambda>ss. (Inr (), WatchIdle (wrap64 (m * minute)) ss)))))"

text \<open>\<open>defer f()\<close>: run it whatever the body returned.\<close>

definition deferred :: "('s, 'x) prog \<Rightarrow> ('s, 'y) prog \<Rightarrow> ('s, 'y) prog" where
  "deferred f m = att m (\<lambda>r. att f (\<lambda>_. lift_err r))"

definition telnetHandle :: "('ip, 'net) libs \<Rightarrow> daemon_cfg \<Rightarrow> bytes \<Rightarrow> int \<Rightarrow> int \<Rightarrow> ('a server_scheme, unit) prog" where
  "telnetHandle L c term cols rows =
     chk (mkSession L c term cols rows) (\<lambda>_. deferred (sess_Close L) (ignore (RunApply L)))"

definition daily_budget :: "User \<Rightarrow> int \<Rightarrow> ('a store_scheme, int) prog" where
  "daily_budget u defaultMinutes = (if U_DailyMinutes u \<le> 0 then settings_DailyMinutes defaultMinutes else ret (U_DailyMinutes u))"

definition enforceBudget :: "('ip, 'net) libs \<Rightarrow> User \<Rightarrow> int \<Rightarrow> ('a call_scheme, unit) prog" where
  "enforceBudget L u defaultMinutes =
     (if U_AccessLevel u \<ge> sysopLevel then ret () else
      chk (daily_budget u defaultMinutes) (\<lambda>budget.
      chk (default 0 (slog_MinutesToday (l_sum L) (U_Handle u))) (\<lambda>used.
      let remaining = f64_sub (f64_of_int budget) used in
      chk scr_New (\<lambda>w.
      if remaining \<le> 0 then
        chk (say w [CColorLine scr_Red (str ''Your daily time is used up. Come back tomorrow! NO CARRIER'')]) (\<lambda>_. sess_Close L)
      else
        chk (say w [CPrint (str ''You have ~'' @ itoa (int64_of (l_oor L) remaining) @ str '' minutes left today.'' @ nl)]) (\<lambda>_.
        on_sess (\<lambda>ss. (Inr (), WatchBudget (dur_of_minutes (l_oor L) remaining) ss)))))))"

text \<open>The registries. \<open>Enter\<close> registers the session under the lock; then, with the lock released, it
  calls the close function of the session it displaced, if any, and that call is recorded. What
  other sessions do between the two steps is the step relation of \<^verbatim>\<open>Pools\<close>.\<close>

definition presence_register :: "bytes \<Rightarrow> ('a server_scheme, int \<times> int option) prog" where
  "presence_register h s = (case pr_Enter h (sv_presence s) of (i, old, p) \<Rightarrow> (Inr (i, old), s\<lparr>sv_presence := p\<rparr>))"

definition presence_displace :: "bytes \<Rightarrow> int option \<Rightarrow> ('a server_scheme, unit) prog" where
  "presence_displace h old s = (case old of
     None \<Rightarrow> (Inr (), s) | Some j \<Rightarrow> (Inr (), s\<lparr>sv_displaced := sv_displaced s @ [(h, j)]\<rparr>))"

definition presence_Enter :: "bytes \<Rightarrow> ('a server_scheme, int) prog" where
  "presence_Enter h = chk (presence_register h) (\<lambda>(i, old). chk (presence_displace h old) (\<lambda>_. ret i))"

lemmas presence_Enter_run = presence_Enter_def presence_register_def presence_displace_def

definition presence_Leave :: "bytes \<Rightarrow> int \<Rightarrow> ('a server_scheme, unit) prog" where
  "presence_Leave h i s = (Inr (), s\<lparr>sv_presence := pr_Leave h i (sv_presence s)\<rparr>)"

definition node_Acquire :: "('a server_scheme, int) prog" where
  "node_Acquire s = (case np_Acquire (sv_nodes s) of (n, p) \<Rightarrow> (Inr n, s\<lparr>sv_nodes := p\<rparr>))"

definition node_Release :: "int \<Rightarrow> ('a server_scheme, unit) prog" where
  "node_Release n s = (Inr (), s\<lparr>sv_nodes := np_Release n (sv_nodes s)\<rparr>)"

definition roster_Join :: "int \<Rightarrow> bytes \<Rightarrow> ('a server_scheme, unit) prog" where
  "roster_Join n h s = (Inr (), s\<lparr>sv_roster := ro_Join n h (s_ip (c_sess s)) (s_transport (c_sess s)) (e_clock s (e_step s)) (sv_roster s)\<rparr>)"

definition roster_Leave :: "int \<Rightarrow> ('a server_scheme, unit) prog" where
  "roster_Leave n s = (Inr (), s\<lparr>sv_roster := ro_Leave n (sv_roster s)\<rparr>)"

definition cfg_for :: "daemon_cfg \<Rightarrow> int \<Rightarrow> member_cfg" where
  "cfg_for c node = \<lparr>mc_artPath = dm_artPath c, mc_auditPath = dm_auditPath c, mc_doorOpts = dm_doorOpts c, mc_node = node,
     mc_doorsData = dm_doorsData c, mc_roster = dm_roster c, mc_sysopPass = dm_sysopPass c,
     mc_installer = Some (dm_installer c), mc_games = dm_games c\<rparr>"

definition at_node :: "('ip, 'net) libs \<Rightarrow> daemon_cfg \<Rightarrow> User \<Rightarrow> int \<Rightarrow> ('a call_scheme, unit) prog" where
  "at_node L c u node =
     chk (enforceBudget L u (dm_dailyMinutes c)) (\<lambda>_.
     chk settings_MOTD (\<lambda>motd.
     chk (if motd \<noteq> [] then ShowMOTD motd else ret ()) (\<lambda>_.
     ignore (RunMember L (cfg_for c node) u))))"

definition logged_in :: "('ip, 'net) libs \<Rightarrow> daemon_cfg \<Rightarrow> User \<Rightarrow> ('a server_scheme, unit) prog" where
  "logged_in L c u =
     chk (on_sess (\<lambda>ss. (Inr (), SetColorblind (U_Colorblind u) ss))) (\<lambda>_.
     chk scr_New (\<lambda>w.
     chk (presence_Enter (U_Handle u)) (\<lambda>pid. deferred (presence_Leave (U_Handle u) pid) (
     chk node_Acquire (\<lambda>node.
     if node = 0 then say w [CColorLine scr_Red (str ''All nodes are busy right now '' @ dash @ str '' try again shortly. NO CARRIER'')]
     else deferred (node_Release node) (
       chk (roster_Join node (U_Handle u)) (\<lambda>_. deferred (roster_Leave node) (
       at_node L c u node))))))))"

definition sshHandle :: "('ip, 'net) libs \<Rightarrow> daemon_cfg \<Rightarrow> bytes \<Rightarrow> int \<Rightarrow> int \<Rightarrow> ('a server_scheme, unit) prog" where
  "sshHandle L c term cols rows =
     chk (mkSession L c term cols rows) (\<lambda>_. deferred (sess_Close L) (
     chk (RunLogin L) (\<lambda>r. case r of None \<Rightarrow> ret () | Some u \<Rightarrow> logged_in L c u)))"

section \<open>What a visit keeps of the database\<close>

definition on_db :: "(db \<Rightarrow> db \<Rightarrow> bool) \<Rightarrow> 'a store_scheme \<Rightarrow> 'a store_scheme \<Rightarrow> bool" where
  "on_db Q s s' \<longleftrightarrow> Q (st_db s) (st_db s')"

context call_frame
begin

lemma on_db_frame: "frame_rel (on_db Q)"
  by unfold_locales (auto simp: on_db_def intro: db_refl db_trans)

lemmas on_db_rules = frame_rel.steps_rules [OF on_db_frame]

lemma on_db_call: "steps callR m \<Longrightarrow> steps (on_db Q) m"
  by (simp add: steps_def callR_def on_db_def)

lemma on_db_registry:
  "steps (on_db Q) next_id" "steps (on_db Q) (presence_Enter h)" "steps (on_db Q) (presence_Leave h i)"
  "steps (on_db Q) node_Acquire" "steps (on_db Q) (node_Release n)" "steps (on_db Q) (roster_Join n h)" "steps (on_db Q) (roster_Leave n)"
  by (simp_all add: steps_def on_db_def db_refl next_id_def presence_Enter_run chk_run presence_Leave_def node_Acquire_def node_Release_def
      roster_Join_def roster_Leave_def Let_def prod.case_eq_if split: option.splits)

lemma on_db_deferred: "steps (on_db Q) f \<Longrightarrow> steps (on_db Q) m \<Longrightarrow> steps (on_db Q) (deferred f m)"
  unfolding deferred_def by (intro on_db_rules)

lemma on_db_mkSession: "steps (on_db Q) (mkSession L c tm cols rows)"
proof -
  have "steps callR (on_sess (\<lambda>ss. (Inr (), WatchIdle d ss)))" for d
    by (rule steps_set) (simp add: WatchIdle_def)
  then show ?thesis unfolding mkSession_def
    by (intro on_db_rules on_db_registry on_db_call steps_session read_rules)
qed

lemma steps_enforceBudget: "steps callR (enforceBudget L u n)"
proof -
  have "steps callR (on_sess (\<lambda>ss. (Inr (), WatchBudget d ss)))" for d
    by (rule steps_set) (simp add: WatchBudget_def)
  then show ?thesis unfolding enforceBudget_def daily_budget_def Let_def
    by (intro screen_rules steps_session)
qed

end

lemma logged_in_db:
  assumes "U_AccessLevel u < CoSysOpLevel"
  shows "steps (on_db (memQ (U_ID u) False)) (logged_in L c u)"
proof -
  have member: "steps (mem.callR (U_ID u) False) (RunMember L cfg u)" for cfg
    by (rule RunMember_steps) (use assms in simp)
  have "steps (mem.callR (U_ID u) False) (at_node L c u node)" for node
    unfolding at_node_def by (intro mem.screen_rules mem.steps_enforceBudget mem.steps_play member)
  moreover have "steps (mem.callR (U_ID u) False) (on_sess (\<lambda>ss. (Inr (), SetColorblind b ss)))" for b
    by (rule mem.steps_set) (simp add: SetColorblind_def)
  ultimately show ?thesis unfolding logged_in_def
    by (intro mem.on_db_rules mem.on_db_registry mem.on_db_deferred mem.on_db_call mem.screen_rules)
qed

text \<open>The accounts a handle can mean: at most number \<open>n\<close>, and that one is no SysOp.\<close>

definition only_account :: "int \<Rightarrow> bytes \<Rightarrow> user_row tbl \<Rightarrow> bool" where
  "only_account n h t \<longleftrightarrow> (\<forall>i r. tbl_get t i = Some r \<longrightarrow> nocase (u_handle r) = nocase h \<longrightarrow> i = n \<and> u_access_level r < CoSysOpLevel)"

lemma ByHandle_row:
  assumes "users_ByHandle h s = (Inr u, t)" "wf_tbl (d_user (st_db s))"
  shows "st_db t = st_db s" "\<exists>r. tbl_get (d_user (st_db s)) (U_ID u) = Some r \<and> nocase (u_handle r) = nocase h \<and>
    U_AccessLevel u = u_access_level r \<and> U_Status u = u_status r \<and> U_PasswordHash u = u_password_hash r"
proof -
  let ?sel = "tbl_select (\<lambda>i r. nocase (u_handle r) = nocase h) (d_user (st_db s))"
  note q = query_InrD [OF assms(1) [unfolded users_ByHandle_def]]
  show "st_db t = st_db s" using q by simp
  from q obtain x where "first_row ?sel = Inr x" "users_scan (st_prims s) (st_vault s) x = Inr u"
    by (auto simp: norows_notfound_def bind_err_def split: sum.splits if_splits)
  moreover from this have "x \<in> set ?sel" by (auto simp: first_row_def split: list.splits)
  ultimately show "\<exists>r. tbl_get (d_user (st_db s)) (U_ID u) = Some r \<and> nocase (u_handle r) = nocase h \<and>
    U_AccessLevel u = u_access_level r \<and> U_Status u = u_status r \<and> U_PasswordHash u = u_password_hash r"
    using assms(2) by (cases x) (auto simp: tbl_select_get users_scan_def split: sum.splits)
qed

lemma ByHandle_db: "st_db (snd (users_ByHandle h s)) = st_db s"
  by (simp add: users_ByHandle_def query_def chk_run ext_def)

lemma login_refused: "steps (mem.callR n False) (chk (say w a) (\<lambda>_. ret None))"
  by (intro mem.screen_rules)

lemma RunLogin_db:
  fixes s :: "'a call_scheme"
  assumes "db_inv (st_db s)" "only_account n (s_username (c_sess s)) (d_user (st_db s))"
  shows "memQ n False (st_db s) (st_db (snd (RunLogin L s)))"
    "fst (RunLogin L s) = Inr (Some u) \<Longrightarrow> U_ID u = n \<and> U_AccessLevel u < CoSysOpLevel"
proof -
  let ?h = "s_username (c_sess s)"
  obtain w where w: "scr_New s = (Inr w, s)" by (simp add: scr_New_def Let_def)
  obtain r t where r: "users_ByHandle ?h s = (r, t)" by fastforce
  then have db: "st_db t = st_db s" using ByHandle_db [of ?h s] by simp
  have wf: "wf_tbl (d_user (st_db s))" using db_inv_user [OF assms(1)] by simp
  define k :: "('a call_scheme, User option) prog" where "k = (case r of
       Inl e \<Rightarrow> chk (say w [CColorLine scr_Red genericLoginFail]) (\<lambda>_. ret None)
     | Inr u \<Rightarrow>
         if U_Status u \<noteq> StatusApproved then chk (say w [CColorLine scr_Red genericLoginFail]) (\<lambda>_. ret None)
         else if U_PasswordHash u = [] then onboard L w u
         else verify 3 L w u)"
  have run: "RunLogin L s = k t" unfolding RunLogin_def k_def by (simp add: chk_run att_run w r)
  have acct: "U_ID u0 = n \<and> U_AccessLevel u0 < CoSysOpLevel" if "r = Inr u0" for u0
    using ByHandle_row(2) [OF r [unfolded that] wf] assms(2) by (auto simp: only_account_def)
  have "steps (mem.callR n False) k"
  proof (cases r)
    case (Inr u0)
    then have n: "n = U_ID u0" using acct by simp
    show ?thesis unfolding k_def Inr sum.case n by (intro mem.call.steps_if login_refused onboard_steps verify_steps)
  qed (simp add: k_def login_refused)
  then have "mem.callR n False t (snd (k t))" by (rule steps_at)
  then show "memQ n False (st_db s) (st_db (snd (RunLogin L s)))" by (simp add: run db mem.callR_def)
  have fails: "fst (chk (say w a) (\<lambda>_. ret None) t) \<noteq> Inr (Some u)" for a
    by (cases "say w a t") (auto simp: chk_run split: sum.splits)
  show "U_ID u = n \<and> U_AccessLevel u < CoSysOpLevel" if some: "fst (RunLogin L s) = Inr (Some u)"
  proof (cases r)
    case (Inl e)
    then show ?thesis using some fails by (simp add: run k_def)
  next
    case (Inr u0)
    then have "fst ((if U_PasswordHash u0 = [] then onboard L w u0 else verify 3 L w u0) t) = Inr (Some u)"
      using some fails by (auto simp: run k_def split: if_splits)
    then obtain t' where "(if U_PasswordHash u0 = [] then onboard L w u0 else verify 3 L w u0) t = (Inr (Some u), t')"
      by (cases "(if U_PasswordHash u0 = [] then onboard L w u0 else verify 3 L w u0) t") auto
    then have "same_user u0 u"
      by (cases "U_PasswordHash u0 = []") (auto dest: yieldsD [OF login_yields(1)] yieldsD [OF login_yields(2)])
    then show ?thesis using acct [OF Inr] by (simp add: same_user_def)
  qed
qed

lemma emit_sess: "c_sess (snd (emit L e s)) = c_sess s"
proof -
  obtain l s' where run: "Emit (st_prims s) (l_json L) [slog_Emit] e (c_log s) s = (l, s')" by fastforce
  then have "io.dbR s s'" using io.Emit_dbR by (metis snd_conv)
  from io.fixed_call(2) [OF this] show ?thesis by (simp add: emit_def run)
qed

text \<open>The name a connection was authenticated under survives the set-up of its session.\<close>

definition same_caller :: "'a call_scheme \<Rightarrow> 'a call_scheme \<Rightarrow> bool" where
  "same_caller s s' \<longleftrightarrow> s_username (c_sess s') = s_username (c_sess s)"

interpretation caller: frame_rel same_caller
  by unfold_locales (auto simp: same_caller_def)

lemma caller_store: "steps io.dbR m \<Longrightarrow> steps same_caller m"
  unfolding steps_def same_caller_def by (metis io.fixed_call(2))

lemma caller_set: "(\<And>ss. s_username (f ss) = s_username ss) \<Longrightarrow> steps same_caller (on_sess (\<lambda>ss. (Inr (), f ss)))"
  by (simp add: steps_def same_caller_def on_sess_def)

lemma mkSession_caller: "steps same_caller (mkSession L c tm cols rows)"
proof -
  have ev: "steps same_caller (\<lambda>s. emit L (e s) s)" for e by (simp add: steps_def same_caller_def emit_sess)
  have nid: "steps same_caller next_id" by (simp add: steps_def same_caller_def next_id_def Let_def)
  show ?thesis unfolding mkSession_def sess_New_def
    by (intro caller.steps_rules nid ev caller_set caller_store io.steps_now io.read_steps) (simp_all add: WatchIdle_def)
qed

lemma deferred_run: "snd (deferred f m s) = snd (f (snd (m s)))"
  by (cases "m s"; cases "f (snd (m s))") (simp add: deferred_def att_run)

lemma login_visit_db:
  fixes s :: "'a server_scheme"
  assumes "db_inv (st_db s)" "only_account n (s_username (c_sess s)) (d_user (st_db s))"
  shows "memQ n False (st_db s) (st_db (snd (chk (RunLogin L) (\<lambda>r. case r of None \<Rightarrow> ret () | Some u \<Rightarrow> logged_in L c u) s)))"
proof (cases "RunLogin L s")
  case (Pair r s2)
  have login: "memQ n False (st_db s) (st_db s2)" using RunLogin_db(1) [OF assms, of L] Pair by simp
  show ?thesis
  proof (cases "\<exists>u. r = Inr (Some u)")
    case True
    then obtain u where u: "r = Inr (Some u)" by blast
    then have "U_ID u = n" "U_AccessLevel u < CoSysOpLevel" using RunLogin_db(2) [OF assms, of L u] Pair by auto
    then have "on_db (memQ n False) s2 (snd (logged_in L c u s2))" using steps_at [OF logged_in_db] by blast
    then show ?thesis using login Pair u mem.db_trans by (auto simp: chk_run on_db_def)
  next
    case False
    then show ?thesis using login Pair by (auto simp: chk_run split: sum.splits option.splits)
  qed
qed

text \<open>
  C1: One SSH connection, from accept to hang-up. Whoever is connected under a handle that can only
  mean account \<open>n\<close>, below the SysOp level, whether or not the login succeeds, whatever is typed and
  whatever fails: the database changes only as member \<open>n\<close> may change it, and stays well formed.
\<close>

theorem ssh_visit_confined:
  fixes s :: "'a server_scheme"
  assumes "db_inv (st_db s)" "only_account n (s_username (c_sess s)) (d_user (st_db s))"
  shows "confined n (st_db s) (st_db (snd (sshHandle L c tm cols rows s))) \<and> db_inv (st_db (snd (sshHandle L c tm cols rows s)))"
proof -
  let ?mk = "mkSession L c tm cols rows"
  let ?body = "chk (RunLogin L) (\<lambda>r. case r of None \<Rightarrow> ret () | Some u \<Rightarrow> logged_in L c u)"
  obtain q s1 where s1: "?mk s = (q, s1)" by fastforce
  have "on_db log_only s (snd (?mk s))" by (rule steps_at [OF quiet.on_db_mkSession])
  then have "d_user (st_db s1) = d_user (st_db s)" using log_only_tables(1) s1 by (simp add: on_db_def)
  moreover have "same_caller s (snd (?mk s))" by (rule steps_at [OF mkSession_caller])
  ultimately have acct: "only_account n (s_username (c_sess s1)) (d_user (st_db s1))"
    using assms(2) s1 by (simp add: same_caller_def)
  have "on_db (memQ n False) s (snd (?mk s))" by (rule steps_at [OF mem.on_db_mkSession])
  then have m1: "memQ n False (st_db s) (st_db s1)" using s1 by (simp add: on_db_def)
  then have inv1: "db_inv (st_db s1)" using assms(1) by (simp add: memQ_def)
  have m2: "memQ n False (st_db s1) (st_db (snd (?body s1)))" by (rule login_visit_db [OF inv1 acct])
  have m3: "memQ n False (st_db t) (st_db (snd (sess_Close L t)))" for t :: "'a server_scheme"
    by (rule steps_at [OF mem.on_db_call [OF mem.steps_session(2)], unfolded on_db_def])
  have "memQ n False (st_db s) (st_db (snd (sshHandle L c tm cols rows s)))"
  proof (cases q)
    case (Inl e)
    then show ?thesis using m1 s1 by (simp add: sshHandle_def chk_run)
  next
    case (Inr v)
    then have "snd (sshHandle L c tm cols rows s) = snd (sess_Close L (snd (?body s1)))"
      using s1 by (simp add: sshHandle_def chk_run deferred_run)
    then show ?thesis using m1 m2 m3 mem.db_trans by metis
  qed
  then show ?thesis using memQ_confined assms(1) by (auto simp: memQ_def)
qed

text \<open>
  C6: One Telnet connection: whoever calls and whatever they type, all that can come of it is an
  application. No existing row of any table is changed or removed.
\<close>

theorem telnet_visit_applies:
  fixes s :: "'a server_scheme"
  shows "applied (t_seq (d_user (st_db s)) + 1) (st_db s) (st_db (snd (telnetHandle L c tm cols rows s)))"
proof -
  let ?mk = "mkSession L c tm cols rows" let ?n = "t_seq (d_user (st_db s)) + 1"
  obtain q s1 where s1: "?mk s = (q, s1)" by fastforce
  have "on_db log_only s (snd (?mk s))" by (rule steps_at [OF quiet.on_db_mkSession])
  then have log: "log_only (st_db s) (st_db s1)" using s1 by (simp add: on_db_def)
  have "applied ?n (st_db s1) (st_db (snd (RunApply L s1)))"
    using RunApply_triple [of ?n L] log_only_tables(1) [OF log] unfolding app.triple_def app.callR_def by metis
  moreover have "log_only (st_db t) (st_db (snd (sess_Close L t)))" for t :: "'a server_scheme"
    by (rule steps_at [OF quiet.on_db_call [OF quiet.steps_session(2)], unfolded on_db_def])
  moreover have "snd (telnetHandle L c tm cols rows s) = (case q of Inl e \<Rightarrow> s1 | Inr _ \<Rightarrow> snd (sess_Close L (snd (RunApply L s1))))"
    using s1 by (cases "RunApply L s1") (simp add: telnetHandle_def chk_run deferred_run ignore_def att_run split: sum.splits)
  ultimately show ?thesis using log_only_tables(2) [OF log] log_only_tables(2) applied_trans
    by (cases q) (simp_all, meson)
qed

section \<open>Registries\<close>

lemma more_registries:
  fixes s :: "'a server_scheme"
  assumes "call.more s' = call.more s"
  shows "sv_presence s' = sv_presence s \<and> sv_nodes s' = sv_nodes s \<and> sv_roster s' = sv_roster s"
  using assms by (cases s, cases s') simp

lemma io_registries:
  fixes s :: "'a server_scheme"
  assumes "steps io.callR m"
  shows "sv_presence (snd (m s)) = sv_presence s \<and> sv_nodes (snd (m s)) = sv_nodes s \<and> sv_roster (snd (m s)) = sv_roster s"
  by (rule more_registries) (use steps_at [OF assms, of s] in \<open>simp add: io.callR_def hears_def\<close>)

lemma at_node_io: "steps io.callR (at_node L c u node)"
proof -
  have "steps io.callR (RunMember L cfg u)" for cfg by (rule io_mem [OF RunMember_steps [OF refl]])
  then show ?thesis unfolding at_node_def by (intro io.screen_rules io.steps_enforceBudget io.steps_play)
qed

lemma node_kept:
  assumes "np_Acquire p = (n, p')" "n \<noteq> 0"
  shows "np_Release n p' = p \<and> n \<notin> np_used p"
proof -
  have "n \<notin> np_used p" using np_scan_spec [of 1 p] assms by (auto simp: np_Acquire_def Let_def split: if_splits)
  then show ?thesis using assms by (auto simp: np_Acquire_def np_Release_def Let_def split: if_splits)
qed

lemma roster_kept: "n \<notin> fst ` set r \<Longrightarrow> ro_Leave n (ro_Join n h ip tr now r) = r"
  unfolding ro_Leave_def ro_Join_def by (induction r) (auto simp: AList.delete_eq)

text \<open>What the visit leaves in the registries, from the moment of the login.\<close>

definition released :: "'a server_scheme \<Rightarrow> 'a server_scheme \<Rightarrow> bool" where
  "released s s' \<longleftrightarrow> sv_nodes s' = sv_nodes s \<and> sv_roster s' = sv_roster s \<and> pr_cur (sv_presence s') \<subseteq>\<^sub>m pr_cur (sv_presence s)"

lemma RunLogin_io: "steps io.callR (RunLogin L)"
  by (rule steps_state [OF _ RunLogin_def]) (intro io.screen_rules onboard_steps [THEN io_mem] verify_steps [THEN io_mem])

lemmas close_registries = io_registries [OF io.steps_session(2)]

lemma roster_stage:
  fixes s :: "'a server_scheme" and h :: bytes
  assumes "n \<notin> fst ` set (sv_roster s)" "steps io.callR m"
  defines "t \<equiv> snd (chk (roster_Join n h) (\<lambda>_. deferred (roster_Leave n) m) s)"
  shows "sv_presence t = sv_presence s \<and> sv_nodes t = sv_nodes s \<and> sv_roster t = sv_roster s"
proof -
  obtain s1 where s1: "roster_Join n h s = (Inr (), s1)" "sv_presence s1 = sv_presence s" "sv_nodes s1 = sv_nodes s"
    "\<exists>ip tr now. sv_roster s1 = ro_Join n h ip tr now (sv_roster s)"
    by (auto simp: roster_Join_def)
  have "t = snd (roster_Leave n (snd (m s1)))" by (simp add: t_def chk_run s1(1) deferred_run)
  then show ?thesis using s1 io_registries [OF assms(2), of s1] roster_kept [OF assms(1)] by (auto simp: roster_Leave_def)
qed

lemma node_stage:
  fixes s :: "'a server_scheme" and h :: bytes
  assumes "fst ` set (sv_roster s) \<subseteq> np_used (sv_nodes s)" "steps io.callR full" "\<And>n. steps io.callR (m n)"
  defines "t \<equiv> snd (chk node_Acquire (\<lambda>node. if node = 0 then full else deferred (node_Release node)
     (chk (roster_Join node h) (\<lambda>_. deferred (roster_Leave node) (m node)))) s)"
  shows "sv_presence t = sv_presence s \<and> sv_nodes t = sv_nodes s \<and> sv_roster t = sv_roster s"
proof -
  obtain n p where np: "np_Acquire (sv_nodes s) = (n, p)" by fastforce
  then have acq: "node_Acquire s = (Inr n, s\<lparr>sv_nodes := p\<rparr>)" by (simp add: node_Acquire_def)
  show ?thesis
  proof (cases "n = 0")
    case True
    then have "p = sv_nodes s" using np by (auto simp: np_Acquire_def Let_def split: if_splits)
    then show ?thesis using io_registries [OF assms(2), of "s\<lparr>sv_nodes := p\<rparr>"] True acq by (simp add: t_def chk_run)
  next
    case False
    let ?s1 = "s\<lparr>sv_nodes := p\<rparr>"
    have "n \<notin> fst ` set (sv_roster ?s1)" using node_kept [OF np False] assms(1) by auto
    from roster_stage [OF this assms(3)] show ?thesis
      using node_kept [OF np False] False acq by (simp add: t_def chk_run deferred_run node_Release_def)
  qed
qed

lemma logged_in_releases:
  fixes s :: "'a server_scheme"
  assumes "fst ` set (sv_roster s) \<subseteq> np_used (sv_nodes s)"
  shows "released s (snd (logged_in L c u s))"
proof -
  obtain s1 where s1: "on_sess (\<lambda>ss. (Inr (), SetColorblind (U_Colorblind u) ss)) s = (Inr (), s1)"
    "sv_presence s1 = sv_presence s" "sv_nodes s1 = sv_nodes s" "sv_roster s1 = sv_roster s"
    by (simp add: on_sess_def)
  obtain w where w: "scr_New s1 = (Inr w, s1)" by (simp add: scr_New_def Let_def)
  let ?h = "U_Handle u"
  obtain i s2 where s2: "presence_Enter ?h s1 = (Inr i, s2)" "sv_nodes s2 = sv_nodes s" "sv_roster s2 = sv_roster s"
    "pr_cur (sv_presence s2) = (pr_cur (sv_presence s))(?h \<mapsto> i)"
    using s1 by (cases "pr_cur (sv_presence s) ?h") (simp_all add: presence_Enter_run chk_run pr_Enter_def Let_def)
  let ?m = "chk node_Acquire (\<lambda>node.
     if node = 0 then say w [CColorLine scr_Red (str ''All nodes are busy right now '' @ dash @ str '' try again shortly. NO CARRIER'')]
     else deferred (node_Release node) (chk (roster_Join node ?h) (\<lambda>_. deferred (roster_Leave node) (at_node L c u node))))"
  have reg: "sv_presence (snd (?m s2)) = sv_presence s2 \<and> sv_nodes (snd (?m s2)) = sv_nodes s2 \<and> sv_roster (snd (?m s2)) = sv_roster s2"
    by (rule node_stage) (use assms s2 in \<open>auto intro: io.steps_screen at_node_io\<close>)
  have "snd (logged_in L c u s) = snd (presence_Leave ?h i (snd (?m s2)))"
    unfolding logged_in_def by (simp add: chk_run s1(1) w s2(1) deferred_run)
  then show ?thesis using reg s2 by (auto simp: released_def presence_Leave_def pr_Leave_def map_le_def)
qed

lemma mkSession_registries:
  fixes s :: "'a server_scheme" and L :: "('ip, 'net) libs" and c tm cols rows
  defines "t \<equiv> snd (mkSession L c tm cols rows s)"
  shows "sv_presence t = sv_presence s \<and> sv_nodes t = sv_nodes s \<and> sv_roster t = sv_roster s"
proof -
  let ?rest = "\<lambda>i. chk (sess_New L i tm cols rows) (\<lambda>_. chk (settings_IdleMinutes (f64_trunc (dur_Minutes (dm_idle c)))) (\<lambda>m.
      on_sess (\<lambda>ss. (Inr (), WatchIdle (wrap64 (m * minute)) ss))))"
  have io: "steps io.callR (?rest i)" for i
    by (intro io.screen_rules io.steps_session io.steps_set) (simp add: WatchIdle_def)
  obtain i s0 where s0: "next_id s = (Inr i, s0)" "sv_presence s0 = sv_presence s" "sv_nodes s0 = sv_nodes s" "sv_roster s0 = sv_roster s"
    by (simp add: next_id_def Let_def)
  then have "t = snd (?rest i s0)" by (simp add: t_def mkSession_def chk_run [of next_id])
  then show ?thesis using io_registries [OF io [of i], of s0] s0 by simp
qed

text \<open>
  C8: A visit gives back what it took. However a connection ends (a refused login, no free node,
  used-up time, an error in the middle of a menu, a hang-up), the node pool and the list of callers
  are what they were before, and no handle is left marked as logged in that was not.
\<close>

theorem ssh_visit_releases:
  fixes s :: "'a server_scheme"
  assumes "fst ` set (sv_roster s) \<subseteq> np_used (sv_nodes s)"
  shows "released s (snd (sshHandle L c tm cols rows s))"
proof -
  let ?mk = "mkSession L c tm cols rows"
  let ?k = "\<lambda>r. case r of None \<Rightarrow> ret () | Some u \<Rightarrow> logged_in L c u"
  have same: "released s t" if "sv_presence t = sv_presence s \<and> sv_nodes t = sv_nodes s \<and> sv_roster t = sv_roster s" for t :: "'a server_scheme"
    using that by (simp add: released_def map_le_def)
  obtain q s1 where s1: "?mk s = (q, s1)" by fastforce
  then have mk: "sv_presence s1 = sv_presence s \<and> sv_nodes s1 = sv_nodes s \<and> sv_roster s1 = sv_roster s"
    using mkSession_registries [of L c tm cols rows s] by simp
  show ?thesis
  proof (cases q)
    case (Inl e)
    then show ?thesis using mk s1 same by (simp add: sshHandle_def chk_run)
  next
    case (Inr v)
    obtain r s2 where s2: "RunLogin L s1 = (r, s2)" by fastforce
    have "steps io.callR (RunLogin L)" by (rule RunLogin_io)
    from io_registries [OF this, of s1] have lg: "sv_presence s2 = sv_presence s \<and> sv_nodes s2 = sv_nodes s \<and> sv_roster s2 = sv_roster s"
      using mk s2 by simp
    have "released s (snd (chk (RunLogin L) ?k s1))"
    proof (cases "\<exists>u. r = Inr (Some u)")
      case True
      then obtain u where "r = Inr (Some u)" by blast
      moreover have "released s2 (snd (logged_in L c u s2))" by (rule logged_in_releases) (use assms lg in simp)
      ultimately show ?thesis using s2 lg by (simp add: chk_run released_def)
    next
      case False
      then show ?thesis using s2 lg same by (auto simp: chk_run split: sum.splits option.splits)
    qed
    moreover have "snd (sshHandle L c tm cols rows s) = snd (sess_Close L (snd (chk (RunLogin L) ?k s1)))"
      using s1 Inr by (simp add: sshHandle_def chk_run [of ?mk] deferred_run)
    ultimately show ?thesis by (simp add: released_def close_registries)
  qed
qed

section \<open>The first factor and the time budget\<close>

text \<open>
  C5: The first factor admits a connection only for a live account and a live key, and whatever
  fails, it refuses rather than admits: it says yes only if an approved account bears the offered
  name (in any case of letters) and one of that account's keys, not revoked, has the fingerprint of
  the key offered; and it never reports an error.
\<close>

theorem authenticator_sound:
  assumes "db_inv (st_db s)"
  shows "(\<exists>ok. fst (authenticator L h key s) = Inr ok) \<and>
    (fst (authenticator L h key s) = Inr True \<longrightarrow> (\<exists>i r k kr. tbl_get (d_user (st_db s)) i = Some r \<and> nocase (u_handle r) = nocase h \<and>
       u_status r = StatusApproved \<and> tbl_get (d_key (st_db s)) k = Some kr \<and> k_user_id kr = i \<and> k_revoked_at kr = None \<and>
       k_fingerprint kr = ssh_fingerprint (l_ssh L) key))"
proof (cases "users_ByHandle h s")
  case (Pair q t)
  show ?thesis
  proof (cases "\<exists>u. q = Inr u \<and> U_Status u = StatusApproved")
    case False
    then show ?thesis using Pair by (auto simp: authenticator_def att_run split: sum.splits)
  next
    case True
    then obtain u where u: "q = Inr u" "U_Status u = StatusApproved" by blast
    have wf: "wf_tbl (d_user (st_db s))" "wf_tbl (d_key (st_db s))" using db_inv_user [OF assms] db_inv_key [OF assms] by auto
    note row = ByHandle_row [OF Pair [unfolded u(1)] wf(1)]
    obtain a t' where a: "keys_Authorizes (l_ssh L) (U_ID u) key t = (a, t')" by fastforce
    have run: "fst (authenticator L h key s) = Inr (case a of Inl e \<Rightarrow> False | Inr ok \<Rightarrow> ok)"
      using Pair u a by (simp add: authenticator_def att_run)
    have "\<exists>k kr. tbl_get (d_key (st_db s)) k = Some kr \<and> k_user_id kr = U_ID u \<and> k_revoked_at kr = None \<and>
        k_fingerprint kr = ssh_fingerprint (l_ssh L) key" if yes: "a = Inr True"
    proof -
      from a [unfolded yes keys_Authorizes_def] obtain l t2 where l: "keys_Active (U_ID u) t = (Inr l, t2)"
        and x: "\<exists>x \<in> set l. k_fingerprint (snd x) = ssh_fingerprint (l_ssh L) key"
        by (elim chk_InrE) auto
      from query_InrD [OF l [unfolded keys_Active_def]]
      have "l = tbl_select (\<lambda>i k. k_user_id k = U_ID u \<and> k_revoked_at k = None) (d_key (st_db s))" using row(1) by simp
      with x show ?thesis using wf(2) by (fastforce simp: tbl_select_get)
    qed
    then show ?thesis using run row(2) u(2) by (auto split: sum.splits) metis
  qed
qed

lemma sess_Close_closes: "s_closed (c_sess (snd (sess_Close L x)))"
  by (simp add: sess_Close_def chk_run on_sess_def time_Now_def emit_def split: prod.splits)

text \<open>What \<open>enforceBudget\<close> does once the budget \<open>b\<close> and the minutes \<open>used\<close> have been read.\<close>

lemma enforceBudget_run:
  fixes s :: "'a call_scheme" and L :: "('ip, 'net) libs"
  assumes "daily_budget u n s = (Inr b, t)" "slog_MinutesToday (l_sum L) (U_Handle u) t = (Inr used, t')" "U_AccessLevel u < sysopLevel"
  defines "rem \<equiv> f64_sub (f64_of_int b) used" and "ss \<equiv> c_sess (snd (enforceBudget L u n s))"
  shows "if rem \<le> 0 then s_closed ss
    else s_closed ss = s_closed (c_sess s) \<and> s_budget_at ss =
      (if 0 < dur_of_minutes (l_oor L) rem then Some (s_clock (c_sess s) + dur_of_minutes (l_oor L) rem) else s_budget_at (c_sess s))"
proof -
  have sess1: "c_sess t = c_sess s"
  proof -
    have "io.dbR s (snd (daily_budget u n s))" by (rule steps_at) (unfold daily_budget_def, intro io.db_rules io.read_steps)
    from io.fixed_call(2) [OF this] show ?thesis using assms(1) by simp
  qed
  have sess2: "c_sess t' = c_sess t"
  proof -
    have "io.dbR t (snd (slog_MinutesToday (l_sum L) (U_Handle u) t))" by (rule steps_at) (rule io.read_steps)
    from io.fixed_call(2) [OF this] show ?thesis using assms(2) by simp
  qed
  have dflt: "default 0 (slog_MinutesToday (l_sum L) (U_Handle u)) t = (Inr used, t')" by (simp add: default_def att_run assms(2))
  obtain w where w: "scr_New t' = (Inr w, t')" by (simp add: scr_New_def Let_def)
  have say: "say w cs t' = (Inr (), t'\<lparr>c_sess := sess_write (wr_out (wr_calls cs w)) (c_sess t')\<rparr>)" for cs
    by (simp add: say_def on_sess_def)
  show ?thesis
    unfolding ss_def rem_def enforceBudget_def
    using sess1 sess2 sess_Close_closes assms(3) by (auto simp: chk_run assms(1) dflt w say on_sess_def WatchBudget_def Let_def)
qed

text \<open>
  C18: The daily time budget binds. Let the reads of the settings and of the session log succeed,
  with a budget of \<open>b\<close> minutes, at most a hundred million, and \<open>used\<close> of them spent according to
  the sum SQLite returns. For an account below level 100: with nothing left the session is closed
  before any menu is reached; otherwise the wire stays open and is set to close after what is left,
  to within the two microseconds that \<open>float64\<close> and \<open>Duration\<close> may lose (a remainder that rounds to
  no nanosecond at all sets nothing). From level 100 on nothing is limited.
\<close>

theorem budget_enforced:
  fixes s :: "'a call_scheme" and L :: "('ip, 'net) libs"
  assumes "daily_budget u n s = (Inr b, t)" "slog_MinutesToday (l_sum L) (U_Handle u) t = (Inr used, t')"
    and "b \<le> 100000000" "0 \<le> used"
  defines "ss \<equiv> c_sess (snd (enforceBudget L u n s))"
  shows "if sysopLevel \<le> U_AccessLevel u then ss = c_sess s
    else if of_int b \<le> used then s_closed ss
    else s_closed ss = s_closed (c_sess s) \<and> (\<exists>d. \<bar>of_int d - (of_int b - used) * 60000000000\<bar> \<le> 2000 \<and>
      s_budget_at ss = (if 0 < d then Some (s_clock (c_sess s) + d) else s_budget_at (c_sess s)))"
proof (cases "sysopLevel \<le> U_AccessLevel u")
  case True
  then show ?thesis by (simp add: ss_def enforceBudget_def)
next
  case False
  let ?rem = "f64_sub (f64_of_int b) used"
  have run: "if ?rem \<le> 0 then s_closed ss
    else s_closed ss = s_closed (c_sess s) \<and> s_budget_at ss =
      (if 0 < dur_of_minutes (l_oor L) ?rem then Some (s_clock (c_sess s) + dur_of_minutes (l_oor L) ?rem) else s_budget_at (c_sess s))"
    unfolding ss_def using enforceBudget_run [OF assms(1,2)] False by simp
  show ?thesis
  proof (cases "of_int b \<le> used")
    case True
    have "f64_of_int b \<le> used"
    proof (cases "b < 0")
      case True
      then have "f64_of_int b \<le> 0" unfolding f64_of_int_def by (intro fl64_neg) simp
      then show ?thesis using assms(4) by simp
    next
      case False
      then have "f64_of_int b = of_int b" using assms(3) unfolding f64_of_int_def by (intro fl64_int) simp
      then show ?thesis using True by simp
    qed
    then have "?rem \<le> 0" unfolding f64_sub_def by (intro fl64_neg) simp
    then show ?thesis using run True False by simp
  next
    case left: False
    then have "0 < b" using assms(4) by (metis le_less_linear of_int_le_0_iff order_trans)
    then have "f64_of_int b = of_int b" using assms(3) unfolding f64_of_int_def by (intro fl64_int) simp
    then have rem: "?rem = fl64 (of_int b - used)" by (simp add: f64_sub_def)
    have x: "0 < of_int b - used" using left by simp
    have "(of_int b :: rat) \<le> of_int 100000000" using assms(3) by (simp only: of_int_le_iff)
    then have "of_int b - used \<le> 100000000" using assms(4) by simp
    from dur_of_minutes_error [OF x this, of "l_oor L"]
    have "\<bar>of_int (dur_of_minutes (l_oor L) ?rem) - (of_int b - used) * 60000000000\<bar> \<le> 2000" unfolding rem .
    moreover have "\<not> ?rem \<le> 0" unfolding rem using fl64_pos [OF x] by simp
    ultimately show ?thesis using run False left by (simp only: if_False) blast
  qed
qed

lemma seed_steps: "steps ops.dbR (seed c specs)"
proof -
  have each: "steps ops.dbR (for_each register_spec specs)"
  proof (induction specs)
    case (Cons x xs)
    have "steps ops.dbR (register_spec x)" unfolding register_spec_def
      by (auto intro!: op_steps ops.db_rules split: list.splits)
    with Cons.IH show ?case by (auto intro!: ops.db_rules)
  qed (simp only: for_each.simps ops.steps_ret)
  show ?thesis unfolding seed_def seed_setting_def EnsureSeedAreas_def EnsureSeedFileAreas_def areas_Count_def fareas_Count_def settings_Get_def
    by (intro ops.db_rules op_steps each)
qed

section \<open>Examples\<close>

definition demo_server :: "db \<Rightarrow> session \<Rightarrow> server" where
  "demo_server d ss = call.extend (demo_call d ss) (server.fields NewPresence (NewNodePool 4) NewRoster 0 [])"

definition demo_daemon :: daemon_cfg where
  "demo_daemon = \<lparr>dm_idle = 5 * minute, dm_dailyMinutes = 60, dm_artPath = [], dm_auditPath = str ''audit'', dm_doorOpts = demo_opts,
     dm_doorsData = str ''doors'', dm_roster = (\<lambda>_. NewRoster), dm_sysopPass = [],
     dm_installer = NewDoorInstaller demo_forge (\<lambda>_. 4000) (str ''doors''), dm_games = mc_games demo_cfg\<rparr>"

lemma demo_server_simps [simp]:
  "st_db (demo_server d ss) = d" "c_sess (demo_server d ss) = ss" "sv_roster (demo_server d ss) = NewRoster"
  by (simp_all add: demo_server_def demo_call_def calm_store_def calm_env_def server.defs call.defs store.defs env.defs)

lemma login_db_account: "only_account 1 [98] (d_user login_db)"
  by (simp add: only_account_def login_db_def tbl_get_def demo_user_def CoSysOpLevel_def SysOpLevel_def)

theorem ssh_visit_confined_witness:
  "confined 1 login_db (st_db (snd (sshHandle demo_libs demo_daemon [] 80 24 (demo_server login_db login_session))))"
  using ssh_visit_confined [of "demo_server login_db login_session" 1 demo_libs demo_daemon "[]" 80 24] login_db_inv login_db_account
  by (simp add: login_session_def)

theorem ssh_visit_releases_witness:
  "released (demo_server login_db login_session) (snd (sshHandle demo_libs demo_daemon [] 80 24 (demo_server login_db login_session)))"
  by (rule ssh_visit_releases) (simp add: NewRoster_def)

definition keyed_db :: db where
  "keyed_db = demo_db\<lparr>d_key := \<lparr>t_rows = [(1, \<lparr>k_user_id = 2, k_public_key = [75], k_fingerprint = [75], k_comment = [],
     k_added_at = 0, k_revoked_at = None\<rparr>)], t_seq = 1\<rparr>\<rparr>"

lemma keyed_db_inv: "db_inv keyed_db"
  unfolding keyed_db_def by (intro db_set) (auto simp: wf_tbl_def all_rows_def tbl_get_def fk_iff)

theorem authenticator_sound_witness:
  "fst (authenticator demo_libs [67] [75] (calm_store keyed_db)) = Inr True \<and>
   (\<exists>i r k kr. tbl_get (d_user keyed_db) i = Some r \<and> nocase (u_handle r) = nocase [67] \<and> u_status r = StatusApproved \<and>
      tbl_get (d_key keyed_db) k = Some kr \<and> k_user_id kr = i \<and> k_revoked_at kr = None \<and> k_fingerprint kr = [75])"
proof -
  have yes: "fst (authenticator demo_libs [67] [75] (calm_store keyed_db)) = Inr True"
    by (simp add: authenticator_def att_run users_ByHandle_def query_ok keyed_db_def tbl_select_def demo_user_def nocase_def lower_byte_def
      first_row_def bind_err_def norows_notfound_def users_scan_def unseal_def keys_Authorizes_def chk_run keys_Active_def demo_libs_def)
  with authenticator_sound [of "calm_store keyed_db" demo_libs "[67]" "[75]"] keyed_db_inv show ?thesis
    by (simp add: demo_libs_def)
qed

theorem budget_enforced_witness:
  "\<exists>d. \<bar>of_int d - 30 * 60000000000\<bar> \<le> (2000 :: rat) \<and>
     s_budget_at (c_sess (snd (enforceBudget demo_libs (demo_member\<lparr>U_DailyMinutes := 30\<rparr>) 60 (demo_call demo_db login_session)))) = Some d"
proof -
  let ?s = "demo_call demo_db login_session" and ?u = "demo_member\<lparr>U_DailyMinutes := 30\<rparr>"
  let ?at = "s_budget_at (c_sess (snd (enforceBudget demo_libs ?u 60 ?s)))"
  have b: "daily_budget ?u 60 ?s = (Inr 30, ?s)" by (simp add: daily_budget_def)
  obtain t' where m: "slog_MinutesToday (l_sum demo_libs) (U_Handle ?u) ?s = (Inr 0, t')"
    by (simp add: slog_MinutesToday_def chk_run time_Now_def query_ok minutes_since_def demo_db_def empty_db_def tbl_empty_def tbl_select_def)
  obtain d where d: "\<bar>of_int d - 30 * 60000000000\<bar> \<le> (2000 :: rat)" "?at = (if 0 < d then Some d else None)"
    using budget_enforced [OF b m] by (auto simp: demo_member_def sysopLevel_def login_session_def demo_session_def)
  moreover have "0 < d"
  proof -
    have "(of_int 0 :: rat) < of_int d" using d(1) by simp
    then show ?thesis by (simp only: of_int_less_iff)
  qed
  ultimately show ?thesis by auto
qed

lemma gate_demo: "fst (gate_entry (demo_call login_db login_session)) = Inr [97, 98, 99]"
  using login_demo_types [of "wr_out (wr_calls (ask (nl @ str ''SysOp panel password: '')) (writer_of login_session))"]
  by (simp add: gate_entry_def chk_run scr_New_def Let_def say_def on_sess_def rd_password_def prod.case_eq_if writer_of_def)

theorem panel_gate_witness:
  "log_only login_db (st_db (snd (RunSysOp demo_libs (demo_member\<lparr>U_AccessLevel := 90\<rparr>) [] [97, 98] None (demo_call login_db login_session))))"
  using panel_gate [of "[97, 98]" "demo_call login_db login_session" demo_libs "demo_member\<lparr>U_AccessLevel := 90\<rparr>" "[]" None] gate_demo
  by simp

definition long_day_db :: db where
  "long_day_db = demo_db\<lparr>d_slog := \<lparr>t_rows = [(1, \<lparr>sl_session_id = [], sl_username = [66], sl_transport = str ''ssh'',
     sl_remote_ip = [], sl_event_type = TypeDisconnect, sl_action = [], sl_detail = [], sl_minutes = 1440, sl_at = 0\<rparr>)],
     t_seq = 1\<rparr>\<rparr>"

text \<open>
  A daily budget that can be walked around. Handles are looked up in any case of letters, but
  the minutes of a session are logged under the name the client typed and summed under the handle
  as registered: here the account \<open>b\<close> has used a whole day logged in as \<open>B\<close>, the first factor's
  lookup of \<open>B\<close> finds that account, and the minutes counted against it are none.
\<close>

theorem budget_other_case:
  "\<exists>u t. users_ByHandle [66] (calm_store long_day_db) = (Inr u, t) \<and> U_ID u = 1 \<and> U_Handle u = [98] \<and>
     fst (slog_MinutesToday (\<lambda>xs. hd xs) (U_Handle u) t) = Inr 0 \<and> fst (slog_MinutesToday (\<lambda>xs. hd xs) [66] t) = Inr 1440"
  by (simp add: users_ByHandle_def query_ok long_day_db_def tbl_select_def demo_user_def nocase_def lower_byte_def
      first_row_def bind_err_def norows_notfound_def users_scan_def unseal_def slog_MinutesToday_def chk_run time_Now_def
      minutes_since_def text_since_def day_def)

text \<open>
  Limits too large to be kept are no limits. A SysOp may set any positive number of minutes. As
  nanoseconds, 200 million minutes are beyond \<open>int64\<close>: where the conversion then gives the smallest
  \<open>int64\<close>, as on amd64, no watchdog is armed, and the member has no budget at all.
\<close>

theorem budget_overflow:
  "s_closed (c_sess (snd (enforceBudget demo_libs (demo_member\<lparr>U_DailyMinutes := 200000000\<rparr>) 60 (demo_call demo_db login_session)))) = False \<and>
   s_budget_at (c_sess (snd (enforceBudget demo_libs (demo_member\<lparr>U_DailyMinutes := 200000000\<rparr>) 60 (demo_call demo_db login_session)))) = None"
proof -
  let ?s = "demo_call demo_db login_session" and ?u = "demo_member\<lparr>U_DailyMinutes := 200000000\<rparr>"
  have b: "daily_budget ?u 60 ?s = (Inr 200000000, ?s)" by (simp add: daily_budget_def)
  obtain t' where m: "slog_MinutesToday (l_sum demo_libs) (U_Handle ?u) ?s = (Inr 0, t')"
    by (simp add: slog_MinutesToday_def chk_run time_Now_def query_ok minutes_since_def demo_db_def empty_db_def tbl_empty_def tbl_select_def)
  have "\<not> f64_sub (f64_of_int 200000000) 0 \<le> 0" by code_simp
  moreover have "dur_of_minutes (\<lambda>_. - (2 ^ 63)) (f64_sub (f64_of_int 200000000) 0) = - (2 ^ 63)" by code_simp
  moreover have "l_oor demo_libs = (\<lambda>_. - (2 ^ 63))" by (simp add: demo_libs_def)
  moreover have "U_AccessLevel ?u < sysopLevel" by (simp add: demo_member_def sysopLevel_def)
  ultimately show ?thesis using enforceBudget_run [OF b m]
    by (simp add: login_session_def demo_session_def)
qed

text \<open>
  The same for the idle timeout: 153722868 minutes wrap to a negative \<open>Duration\<close>, which arms nothing.
\<close>

theorem idle_overflow: "WatchIdle (wrap64 (153722868 * minute)) ss = ss"
  by (simp add: WatchIdle_def wrap64_def minute_def)

end
