(* ===== verification/SshTransport.thy ===== *)
theory SshTransport
  imports Daemon "HOL-Library.Word"
begin

text \<open>
  The listeners of \<open>transport/ssh.go\<close> and \<open>transport/telnet.go\<close>: the host key, what the accept
  loops do with a connection before anything of it is read (banlist, limiter), and the life of an
  SSH connection as a sequence of channels and of requests on each channel. The SSH protocol itself
  (\<open>golang.org/x/crypto/ssh\<close>) is outside: its decoding of request payloads and of keys are
  arguments.
\<close>

section \<open>Addresses\<close>

text \<open>The part before and the part after the last occurrence of a byte.\<close>

definition split_last :: "byte \<Rightarrow> bytes \<Rightarrow> (bytes \<times> bytes) option" where
  "split_last b s = (if b \<in> set s
     then Some (rev (tl (dropWhile (\<lambda>x. x \<noteq> b) (rev s))), rev (takeWhile (\<lambda>x. x \<noteq> b) (rev s))) else None)"

text \<open>The host of \<open>net.SplitHostPort\<close>; \<open>None\<close> where it reports an error.\<close>

definition SplitHost :: "bytes \<Rightarrow> bytes option" where
  "SplitHost hp = (case split_last 58 hp of
     None \<Rightarrow> None
   | Some (h, p) \<Rightarrow>
       if h \<noteq> [] \<and> hd h = 91 then
         let inner = butlast (tl h) in
         if last h = 93 \<and> 93 \<notin> set inner \<and> 91 \<notin> set inner \<and> 91 \<notin> set p \<and> 93 \<notin> set p then Some inner else None
       else if 58 \<in> set h \<or> 91 \<in> set (h @ p) \<or> 93 \<in> set (h @ p) then None else Some h)"

definition hostOf :: "bytes option \<Rightarrow> bytes" where
  "hostOf a = (case a of None \<Rightarrow> [] | Some s \<Rightarrow> (case SplitHost s of Some h \<Rightarrow> h | None \<Rightarrow> s))"

section \<open>Accepting\<close>

text \<open>One turn of an accept loop up to the start of the connection's goroutine: whether it is let in,
  and the limiter afterwards; \<open>None\<close> is a loop that hangs.\<close>

definition accept_conn :: "('ip, 'net) libs \<Rightarrow> bytes option \<Rightarrow> limiter \<Rightarrow> ('a store_scheme, (bool \<times> limiter) option) prog" where
  "accept_conn L addr lm = (let ip = hostOf addr in
     chk (banned L ip) (\<lambda>b. if b then ret (Some (False, lm)) else ret (acquire ip lm)))"

section \<open>The host key\<close>

record 'k hostkeys =
  hk_parse :: "bytes \<Rightarrow> 'k option"
  hk_gen :: "bytes \<Rightarrow> 'k"
  hk_pem :: "'k \<Rightarrow> bytes option"

definition loadOrCreateHostKey :: "'k hostkeys \<Rightarrow> bytes \<Rightarrow> ('a env_scheme, 'k) prog" where
  "loadOrCreateHostKey K path = att (os_ReadFile path) (\<lambda>r. case r of
     Inr d \<Rightarrow> (case hk_parse K d of None \<Rightarrow> fail ErrInvalidKey | Some k \<Rightarrow> ret k)
   | Inl e \<Rightarrow> chk (rand_Read 32) (\<lambda>seed. let k = hk_gen K seed in
       case hk_pem K k of
         None \<Rightarrow> fail ErrInvalidKey
       | Some d \<Rightarrow> chk (os_WriteFile path d) (\<lambda>_. ret k)))"

section \<open>Channels\<close>

record ptyReq =
  pq_Term :: bytes
  pq_Cols :: "32 word"
  pq_Rows :: "32 word"

record ssh_codec =
  un_pty :: "bytes \<Rightarrow> ptyReq option"
  un_win :: "bytes \<Rightarrow> (32 word \<times> 32 word) option"

record request =
  rq_Type :: bytes
  rq_WantReply :: bool
  rq_Payload :: bytes

record sshConn =
  sc_user :: bytes
  sc_termType :: bytes
  sc_win :: "int \<times> int"
  sc_winCh :: "(int \<times> int) list"
  sc_started :: bool

text \<open>What leaves the request loop: an answer to the client, or the start of the session.\<close>

datatype ssh_out = Reply bool | Session

text \<open>\<open>Request.Reply\<close> does nothing for a request that wants no reply.\<close>

definition rq_Reply :: "request \<Rightarrow> bool \<Rightarrow> ssh_out list" where
  "rq_Reply r ok = (if rq_WantReply r then [Reply ok] else [])"

text \<open>\<open>int(x)\<close> of a \<open>uint32\<close>, on a platform whose \<open>int\<close> has 64 bits; the capacity of the buffered
  channel of resizes.\<close>

definition go_int :: "32 word \<Rightarrow> int" where
  "go_int x = sint (ucast x :: 64 word)"

definition winCap :: nat where "winCap = 8"

definition serviceRequest :: "ssh_codec \<Rightarrow> request \<Rightarrow> sshConn \<Rightarrow> ssh_out list \<times> sshConn" where
  "serviceRequest K r c =
     (if rq_Type r = str ''pty-req'' then
        (rq_Reply r True, case un_pty K (rq_Payload r) of
           None \<Rightarrow> c
         | Some p \<Rightarrow> c\<lparr>sc_termType := pq_Term p, sc_win := (go_int (pq_Cols p), go_int (pq_Rows p))\<rparr>)
      else if rq_Type r = str ''window-change'' then
        (if rq_WantReply r then rq_Reply r True else [], case un_win K (rq_Payload r) of
           None \<Rightarrow> c
         | Some (cols, rows) \<Rightarrow> let ws = (go_int cols, go_int rows) in
             c\<lparr>sc_win := ws, sc_winCh := (if length (sc_winCh c) < winCap then sc_winCh c @ [ws] else sc_winCh c)\<rparr>)
      else if rq_Type r = str ''shell'' then
        (rq_Reply r True @ (if sc_started c then [] else [Session]), c\<lparr>sc_started := True\<rparr>)
      else if rq_Type r = str ''exec'' then (rq_Reply r False, c)
      else (if rq_WantReply r then rq_Reply r False else [], c))"

text \<open>A channel's life: requests, and the session taking a size off the channel of resizes.\<close>

datatype chan_event = Req request | TakeSize

fun service :: "ssh_codec \<Rightarrow> chan_event list \<Rightarrow> sshConn \<Rightarrow> ssh_out list \<times> sshConn" where
  "service K [] c = ([], c)"
| "service K (Req r # es) c = (case serviceRequest K r c of (o1, c1) \<Rightarrow>
     case service K es c1 of (o2, c2) \<Rightarrow> (o1 @ o2, c2))"
| "service K (TakeSize # es) c = service K es (c\<lparr>sc_winCh := tl (sc_winCh c)\<rparr>)"

definition newConn :: "bytes \<Rightarrow> sshConn" where
  "newConn user = \<lparr>sc_user = user, sc_termType = [], sc_win = (0, 0), sc_winCh = [], sc_started = False\<rparr>"

text \<open>A channel the client opens: its type, whether \<open>Accept\<close> works, and what happens on it.\<close>

record channel =
  ch_Type :: bytes
  ch_accepts :: bool
  ch_events :: "chan_event list"

datatype ch_result = Rejected | NotAccepted | Served "ssh_out list" sshConn

definition serveSSHConn :: "ssh_codec \<Rightarrow> bytes \<Rightarrow> channel list \<Rightarrow> ch_result list" where
  "serveSSHConn K user chans = map (\<lambda>ch.
     if ch_Type ch \<noteq> str ''session'' then Rejected
     else if \<not> ch_accepts ch then NotAccepted
     else (case service K (ch_events ch) (newConn user) of (outs, c) \<Rightarrow> Served outs c)) chans"

section \<open>Properties\<close>

lemma split_last_join: "b \<notin> set p \<Longrightarrow> split_last b (h @ b # p) = Some (h, p)"
proof -
  assume "b \<notin> set p"
  then have "takeWhile (\<lambda>x. x \<noteq> b) (rev p) = rev p" "dropWhile (\<lambda>x. x \<noteq> b) (rev p) = []"
    by (auto simp: takeWhile_eq_all_conv dropWhile_eq_Nil_conv)
  then show ?thesis by (simp add: split_last_def takeWhile_append dropWhile_append)
qed

text \<open>
  The banlist and the limiter count bare addresses: of the text \<open>net.JoinHostPort\<close> makes of a
  host and a port, with brackets around an IPv6 address, \<open>hostOf\<close> gives the host back.
\<close>

theorem hostOf_joined:
  assumes "set h \<inter> {91, 93} = {}" "set p \<inter> {58, 91, 93} = {}"
  shows "hostOf (Some ((if 58 \<in> set h then [91] @ h @ [93] else h) @ [58] @ p)) = h"
proof (cases "58 \<in> set h")
  case True
  have "split_last 58 (([91] @ h @ [93]) @ 58 # p) = Some ([91] @ h @ [93], p)" by (rule split_last_join) (use assms in auto)
  then show ?thesis using True assms by (auto simp: hostOf_def SplitHost_def Let_def)
next
  case False
  have "split_last 58 (h @ 58 # p) = Some (h, p)" by (rule split_last_join) (use assms in auto)
  then show ?thesis using False assms by (cases h) (auto simp: hostOf_def SplitHost_def)
qed

theorem hostOf_joined_witness:
  "hostOf (Some (str ''[::1]:2222'')) = str ''::1'' \<and> hostOf (Some (str ''10.0.0.7:50001'')) = str ''10.0.0.7''"
  using hostOf_joined [of "str ''::1''" "str ''2222''"] hostOf_joined [of "str ''10.0.0.7''" "str ''50001''"]
  by (simp add: str_def)

text \<open>
  C20: With a working disk the accept loops decide by the banlist first and by the limiter second: a
  connection from a banned address is dropped with the limiter as it was, any other gets exactly the
  answer of \<open>acquire\<close>, and deciding writes nothing to the database.
\<close>

theorem accept_gate:
  assumes "sound s"
  shows "fst (accept_conn L addr lm s) = Inr (case n_ParseIP (l_net L) (TrimSpace (hostOf addr)) of
      Some a \<Rightarrow> if banned_in (l_net L) (st_db s) a then Some (False, lm) else acquire (hostOf addr) lm
    | None \<Rightarrow> acquire (hostOf addr) lm) \<and> st_db (snd (accept_conn L addr lm s)) = st_db s"
proof -
  obtain r t where r: "bans_IsBanned (l_net L) (hostOf addr) s = (r, t)" by fastforce
  have "st_db t = st_db s"
    using r by (auto simp: bans_IsBanned_def att_run bans_Active_def query_def chk_run ext_def split: option.splits if_splits)
  moreover have "r = Inr (case n_ParseIP (l_net L) (TrimSpace (hostOf addr)) of None \<Rightarrow> False | Some a \<Rightarrow> banned_in (l_net L) (st_db s) a)"
    using IsBanned_ok [OF assms, of "l_net L" "hostOf addr"] r by simp
  ultimately show ?thesis using r by (simp add: accept_conn_def banned_def Let_def chk_run split: option.splits)
qed

definition banned_db :: db where
  "banned_db = demo_db\<lparr>d_ban := \<lparr>t_rows = [(1, \<lparr>b_pattern = [65], b_reason = [], b_banned_by = None, b_banned_at = 0,
     b_lifted_at = None\<rparr>)], t_seq = 1\<rparr>\<rparr>"

theorem accept_gate_witness:
  "fst (accept_conn demo_libs (Some [65, 58, 50]) (newLimiter DefaultLimits) (calm_store banned_db)) =
     Inr (Some (False, newLimiter DefaultLimits))"
proof -
  have host: "hostOf (Some [65, 58, 50]) = [65]" by code_simp
  have trim: "TrimSpace [65] = [65]" by code_simp
  have "banned_in demo_net banned_db 65"
    by (simp add: banned_in_def active_bans_def banned_db_def tbl_select_def ban_covers_def demo_net_def has_slash_def str_def)
  then show ?thesis
    using accept_gate [of "calm_store banned_db" demo_libs "Some [65, 58, 50]" "newLimiter DefaultLimits"]
    by (simp add: host trim demo_libs_def demo_net_def [THEN arg_cong [of _ _ n_ParseIP]])
qed

text \<open>
  The server keeps its identity. On a first start with a working disk a host key is made and
  stored, and every later start with a working disk presents that same key, provided the library
  reads back the keys it writes.
\<close>

theorem hostkey_stable:
  assumes "sound s" "e_fs s path = None" "\<And>k. \<exists>d. hk_pem K k = Some d \<and> hk_parse K d = Some k"
  shows "\<exists>k s'. loadOrCreateHostKey K path s = (Inr k, s') \<and> fst (loadOrCreateHostKey K path s') = Inr k \<and>
    e_fs (snd (loadOrCreateHostKey K path s')) = e_fs s'"
proof -
  let ?k = "hk_gen K (map (e_rand s) [e_rpos s ..< e_rpos s + 32])"
  obtain d where "hk_pem K ?k = Some d" "hk_parse K d = Some ?k" using assms(3) by blast
  then show ?thesis using assms(1,2)
    by (simp add: loadOrCreateHostKey_def att_run chk_run os_ReadFile_ok rand_Read_ok os_WriteFile_ok)
qed

theorem hostkey_stable_witness:
  "\<exists>k s'. loadOrCreateHostKey \<lparr>hk_parse = Some, hk_gen = id, hk_pem = Some\<rparr> [107] calm_env = (Inr k, s') \<and>
     fst (loadOrCreateHostKey \<lparr>hk_parse = Some, hk_gen = id, hk_pem = Some\<rparr> [107] s') = Inr k"
  using hostkey_stable [of calm_env "[107]" "\<lparr>hk_parse = Some, hk_gen = id, hk_pem = Some\<rparr>"] by (auto simp: calm_env_def sound_def)

text \<open>
  One failed read is enough to lose the host key. Where the key file is there and valid but
  reading it fails once, the server makes a new key, overwrites the file with it and starts under
  the new identity.
\<close>

theorem hostkey_overwritten:
  "let s = calm_env\<lparr>e_fault := (\<lambda>n. n = 0), e_fs := [[107] \<mapsto> [1, 2, 3]]\<rparr>; K = \<lparr>hk_parse = Some, hk_gen = id, hk_pem = Some\<rparr>;
     t = snd (loadOrCreateHostKey K [107] s) in
   fst (loadOrCreateHostKey K [107] (s\<lparr>e_fault := (\<lambda>n. False)\<rparr>)) = Inr [1, 2, 3] \<and>
   fst (loadOrCreateHostKey K [107] s) = Inr (map (e_rand s) [0 ..< 32]) \<and> e_fs t [107] = Some (map (e_rand s) [0 ..< 32])"
  by (simp add: Let_def loadOrCreateHostKey_def att_run chk_run os_ReadFile_def rand_Read_def os_WriteFile_def ext_def calm_env_def
      upt_rec [of _ "Suc _"])

subsection \<open>Requests\<close>

fun answers :: "ssh_out list \<Rightarrow> bool list" where
  "answers [] = []"
| "answers (Reply b # os) = b # answers os"
| "answers (Session # os) = answers os"

fun requests :: "chan_event list \<Rightarrow> request list" where
  "requests [] = []"
| "requests (Req r # es) = r # requests es"
| "requests (TakeSize # es) = requests es"

fun handlers :: "ch_result \<Rightarrow> nat" where
  "handlers (Served outs c) = count_list outs Session"
| "handlers _ = 0"

definition served_types :: "bytes set" where
  "served_types = {str ''pty-req'', str ''window-change'', str ''shell''}"

lemma answers_append [simp]: "answers (a @ b) = answers a @ answers b"
  by (induction a rule: answers.induct) auto

lemma type_names:
  "str ''pty-req'' \<noteq> str ''shell''" "str ''window-change'' \<noteq> str ''shell''" "str ''exec'' \<noteq> str ''shell''"
  "str ''exec'' \<noteq> str ''pty-req''" "str ''exec'' \<noteq> str ''window-change''"
  by (simp_all add: str_def)

lemma serviceRequest_outs:
  "answers (fst (serviceRequest K r c)) = (if rq_WantReply r then [rq_Type r \<in> served_types] else [])"
  "count_list (fst (serviceRequest K r c)) Session = (if rq_Type r = str ''shell'' \<and> \<not> sc_started c then 1 else 0)"
  "sc_started (snd (serviceRequest K r c)) \<longleftrightarrow> rq_Type r = str ''shell'' \<or> sc_started c"
  "sc_user (snd (serviceRequest K r c)) = sc_user c"
  using type_names type_names [symmetric]
  by (auto simp: serviceRequest_def rq_Reply_def served_types_def Let_def split: option.splits)

lemma service_outs:
  "answers (fst (service K es c)) = map (\<lambda>r. rq_Type r \<in> served_types) (filter rq_WantReply (requests es)) \<and>
   count_list (fst (service K es c)) Session = (if \<not> sc_started c \<and> str ''shell'' \<in> rq_Type ` set (requests es) then 1 else 0) \<and>
   sc_user (snd (service K es c)) = sc_user c"
proof (induction K es c rule: service.induct)
  case (2 K r es c)
  obtain o1 c1 where 1: "serviceRequest K r c = (o1, c1)" by fastforce
  show ?case using 2 [OF 1 [symmetric]] serviceRequest_outs [of K r c] 1 by (auto split: prod.splits)
qed auto

text \<open>
  C19: What a client can ask of a channel. Whatever requests come, in whatever order and however
  often, and whenever the session takes a resize: every request that wants an answer gets exactly
  one, in order, and it is yes only for a terminal, a resize or a shell (commands, subsystems,
  forwarding and environment are refused); the session starts once if a shell was ever asked for
  and never otherwise; and it runs under the name the connection was authenticated with.
\<close>

theorem ssh_requests:
  "case service K es (newConn user) of (outs, c) \<Rightarrow>
     answers outs = map (\<lambda>r. rq_Type r \<in> {str ''pty-req'', str ''window-change'', str ''shell''}) (filter rq_WantReply (requests es)) \<and>
     count_list outs Session = (if str ''shell'' \<in> rq_Type ` set (requests es) then 1 else 0) \<and> sc_user c = user"
  using service_outs [of K es "newConn user"] by (cases "service K es (newConn user)") (auto simp: newConn_def served_types_def)

text \<open>
  A connection may hold more sessions than the limiter counts. The limiter gives one slot to a
  connection, and the connection starts a session for every session channel it opens: \<open>n\<close> channels,
  each with a shell request, start \<open>n\<close> sessions.
\<close>

theorem sessions_uncapped:
  "sum_list (map handlers (serveSSHConn K user (replicate n \<lparr>ch_Type = str ''session'', ch_accepts = True,
     ch_events = [Req \<lparr>rq_Type = str ''shell'', rq_WantReply = True, rq_Payload = []\<rparr>]\<rparr>))) = n"
proof -
  let ?es = "[Req \<lparr>rq_Type = str ''shell'', rq_WantReply = True, rq_Payload = []\<rparr>]"
  obtain outs c where run: "service K ?es (newConn user) = (outs, c)" by fastforce
  then have "count_list outs Session = 1" using service_outs [of K ?es "newConn user"] by (simp add: newConn_def)
  then show ?thesis unfolding serveSSHConn_def by (simp add: run sum_list_replicate del: service.simps)
qed

subsection \<open>Sizes\<close>

lemma go_int_uint: "go_int x = uint x"
proof -
  have b: "uint x < 4294967296" "0 \<le> uint x" using uint_lt2p [of x] by simp_all
  have "- (2 ^ 63) \<le> uint x" by (rule order_trans [OF _ b(2)]) simp
  moreover have "uint x < 2 ^ 63" using b(1) by simp
  ultimately have "signed_take_bit 63 (uint x) = uint x" by (rule signed_take_bit_int_eq_self)
  moreover have "uint (ucast x :: 64 word) = uint x" by (rule uint_up_ucast) (simp add: is_up)
  ultimately show ?thesis by (simp add: go_int_def sint_uint)
qed

text \<open>What the requests say, one by one: the size after it, the terminal name after it, and the
  resizes it announces.\<close>

definition req_size :: "ssh_codec \<Rightarrow> int \<times> int \<Rightarrow> request \<Rightarrow> int \<times> int" where
  "req_size K w r =
     (if rq_Type r = str ''pty-req'' then (case un_pty K (rq_Payload r) of None \<Rightarrow> w | Some p \<Rightarrow> (uint (pq_Cols p), uint (pq_Rows p)))
      else if rq_Type r = str ''window-change'' then (case un_win K (rq_Payload r) of None \<Rightarrow> w | Some (x, y) \<Rightarrow> (uint x, uint y))
      else w)"

definition req_term :: "ssh_codec \<Rightarrow> bytes \<Rightarrow> request \<Rightarrow> bytes" where
  "req_term K t r = (if rq_Type r = str ''pty-req'' then (case un_pty K (rq_Payload r) of None \<Rightarrow> t | Some p \<Rightarrow> pq_Term p) else t)"

definition resizes :: "ssh_codec \<Rightarrow> request \<Rightarrow> (int \<times> int) list" where
  "resizes K r = (if rq_Type r = str ''window-change'' then (case un_win K (rq_Payload r) of None \<Rightarrow> [] | Some (x, y) \<Rightarrow> [(uint x, uint y)]) else [])"

text \<open>The sizes the session takes off the channel, in order; whether there was room for every resize.\<close>

fun taken :: "ssh_codec \<Rightarrow> chan_event list \<Rightarrow> sshConn \<Rightarrow> (int \<times> int) list" where
  "taken K [] c = []"
| "taken K (Req r # es) c = taken K es (snd (serviceRequest K r c))"
| "taken K (TakeSize # es) c = take 1 (sc_winCh c) @ taken K es (c\<lparr>sc_winCh := tl (sc_winCh c)\<rparr>)"

fun had_room :: "ssh_codec \<Rightarrow> chan_event list \<Rightarrow> sshConn \<Rightarrow> bool" where
  "had_room K [] c = True"
| "had_room K (Req r # es) c = ((resizes K r = [] \<or> length (sc_winCh c) < 8) \<and> had_room K es (snd (serviceRequest K r c)))"
| "had_room K (TakeSize # es) c = had_room K es (c\<lparr>sc_winCh := tl (sc_winCh c)\<rparr>)"

lemma serviceRequest_sizes:
  "sc_win (snd (serviceRequest K r c)) = req_size K (sc_win c) r"
  "sc_termType (snd (serviceRequest K r c)) = req_term K (sc_termType c) r"
  "sc_winCh (snd (serviceRequest K r c)) = sc_winCh c @ (if length (sc_winCh c) < 8 then resizes K r else [])"
  using type_names type_names [symmetric]
  by (auto simp: serviceRequest_def req_size_def req_term_def resizes_def go_int_uint winCap_def Let_def str_def split: option.splits)

lemma service_sizes:
  "sc_win (snd (service K es c)) = foldl (req_size K) (sc_win c) (requests es) \<and>
   sc_termType (snd (service K es c)) = foldl (req_term K) (sc_termType c) (requests es)"
proof (induction K es c rule: service.induct)
  case (2 K r es c)
  obtain o1 c1 where 1: "serviceRequest K r c = (o1, c1)" by fastforce
  then show ?case using 2 [OF 1 [symmetric]] serviceRequest_sizes [of K r c] by (auto split: prod.splits)
qed auto

lemma service_taken:
  "subseq (taken K es c @ sc_winCh (snd (service K es c))) (sc_winCh c @ concat (map (resizes K) (requests es))) \<and>
   (had_room K es c \<longrightarrow> taken K es c @ sc_winCh (snd (service K es c)) = sc_winCh c @ concat (map (resizes K) (requests es)))"
proof (induction K es c rule: service.induct)
  case (2 K r es c)
  obtain o1 c1 where 1: "serviceRequest K r c = (o1, c1)" by fastforce
  have c1: "sc_winCh c1 = sc_winCh c @ (if length (sc_winCh c) < 8 then resizes K r else [])"
    using serviceRequest_sizes(3) [of K r c] 1 by simp
  have IH: "subseq (taken K es c1 @ sc_winCh (snd (service K es c1))) (sc_winCh c1 @ concat (map (resizes K) (requests es)))"
    "had_room K es c1 \<longrightarrow> taken K es c1 @ sc_winCh (snd (service K es c1)) = sc_winCh c1 @ concat (map (resizes K) (requests es))"
    using 2 [OF 1 [symmetric]] by auto
  have "subseq (sc_winCh c1 @ concat (map (resizes K) (requests es)))
      (sc_winCh c @ concat (map (resizes K) (requests (Req r # es))))"
    unfolding c1 by (auto intro!: list_emb_append_mono)
  then have "subseq (taken K es c1 @ sc_winCh (snd (service K es c1))) (sc_winCh c @ concat (map (resizes K) (requests (Req r # es))))"
    using IH(1) subseq_order.trans by blast
  moreover have "sc_winCh c1 = sc_winCh c @ resizes K r" if "had_room K (Req r # es) c" using that c1 by auto
  ultimately show ?case using IH(2) 1 by (auto split: prod.splits)
next
  case (3 K es c)
  then show ?case by (cases "sc_winCh c") auto
qed auto

text \<open>
  C40: The session sees the terminal the client reports. Through any course of requests, the size
  of the connection is that of the last terminal or resize request that could be decoded, with the
  numbers the client sent (the conversion from \<open>uint32\<close> loses nothing), and its terminal name that
  of the last terminal request; the sizes the session takes off the channel of resizes, with those
  still waiting, are resizes the client announced, in order, and all of them if none arrived while
  eight were waiting.
\<close>

theorem ssh_window:
  "case service K es (newConn user) of (outs, c) \<Rightarrow>
     sc_win c = foldl (req_size K) (0, 0) (requests es) \<and> sc_termType c = foldl (req_term K) [] (requests es) \<and>
     subseq (taken K es (newConn user) @ sc_winCh c) (concat (map (resizes K) (requests es))) \<and>
     (had_room K es (newConn user) \<longrightarrow> taken K es (newConn user) @ sc_winCh c = concat (map (resizes K) (requests es)))"
  using service_sizes [of K es "newConn user"] service_taken [of K es "newConn user"]
  by (cases "service K es (newConn user)") (simp add: newConn_def)

definition demo_codec :: ssh_codec where
  "demo_codec = \<lparr>un_pty = (\<lambda>p. Some \<lparr>pq_Term = p, pq_Cols = 80, pq_Rows = 24\<rparr>), un_win = (\<lambda>p. Some (ucast (hd p), 50))\<rparr>"

definition demo_resize :: "byte \<Rightarrow> chan_event" where
  "demo_resize n = Req \<lparr>rq_Type = str ''window-change'', rq_WantReply = False, rq_Payload = [n]\<rparr>"

lemma ssh_window_witness:
  "taken demo_codec [demo_resize 100, TakeSize] (newConn []) @ sc_winCh (snd (service demo_codec [demo_resize 100, TakeSize] (newConn []))) = [(100, 50)]"
proof -
  have "had_room demo_codec [demo_resize 100, TakeSize] (newConn [])"
    by (simp add: demo_resize_def newConn_def)
  then show ?thesis using ssh_window [of demo_codec "[demo_resize 100, TakeSize]" "[]"]
    by (auto simp: demo_resize_def resizes_def demo_codec_def split: prod.splits)
qed

text \<open>
  The newest resize is the one that is dropped. When eight sizes wait, a further resize changes
  the size of the connection but is not put on the channel: once the session has taken all eight
  it still shows the eighth, until the client resizes again.
\<close>

theorem resize_dropped:
  assumes "length (sc_winCh c) = 8" "resizes K r = [ws]"
  shows "sc_win (snd (serviceRequest K r c)) = ws \<and>
    taken K (Req r # replicate 8 TakeSize) c = sc_winCh c"
proof -
  have "take (Suc 0) xs @ take n (tl xs) = take (Suc n) xs" for n and xs :: "(int \<times> int) list" by (cases xs) auto
  then have "taken K (replicate n TakeSize) d = take n (sc_winCh d)" for n d
    by (induction n arbitrary: d) (simp_all del: take_tl)
  moreover have "req_size K (sc_win c) r = ws"
    using assms(2) type_names by (auto simp: resizes_def req_size_def str_def split: if_splits option.splits)
  ultimately show ?thesis using assms serviceRequest_sizes [of K r c] by simp
qed

lemma resize_dropped_witness:
  "sc_win (snd (serviceRequest demo_codec \<lparr>rq_Type = str ''window-change'', rq_WantReply = False, rq_Payload = [100]\<rparr>
     ((newConn [])\<lparr>sc_winCh := replicate 8 (80, 24)\<rparr>))) = (100, 50)"
  using resize_dropped [of "(newConn [])\<lparr>sc_winCh := replicate 8 (80, 24)\<rparr>" demo_codec
      "\<lparr>rq_Type = str ''window-change'', rq_WantReply = False, rq_Payload = [100]\<rparr>" "(100, 50)"]
  by (simp add: resizes_def demo_codec_def)

end
