(* ===== verification/SysopCtl.thy ===== *)
theory SysopCtl
  imports Daemon
begin

text \<open>
  The operator's tool, \<open>cmd/sysopctl/main.go\<close>, from the opened database on: listing the accounts,
  approving and promoting, bootstrapping a SysOp, adding a key. A command returns what it prints;
  \<open>log.Fatal\<close> is its error. The password variable and the standard input are arguments.
\<close>

section \<open>Commands\<close>

record operator =
  op_pass :: bytes
  op_stdin :: bytes

definition ctl_line :: "User \<Rightarrow> bytes" where
  "ctl_line u = pad_right 18 (U_Handle u) @ [32] @ pad_right 10 (U_Status u) @ [32] @ pad_right 6 (itoa (U_AccessLevel u)) @ [32] @
     (if U_PasswordHash u = [] then str ''(unset)'' else str ''set'') @ [10]"

definition ctl_list :: "('a store_scheme, bytes) prog" where
  "ctl_list = chk users_All (\<lambda>us. ret (pad_right 18 (str ''HANDLE'') @ [32] @ pad_right 10 (str ''STATUS'') @ [32] @
     pad_right 6 (str ''LEVEL'') @ [32] @ str ''PASSWORD'' @ [10] @ concat (map ctl_line us)))"

text \<open>The level in argument \<open>n\<close>, where there is one and it is a number.\<close>

definition ctl_level :: "nat \<Rightarrow> int \<Rightarrow> bytes list \<Rightarrow> int" where
  "ctl_level n dflt args = (if n < length args then case atoi (args ! n) of Some v \<Rightarrow> v | None \<Rightarrow> dflt else dflt)"

definition ctl_approve :: "bytes list \<Rightarrow> ('a store_scheme, bytes) prog" where
  "ctl_approve args = (if length args < 2 then fail ErrMalformed else
     let hdl = args ! 1; level = ctl_level 2 1 args in
     chk (users_ByHandle hdl) (\<lambda>u.
     chk (users_Approve (U_ID u) level) (\<lambda>_.
     let said = hdl @ str '' is now approved at access level '' @ itoa level @ str ''.'' @ [10] in
     if args ! 0 = str ''approve'' \<or> U_PasswordHash u = [] then
       chk (tokens_Issue (U_ID u)) (\<lambda>tok.
       ret (said @ str ''One-time onboarding token (relay out-of-band; used once on first SSH login):'' @ [10, 32, 32] @ tok @ [10]))
     else ret said)))"

text \<open>The public key: all of the standard input, or a file.\<close>

definition ctl_pubkey :: "operator \<Rightarrow> bytes \<Rightarrow> ('a env_scheme, bytes) prog" where
  "ctl_pubkey o1 arg = chk (if arg = [45] then chk (ext ErrIO) (\<lambda>_. ret (op_stdin o1)) else os_ReadFile arg) (\<lambda>b. ret (TrimSpace b))"

text \<open>The password: the variable, or else the next line of what the key left of the input.\<close>

definition ctl_password :: "operator \<Rightarrow> bytes \<Rightarrow> bytes" where
  "ctl_password o1 arg = (if op_pass o1 \<noteq> [] then op_pass o1 else
     let rest = (if arg = [45] then [] else op_stdin o1) in
     rev (dropWhile (\<lambda>b. b = 13 \<or> b = 10) (rev (takeWhile (\<lambda>b. b \<noteq> 10) rest))))"

definition ctl_account :: "bytes \<Rightarrow> ('a store_scheme, User) prog" where
  "ctl_account hdl = att (users_ByHandle hdl) (\<lambda>r. case r of
     Inr u \<Rightarrow> ret u | Inl e \<Rightarrow> users_Create hdl [] [] [])"

definition ctl_has_key :: "ssh_lib \<Rightarrow> int \<Rightarrow> bytes \<Rightarrow> ('a store_scheme, bool) prog" where
  "ctl_has_key K i line = (case ssh_parse K line of
     None \<Rightarrow> ret False
   | Some (pk, comment) \<Rightarrow> att (keys_Active i) (\<lambda>r. ret (case r of
       Inl e \<Rightarrow> False | Inr active \<Rightarrow> \<exists>x \<in> set active. k_fingerprint (snd x) = ssh_fingerprint K pk)))"

definition ctl_setup :: "ssh_lib \<Rightarrow> bytes \<Rightarrow> int \<Rightarrow> bytes \<Rightarrow> bytes \<Rightarrow> ('a store_scheme, bytes) prog" where
  "ctl_setup K hdl level line pw =
     (if \<not> ValidatePublicKey K line then fail ErrInvalidKey
      else if pw = [] then fail ErrNoSecret else
      chk (\<lambda>s. HashPassword (st_prims s) pw s) (\<lambda>hash.
      chk (ctl_account hdl) (\<lambda>u.
      chk (users_SetPassword (U_ID u) hash) (\<lambda>_.
      chk (users_Approve (U_ID u) level) (\<lambda>_.
      chk (ctl_has_key K (U_ID u) line) (\<lambda>has.
      if has then ret (str ''SSH key already registered to this account'' @ [10])
      else chk (keys_Add K (U_ID u) line) (\<lambda>k. ret (str ''registered SSH key '' @ k_fingerprint (snd k) @ [10]))))))))"

definition ctl_bootstrap :: "('ip, 'net) libs \<Rightarrow> operator \<Rightarrow> bytes list \<Rightarrow> ('a store_scheme, bytes) prog" where
  "ctl_bootstrap L o1 args = (if length args < 3 then fail ErrMalformed else
     let hdl = args ! 1; level = ctl_level 3 100 args in
     chk (ctl_pubkey o1 (args ! 2)) (\<lambda>line.
     chk (ctl_setup (l_ssh L) hdl level line (ctl_password o1 (args ! 2))) (\<lambda>said.
     ret (said @ str ''SysOp '' @ l_quote L hdl @ str '' is ready at access level '' @ itoa level @
       str '' (password set, key registered).'' @ [10] @
       str ''Log in over SSH with that key + password '' @ dash @ str '' no onboarding token needed.'' @ [10]))))"

definition ctl_addkey :: "('ip, 'net) libs \<Rightarrow> operator \<Rightarrow> bytes list \<Rightarrow> ('a store_scheme, bytes) prog" where
  "ctl_addkey L o1 args = (if length args < 3 then fail ErrMalformed else
     chk (ctl_pubkey o1 (args ! 2)) (\<lambda>line.
     if \<not> ValidatePublicKey (l_ssh L) line then fail ErrInvalidKey else
     chk (users_ByHandle (args ! 1)) (\<lambda>u.
     chk (keys_Add (l_ssh L) (U_ID u) line) (\<lambda>k.
     ret (str ''registered SSH key '' @ k_fingerprint (snd k) @ str '' on '' @ l_quote L (args ! 1) @ str ''.'' @ [10])))))"

definition sysopctl :: "('ip, 'net) libs \<Rightarrow> operator \<Rightarrow> bytes list \<Rightarrow> ('a store_scheme, bytes) prog" where
  "sysopctl L o1 args = (case args of
     [] \<Rightarrow> fail ErrMalformed
   | cmd # _ \<Rightarrow>
       if cmd = str ''list'' then ctl_list
       else if cmd = str ''approve'' \<or> cmd = str ''promote'' then ctl_approve args
       else if cmd = str ''bootstrap'' then ctl_bootstrap L o1 args
       else if cmd = str ''addkey'' then ctl_addkey L o1 args
       else fail ErrMalformed)"

section \<open>Properties\<close>

lemma Create_row:
  assumes "users_Create h p a b s = (Inr u, s')"
  shows "\<exists>r. ins_user r (st_db s) = Inr (U_ID u, st_db s') \<and> u_handle r = h"
proof -
  from assms [unfolded users_Create_def] show ?thesis
  proof (rule seal2_cases)
    fix x y k q
    let ?t = "s\<lparr>e_step := k, e_rpos := q\<rparr>"
    let ?r = "\<lparr>u_handle = h, u_password_hash = p, u_real_name = x, u_email = y, u_access_level = 0, u_status = StatusPending,
      u_daily_minutes = 0, u_created_at = e_clock ?t (e_step ?t), u_last_login_at = None, u_last_login_ip = [], u_points = 0,
      u_colorblind = 0\<rparr>"
    assume "chk time_Now (\<lambda>now. chk (exec (ins_user \<lparr>u_handle = h, u_password_hash = p, u_real_name = x, u_email = y,
        u_access_level = 0, u_status = StatusPending, u_daily_minutes = 0, u_created_at = now, u_last_login_at = None,
        u_last_login_ip = [], u_points = 0, u_colorblind = 0\<rparr>)) users_ByID) ?t = (Inr u, s')"
    then have "chk (exec (ins_user ?r)) users_ByID ?t = (Inr u, s')" by (simp add: time_Now_def chk_run)
    then obtain i t where ins: "exec (ins_user ?r) ?t = (Inr i, t)" and id: "users_ByID i t = (Inr u, s')" by (rule chk_InrE)
    from ins obtain d where "ins_user ?r (st_db ?t) = Inr (i, d)" "t = ?t\<lparr>e_step := e_step ?t + 1, st_db := d\<rparr>" by (rule exec_InrD)
    moreover have "U_ID u = i" using id by (simp add: ByID_id)
    moreover have "st_db s' = st_db t" using query_db [OF id [unfolded users_ByID_def]] by auto
    ultimately show ?thesis by (intro exI [of _ ?r]) simp
  qed simp
qed

lemma ctl_account_row:
  assumes "ctl_account h s = (Inr u, t)" "db_inv (st_db s)"
  shows "db_inv (st_db t) \<and> (\<exists>r. tbl_get (d_user (st_db t)) (U_ID u) = Some r \<and> nocase (u_handle r) = nocase h)"
proof (cases "users_ByHandle h s")
  case (Pair q s1)
  have wf: "wf_tbl (d_user (st_db s))" using db_inv_user [OF assms(2)] by simp
  have db1: "st_db s1 = st_db s" using ByHandle_db [of h s] Pair by simp
  show ?thesis
  proof (cases q)
    case (Inr u0)
    then have "u = u0" "t = s1" using assms(1) Pair by (auto simp: ctl_account_def att_run)
    then show ?thesis using ByHandle_row(2) [OF Pair [unfolded Inr] wf] db1 assms(2) by auto
  next
    case (Inl e)
    then have "users_Create h [] [] [] s1 = (Inr u, t)" using assms(1) Pair by (simp add: ctl_account_def att_run)
    then obtain r where r: "ins_user r (st_db s) = Inr (U_ID u, st_db t)" "u_handle r = h" using Create_row db1 by metis
    then have "U_ID u = t_seq (d_user (st_db s)) + 1" "st_db t = (st_db s)\<lparr>d_user := snd (tbl_insert r (d_user (st_db s)))\<rparr>"
      by (auto simp: ins_user_def split: if_splits)
    then have "tbl_get (d_user (st_db t)) (U_ID u) = Some r" using wf by (simp add: tbl_insert_get)
    then show ?thesis using ins_user_inv [OF r(1)] r(2) assms(2) by (auto simp: inv_rel_def)
  qed
qed

lemma update_row:
  assumes "exec (upd_user i f) s = (Inr x, t)" "\<And>r. u_handle (f r) = u_handle r" "db_inv (st_db s)" "tbl_get (d_user (st_db s)) i = Some r"
  shows "db_inv (st_db t) \<and> tbl_get (d_user (st_db t)) i = Some (f r) \<and> d_key (st_db t) = d_key (st_db s)"
proof -
  from assms(1) obtain d where d: "upd_user i f (st_db s) = Inr (x, d)" "t = s\<lparr>e_step := e_step s + 1, st_db := d\<rparr>" by (rule exec_InrD)
  then have "inv_rel (st_db s) d" using upd_user_inv assms(2) by blast
  then show ?thesis using d assms(3,4) by (auto simp: upd_user_def inv_rel_def tbl_update_get)
qed

lemma has_key_row:
  assumes "ctl_has_key K i line s = (Inr True, t)" "db_inv (st_db s)"
  shows "st_db t = st_db s \<and> (\<exists>pk c k kr. ssh_parse K line = Some (pk, c) \<and> tbl_get (d_key (st_db s)) k = Some kr \<and>
    k_user_id kr = i \<and> k_revoked_at kr = None \<and> k_fingerprint kr = ssh_fingerprint K pk)"
proof -
  obtain pk c where pk: "ssh_parse K line = Some (pk, c)" using assms(1) by (cases "ssh_parse K line") (auto simp: ctl_has_key_def)
  obtain q s1 where q: "keys_Active i s = (q, s1)" by fastforce
  then obtain l where l: "q = Inr l" "\<exists>x \<in> set l. k_fingerprint (snd x) = ssh_fingerprint K pk" "t = s1"
    using assms(1) pk by (auto simp: ctl_has_key_def att_run split: sum.splits)
  from query_InrD [OF q [unfolded l(1) keys_Active_def]]
  have "l = tbl_select (\<lambda>j k. k_user_id k = i \<and> k_revoked_at k = None) (d_key (st_db s))" "st_db s1 = st_db s" by auto
  then show ?thesis using l(2,3) pk db_inv_key [OF assms(2)] by (fastforce simp: tbl_select_get)
qed

lemma has_key_db: "ctl_has_key K i line s = (r, t) \<Longrightarrow> st_db t = st_db s"
  by (auto simp: ctl_has_key_def att_run keys_Active_def query_def chk_run ext_def split: option.splits if_splits)

lemma Add_row:
  fixes s :: "'a store_scheme"
  assumes "keys_Add K i line s = (Inr x, t)" "db_inv (st_db s)"
  shows "d_user (st_db t) = d_user (st_db s) \<and> (\<exists>pk c k kr. ssh_parse K line = Some (pk, c) \<and> tbl_get (d_key (st_db t)) k = Some kr \<and>
    k_user_id kr = i \<and> k_revoked_at kr = None \<and> k_fingerprint kr = ssh_fingerprint K pk)"
proof -
  obtain pk c where pk: "ssh_parse K line = Some (pk, c)" using assms(1) by (cases "ssh_parse K line") (auto simp: keys_Add_def)
  define row where "row = (\<lambda>now. \<lparr>k_user_id = i, k_public_key = TrimSpace (ssh_marshal K pk), k_fingerprint = ssh_fingerprint K pk,
    k_comment = c, k_added_at = now, k_revoked_at = None\<rparr>)"
  let ?q1 = "query (\<lambda>d. bind_err (first_row (sel_id (d_user d) i)) (\<lambda>(j, r). Inr (u_access_level r)))"
  let ?q2 = "query (\<lambda>d. Inr (holder_levels d (ssh_fingerprint K pk) i))"
  let ?now = "e_clock s (e_step s)"
  define rest where "rest = (\<lambda>lvl lvls. if \<exists>l \<in> set lvls. (SysOpLevel \<le> l) = (SysOpLevel \<le> lvl) then fail ErrKeyTaken
      else chk (exec (ins_key (row ?now))) keys_byID :: ('a store_scheme, int \<times> key_row) prog)"
  have "keys_Add K i line s = chk ?q1 (\<lambda>lvl. chk ?q2 (rest lvl)) s"
    unfolding row_def rest_def using pk by (simp add: keys_Add_def Let_def chk_run time_Now_def)
  then have "chk ?q1 (\<lambda>lvl. chk ?q2 (rest lvl)) s = (Inr x, t)" using assms(1) by simp
  then obtain lvl t1 where q1: "?q1 s = (Inr lvl, t1)" and k1: "chk ?q2 (rest lvl) t1 = (Inr x, t)" by (rule chk_InrE)
  from k1 obtain lvls s1 where q2: "?q2 t1 = (Inr lvls, s1)" and "rest lvl lvls s1 = (Inr x, t)" by (rule chk_InrE)
  then obtain now j s2 where ins: "st_db s1 = st_db s" "exec (ins_key (row now)) s1 = (Inr j, s2)" "keys_byID j s2 = (Inr x, t)"
    using query_db [OF q1] query_db [OF q2] by (auto simp: rest_def elim!: chk_InrE split: if_splits)
  from ins(2) obtain d where d: "ins_key (row now) (st_db s1) = Inr (j, d)" "s2 = s1\<lparr>e_step := e_step s1 + 1, st_db := d\<rparr>" by (rule exec_InrD)
  have "st_db t = d" using query_db [OF ins(3) [unfolded keys_byID_def]] d(2) by auto
  moreover have "j = t_seq (d_key (st_db s)) + 1" "d = (st_db s)\<lparr>d_key := snd (tbl_insert (row now) (d_key (st_db s)))\<rparr>"
    using d(1) ins(1) by (auto simp: ins_key_def split: if_splits)
  moreover have "wf_tbl (d_key (st_db s))" using db_inv_key [OF assms(2)] by simp
  ultimately have "d_user (st_db t) = d_user (st_db s)" "tbl_get (d_key (st_db t)) j = Some (row now)"
    by (simp_all add: tbl_insert_get)
  then show ?thesis using pk by (intro conjI exI [of _ pk] exI [of _ c] exI [of _ j] exI [of _ "row now"]) (auto simp: row_def)
qed

lemma hash_verifies: "prims_ok P \<Longrightarrow> HashPassword P pw s = (Inr h, s') \<Longrightarrow> VerifyPassword P h pw = Inr True \<and> st_db s' = st_db s"
  unfolding HashPassword_def
  by (elim chk_InrE) (auto simp: VerifyPassword_text [simplified] prims_ok_def rand_Read_def ext_def chk_run split: if_splits)

text \<open>
  C38: \<open>bootstrap\<close> does what it prints. When it reports success, the account exists under that handle
  (in any case of letters), is approved at that level, its stored hash verifies the given password,
  and one of its keys, not revoked, has the fingerprint of the given key: both factors of a login
  are in place, whether the account was there before or not.
\<close>

theorem bootstrap_ready:
  assumes "ctl_setup K hdl level line pw s = (Inr out, t)" "db_inv (st_db s)" "prims_ok (st_prims s)"
  shows "\<exists>i r pk c k kr. tbl_get (d_user (st_db t)) i = Some r \<and> nocase (u_handle r) = nocase hdl \<and> u_status r = StatusApproved \<and>
    u_access_level r = level \<and> VerifyPassword (st_prims s) (u_password_hash r) pw = Inr True \<and> ssh_parse K line = Some (pk, c) \<and>
    tbl_get (d_key (st_db t)) k = Some kr \<and> k_user_id kr = i \<and> k_revoked_at kr = None \<and> k_fingerprint kr = ssh_fingerprint K pk"
proof -
  from assms(1) obtain h s1 u s2 s3 s4 has s5 where
    h: "HashPassword (st_prims s) pw s = (Inr h, s1)" and u: "ctl_account hdl s1 = (Inr u, s2)"
    and p: "users_SetPassword (U_ID u) h s2 = (Inr (), s3)" and a: "users_Approve (U_ID u) level s3 = (Inr (), s4)"
    and has: "ctl_has_key K (U_ID u) line s4 = (Inr has, s5)"
    and k: "(if has then ret (str ''SSH key already registered to this account'' @ [10])
      else chk (keys_Add K (U_ID u) line) (\<lambda>k. ret (str ''registered SSH key '' @ k_fingerprint (snd k) @ [10]))) s5 = (Inr out, t)"
    unfolding ctl_setup_def by (auto elim!: chk_InrE split: if_splits)
  let ?i = "U_ID u"
  have v: "VerifyPassword (st_prims s) h pw = Inr True" "st_db s1 = st_db s" using hash_verifies [OF assms(3) h] by auto
  obtain r where r: "db_inv (st_db s2)" "tbl_get (d_user (st_db s2)) ?i = Some r" "nocase (u_handle r) = nocase hdl"
    using ctl_account_row [OF u] assms(2) v(2) by auto
  have 3: "db_inv (st_db s3)" "tbl_get (d_user (st_db s3)) ?i = Some (r\<lparr>u_password_hash := h\<rparr>)"
    using update_row [OF p [unfolded users_SetPassword_def] _ r(1,2)] by auto
  have 4: "db_inv (st_db s4)" "tbl_get (d_user (st_db s4)) ?i = Some (r\<lparr>u_password_hash := h, u_status := StatusApproved, u_access_level := level\<rparr>)"
    using update_row [OF a [unfolded users_Approve_def users_SetStatus_def] _ 3] by auto
  have db5: "st_db s5 = st_db s4" using has_key_db [OF has] .
  have "d_user (st_db t) = d_user (st_db s4) \<and> (\<exists>pk c k kr. ssh_parse K line = Some (pk, c) \<and> tbl_get (d_key (st_db t)) k = Some kr \<and>
      k_user_id kr = ?i \<and> k_revoked_at kr = None \<and> k_fingerprint kr = ssh_fingerprint K pk)"
  proof (cases has)
    case True
    then show ?thesis using has_key_row [of K ?i line s4 s5] has 4(1) k db5 by auto
  next
    case False
    then obtain x where "keys_Add K ?i line s5 = (Inr x, t)" using k by (auto elim!: chk_InrE)
    then show ?thesis using Add_row [of K ?i line s5 x t] 4(1) db5 by auto
  qed
  then show ?thesis using 4(2) v(1) r(3) by (intro exI [of _ ?i]) auto
qed

text \<open>Only the table of keys changed.\<close>

definition keys_only :: "'a store_scheme \<Rightarrow> 'a store_scheme \<Rightarrow> bool" where
  "keys_only s s' \<longleftrightarrow> st_db s' = (st_db s)\<lparr>d_key := d_key (st_db s')\<rparr>"

interpretation keyset: frame_rel keys_only
proof
  show "keys_only s s''" if "keys_only s s'" "keys_only s' s''" for s s' s'' :: "'a store_scheme"
  proof -
    have "st_db s'' = ((st_db s)\<lparr>d_key := d_key (st_db s')\<rparr>)\<lparr>d_key := d_key (st_db s'')\<rparr>" using that unfolding keys_only_def by metis
    then show ?thesis by (simp add: keys_only_def)
  qed
qed (simp add: keys_only_def)

lemma keys_Add_keys: "st_db (snd (keys_Add K i line t)) = (st_db t)\<lparr>d_key := d_key (st_db (snd (keys_Add K i line t)))\<rparr>"
  by (rule keys_Add_cases [of K i line t]) (auto simp: ins_key_def split: if_splits)

lemma keyset_ops: "steps keys_only (ctl_pubkey o1 x)" "steps keys_only (users_ByHandle h)" "steps keys_only (keys_Add K i line)"
proof -
  show "steps keys_only (ctl_pubkey o1 x)"
    by (simp add: steps_def keys_only_def ctl_pubkey_def chk_run os_ReadFile_def ext_def split: option.splits)
  show "steps keys_only (users_ByHandle h)" by (simp add: steps_def keys_only_def ByHandle_db)
  show "steps keys_only (keys_Add K i line)" unfolding steps_def keys_only_def using keys_Add_keys by blast
qed

text \<open>
  \<open>addkey\<close> registers a key and nothing else: whatever the arguments and whatever fails, no table
  but that of the keys changes, in particular no password and no access level.
\<close>

theorem addkey_only_keys:
  "st_db (snd (ctl_addkey L o1 args s)) = (st_db s)\<lparr>d_key := d_key (st_db (snd (ctl_addkey L o1 args s)))\<rparr>"
proof -
  have "steps keys_only (ctl_addkey L o1 args)" unfolding ctl_addkey_def by (intro keyset.steps_rules keyset_ops)
  then show ?thesis unfolding steps_def keys_only_def by blast
qed

theorem bootstrap_ready_witness:
  "\<exists>i r. tbl_get (d_user (st_db (snd (ctl_setup (l_ssh demo_libs) [98] 100 [75] [1] (calm_store demo_db))))) i = Some r \<and>
     nocase (u_handle r) = [98] \<and> u_access_level r = 100 \<and> VerifyPassword clear_prims (u_password_hash r) [1] = Inr True"
proof -
  let ?run = "ctl_setup (l_ssh demo_libs) [98] 100 [75] [1] (calm_store demo_db)"
  have "\<exists>out. fst ?run = Inr out"
    by (simp add: ctl_setup_def ValidatePublicKey_def demo_libs_def chk_run HashPassword_def rand_Read_ok ctl_account_def att_run
        users_ByHandle_def query_ok tbl_select_def demo_user_def nocase_def lower_byte_def first_row_def bind_err_def norows_notfound_def
        users_scan_def unseal_def users_SetPassword_def users_Approve_def users_SetStatus_def exec_ok upd_user_def tbl_update_def
        ctl_has_key_def keys_Active_def tbl_empty_def keys_Add_def Let_def time_Now_def sel_id_def holder_levels_def ins_key_def fk_def
        tbl_insert_def keys_byID_def tbl_get_def)
  then obtain out t where run: "?run = (Inr out, t)" by (cases ?run) auto
  have "nocase [98] = [98]" by (simp add: nocase_def lower_byte_def)
  with bootstrap_ready [OF run] clear_prims_ok show ?thesis unfolding run by (simp del: One_nat_def) blast
qed

end
