(* ===== verification/Spec2Isabelle.thy ===== *)
theory Spec2Isabelle
  imports Float64 Sanitize SessionInput Xmodem Telnet Pools SshTransport SysopCtl
begin

text \<open>
  A verification of AdmiralBBS, a bulletin-board system in Go: the server \<^verbatim>\<open>cmd/admiralbbs\<close>, its operator
  tools \<^verbatim>\<open>cmd/sysopctl\<close> and \<^verbatim>\<open>cmd/rekey\<close>, and the packages below \<^verbatim>\<open>src/src\<close>. File names in the text are
  relative to that directory.

  \<^bold>\<open>The program.\<close> Two listeners accept callers. Telnet (\<^verbatim>\<open>transport/telnet.go\<close>) leads to the membership
  application and nowhere else; SSH (\<^verbatim>\<open>transport/ssh.go\<close>) asks for a registered key, and the login then for
  a password or a one-time token. A logged-in member works in menus (\<^verbatim>\<open>menu/\<close>): boards, mail, files, door
  games, profile, and for SysOps the control panel. All state is in an SQLite database with sealed
  columns (\<^verbatim>\<open>store/\<close>, \<^verbatim>\<open>crypto/\<close>), a directory of sealed blobs, and an encrypted, hash-chained audit
  trail (\<^verbatim>\<open>audit/\<close>). Sessions (\<^verbatim>\<open>session/\<close>) share a connection limiter, a node pool, a presence table and a
  roster; door games run as sandboxed subprocesses or as supervised resident servers (\<^verbatim>\<open>doors/\<close>).

  \<^bold>\<open>How it is modelled.\<close> A Go function with an error result is a program \<open>'s \<Rightarrow> (gerr + 'x) \<times> 's\<close>
  (\<^verbatim>\<open>Prelude\<close>): \<open>chk\<close> is a call whose error is returned, \<open>att\<close> one whose error is looked at, and every
  early return, ignored error and deferred call of the source is a branch of the definition. The state
  grows by record extension: the machine (files, clock, entropy, and for every interaction whether it
  fails), then the database, then one caller's session with log and supervisor, then the server with its
  registries. The failures are arbitrary functions of the step, so a theorem that says \<open>whatever fails\<close>
  quantifies over every course of failures; \<open>sound\<close> is the course without any. Bytes are \<open>8 word\<close>, times are
  nanoseconds, database identifiers and Go \<open>int\<close>s are \<open>int\<close>, tables are row lists with a sequence number and
  the constraints of the schema. The minutes of the time budget are \<open>float64\<close> with its rounding, and the
  durations made of them \<open>int64\<close> with its wrap-around; Go's \<open>int\<close> is taken to have 64 bits.

  \<^bold>\<open>Loops.\<close> A loop over a list or a counter is structural recursion. A menu loop is \<open>for_loop\<close> of
  \<^verbatim>\<open>Caller\<close>: it goes round again only when the round has consumed input, which makes it total; that the
  test is never what ends it is proved for every menu (\<open>menu_loops_read\<close>). The XMODEM and password
  retries have the bounds of the source. Concurrent code (limiter, presence, supervisor) is a step
  relation over the atomic sections, and what is proved of it is proved of every reachable state.

  \<^bold>\<open>The theories.\<close>
  \<^item> \<^verbatim>\<open>Prelude, GoStd, GoText, Env, Tables\<close>: programs and frames (\<open>steps\<close>, locale \<open>frame_rel\<close>), the string,
    number, base64 and time functions the sources use, the machine, tables.
  \<^item> \<^verbatim>\<open>Float64\<close>: \<open>float64\<close> arithmetic, \<open>int64\<close> conversion and \<open>time.Duration\<close>, with error bounds.
  \<^item> \<^verbatim>\<open>Sanitize\<close> (\<^verbatim>\<open>session/input.go, screen/\<close>): input and display sanitising, the screen writer, art.
    No escape sequence survives; stripped ANSI output is the plain output.
  \<^item> \<^verbatim>\<open>SessionInput\<close> (\<^verbatim>\<open>session/session.go, terminal.go\<close>): byte, key, line and password readers, the
    watchdogs. The readers return the edited text, within bounds, while the watchdogs run; input
    postpones the idle watchdog and not the budget, and a late byte finds the wire closed.
  \<^item> \<^verbatim>\<open>Telnet\<close>: the parser against a grammar of RFC 854 items, and \<open>Read\<close> over any chunking of the stream;
    refusals and subnegotiations of option 0, which the parser does not treat as the RFC does, apart.
  \<^item> \<^verbatim>\<open>Xmodem\<close> (\<^verbatim>\<open>xfer/xmodem.go\<close>): sender, receiver, CRC; what is sent is what is received.
  \<^item> \<^verbatim>\<open>Pools\<close> (\<^verbatim>\<open>transport/limits.go, session/nodepool.go, presence.go, roster.go\<close>): caps, no leaks, distinct
    node numbers, newest login wins, under interleaving; registering and closing the displaced
    session are two steps.
  \<^item> \<^verbatim>\<open>Vault, AuditLog\<close> (\<^verbatim>\<open>crypto/vault.go, audit/log.go\<close>): sealing, the salt file, the chained trail and what
    it detects, survives and does not detect.
  \<^item> \<^verbatim>\<open>Schema, Accounts, Repos, Boards, MailFiles, SysTables\<close> (\<^verbatim>\<open>store/\<close>): the tables and their constraints,
    every repository operation, the migration runner. Locales state the contract of a registry once
    (\<^verbatim>\<open>Repos\<close>) and are interpreted for keys, tokens, bans and reports.
  \<^item> \<^verbatim>\<open>StoreInv\<close>: the consistency of the database and the permanence of its history under any sequence of
    operations, by the frame locale \<open>db_frame\<close>.
  \<^item> \<^verbatim>\<open>RekeyDB\<close> (\<^verbatim>\<open>store/rekey.go, cmd/rekey\<close>): rotation is all or nothing for the database; the command is
    not.
  \<^item> \<^verbatim>\<open>Caller, Screens, Authority\<close>: a caller's state, prompts and pages; the relation \<open>confined\<close>, what a member
    may change, with the locale \<open>call_frame\<close> that carries it through menus.
  \<^item> \<^verbatim>\<open>MenuMail, MenuBoards, MenuFiles, MenuProfile, MenuApply, MenuSysop, MenuMember\<close> (\<^verbatim>\<open>menu/\<close>): every
    screen; each is shown to stay in the frame of its caller and to read input in each round. \<^verbatim>\<open>MenuProfile\<close>
    has the login, \<^verbatim>\<open>MenuApply\<close> the application, \<^verbatim>\<open>MenuSysop\<close> the panel and its password.
  \<^item> \<^verbatim>\<open>Doors, Supervisor, DoorInstall\<close> (\<^verbatim>\<open>doors/, menu/doorinstall.go\<close>): launching, handshake, downloads, the
    supervising goroutines, installing.
  \<^item> \<^verbatim>\<open>Daemon\<close> (\<^verbatim>\<open>cmd/admiralbbs/main.go\<close>): seeding, first factor, time budget, and the two handlers; here the
    components meet in theorems about one whole visit.
  \<^item> \<^verbatim>\<open>SshTransport\<close> (\<^verbatim>\<open>transport/ssh.go\<close>): host key, accepting, channels and requests.
  \<^item> \<^verbatim>\<open>SysopCtl\<close> (\<^verbatim>\<open>cmd/sysopctl\<close>): the operator's commands.

  \<^bold>\<open>Parameters.\<close> Code outside the repository is an argument, its documented behaviour a hypothesis with an
  instance: cipher, MAC, hash and key derivation (\<open>prims_ok\<close>), IP parsing (\<open>netlib_ok\<close>), JSON, SSH key and
  request decoding, case mapping above ASCII, SQLite's \<open>LIKE\<close> and its sum of a \<open>REAL\<close> column, what the
  platform makes of a \<open>float64\<close> too large for \<open>int64\<close>, HTTP, the operating system that runs a door, and what
  a door then does.

  \<^bold>\<open>Not modelled.\<close> Flags, environment and signals of the commands; sockets and the SSH protocol; opening
  the SQLite file and the text of the migrations; \<open>mlock\<close> and zeroing of keys; sleeping after a wrong
  password; the demo menu (\<^verbatim>\<open>menu/demo.go\<close>), which no command builds, and \<open>Bridge\<close>, which none calls. Two
  sessions interleave only in the registries and the supervisor: a visit's theorem speaks of the database
  as that visit finds and leaves it. Infinities, NaN and subnormal floats,
  which the computed quantities do not reach, are left out.
\<close>

end
